(* ===== verification/Prelude.thy ===== *)
theory Prelude
  imports Main
begin

text \<open>
  Lemmas and combinators shared by all components: the error-state combinators used for
  code that both changes state and may throw, facts on lists that stand for C++ sequence
  containers, and the collections of simplification rules the component theories fill.
\<close>

named_theorems heap_simps \<open>field access after an update of the object heap\<close>
named_theorems step_defs \<open>definitions of single operations, unfolded when a step is inspected\<close>

subsection \<open>Fallible results\<close>

text \<open>
  \<open>'e + 'a\<close> is the result of code that returns an \<open>'a\<close> or fails with an \<open>'e\<close>.
  \<open>and_then\<close> runs the continuation only after a normal return.
\<close>

definition and_then :: "'e + 'a \<Rightarrow> ('a \<Rightarrow> 'e + 'b) \<Rightarrow> 'e + 'b" where
  "and_then r f = (case r of Inl e \<Rightarrow> Inl e | Inr x \<Rightarrow> f x)"

lemma and_then_simps [simp]:
  "and_then (Inl e) f = Inl e"
  "and_then (Inr x) f = f x"
  by (simp_all add: and_then_def)

lemma and_then_eq_Inr:
  "and_then r f = Inr y \<longleftrightarrow> (\<exists>x. r = Inr x \<and> f x = Inr y)"
  by (cases r) auto

lemma and_then_assoc:
  "and_then (and_then r f) g = and_then r (\<lambda>x. and_then (f x) g)"
  by (cases r) auto

text \<open>The same for code that also changes a state: the state survives the exception.\<close>

definition st_then ::
  "('s \<Rightarrow> ('e + 'a) \<times> 's) \<Rightarrow> ('a \<Rightarrow> 's \<Rightarrow> ('e + 'b) \<times> 's) \<Rightarrow> 's \<Rightarrow> ('e + 'b) \<times> 's" where
  "st_then m f s = (case m s of (Inl e, s') \<Rightarrow> (Inl e, s') | (Inr x, s') \<Rightarrow> f x s')"

lemma st_then_Inl [simp]: "m s = (Inl e, s') \<Longrightarrow> st_then m f s = (Inl e, s')"
  by (simp add: st_then_def)

lemma st_then_Inr [simp]: "m s = (Inr x, s') \<Longrightarrow> st_then m f s = f x s'"
  by (simp add: st_then_def)

text \<open>\<open>map_result\<close> stands for an element-wise conversion loop that stops at the first throw.\<close>

fun map_result :: "('a \<Rightarrow> 'e + 'b) \<Rightarrow> 'a list \<Rightarrow> 'e + 'b list" where
  "map_result f [] = Inr []"
| "map_result f (x # xs) = and_then (f x) (\<lambda>y. and_then (map_result f xs) (\<lambda>ys. Inr (y # ys)))"

lemma map_result_Inr_length: "map_result f xs = Inr ys \<Longrightarrow> length ys = length xs"
  by (induction xs arbitrary: ys) (auto simp: and_then_eq_Inr)

lemma map_result_inverse:
  assumes "\<And>x. x \<in> set xs \<Longrightarrow> f (g x) = Inr x"
  shows "map_result f (map g xs) = Inr xs"
  using assms by (induction xs) auto

lemma map_result_compose:
  assumes "map_result g xs = Inr ys" and "\<And>x y. x \<in> set xs \<Longrightarrow> g x = Inr y \<Longrightarrow> f y = Inr x"
  shows "map_result f ys = Inr xs"
  using assms by (induction xs arbitrary: ys) (auto simp: and_then_eq_Inr)

subsection \<open>Lists\<close>

lemma takeWhile_neq_append_Cons [simp]:
  "c \<notin> set xs \<Longrightarrow> takeWhile (\<lambda>x. x \<noteq> c) (xs @ c # ys) = xs"
  by (induction xs) auto

lemma dropWhile_neq_append_Cons [simp]:
  "c \<notin> set xs \<Longrightarrow> dropWhile (\<lambda>x. x \<noteq> c) (xs @ c # ys) = c # ys"
  by (induction xs) auto

lemma takeWhile_neq_all [simp]: "c \<notin> set xs \<Longrightarrow> takeWhile (\<lambda>x. x \<noteq> c) xs = xs"
  by (induction xs) auto

lemma dropWhile_neq_all [simp]: "c \<notin> set xs \<Longrightarrow> dropWhile (\<lambda>x. x \<noteq> c) xs = []"
  by (induction xs) auto

lemma dropWhile_neq_Cons_hd: "dropWhile (\<lambda>x. x \<noteq> c) xs = y # ys \<Longrightarrow> y = c"
  by (induction xs) (auto split: if_splits)

lemma dropWhile_neq_split:
  "dropWhile (\<lambda>x. x \<noteq> c) xs = y # ys \<Longrightarrow> xs = takeWhile (\<lambda>x. x \<noteq> c) xs @ c # ys"
  by (metis dropWhile_neq_Cons_hd takeWhile_dropWhile_id)

lemma length_dropWhile_lt: "dropWhile P xs = y # ys \<Longrightarrow> length ys < length xs"
  by (metis length_dropWhile_le length_Cons less_eq_Suc_le)

lemma filter_neq_id [simp]: "c \<notin> set xs \<Longrightarrow> filter (\<lambda>x. x \<noteq> c) xs = xs"
  by (induction xs) auto

end
