(* ===== verification/Decof_Types.thy ===== *)
theory Decof_Types
  imports Prelude "HOL-Library.Word"
begin

text \<open>
  The data shared by every component: userlevels (\<open>userlevel.h\<close>), the exception hierarchy
  (\<open>exceptions.h\<close>, \<open>exceptions.cpp\<close>), the run-time generic values exchanged between
  parameters and client contexts (\<open>types.h\<close>) and the encoding hints
  (\<open>encoding_hint.h\<close>).
  A C++ \<open>std::string\<close> or \<open>const char*\<close> is a list of bytes (\<open>string\<close>).
  \<open>long long\<close> is a 64 bit word read with \<open>sint\<close>, \<open>double\<close> is its IEEE 754 bit pattern.
\<close>

subsection \<open>Userlevels\<close>

text \<open>
  \<open>userlevel_t\<close> is an unscoped enumeration whose enumerators span \<open>int\<close>; the contexts cast
  arbitrary \<open>int\<close> values to it, so its values are the integers, only ever compared.
\<close>

type_synonym userlevel = int

definition Minimum :: userlevel where "Minimum = 0"
definition Internal :: userlevel where "Internal = Minimum"
definition Service :: userlevel where "Service = 1"
definition Maintenance :: userlevel where "Maintenance = 2"
definition Normal :: userlevel where "Normal = 3"
definition Readonly :: userlevel where "Readonly = 4"
definition Maximum :: userlevel where "Maximum = Readonly"
definition Forbidden :: userlevel where "Forbidden = 2147483647"

lemmas userlevel_defs = Minimum_def Internal_def Service_def Maintenance_def Normal_def
  Readonly_def Maximum_def Forbidden_def

subsection \<open>Errors\<close>

datatype error_codes =
    SUCCESS | UNKNOWN_ERROR | PARSE_ERROR | ACCESS_DENIED | INVALID_PARAMETER | WRONG_TYPE
  | INVALID_VALUE | UNKNOWN_OPERATION | INVALID_USERLEVEL | NOT_SUBSCRIBED | NOT_IMPLEMENTED
  | PROTOCOL_SPECIFIC_ERRORS

fun code_value :: "error_codes \<Rightarrow> int" where
  "code_value SUCCESS = 0"
| "code_value UNKNOWN_ERROR = 1"
| "code_value PARSE_ERROR = 2"
| "code_value ACCESS_DENIED = 3"
| "code_value INVALID_PARAMETER = 4"
| "code_value WRONG_TYPE = 5"
| "code_value INVALID_VALUE = 6"
| "code_value UNKNOWN_OPERATION = 7"
| "code_value INVALID_USERLEVEL = 8"
| "code_value NOT_SUBSCRIBED = 9"
| "code_value NOT_IMPLEMENTED = 10"
| "code_value PROTOCOL_SPECIFIC_ERRORS = 11"

datatype runtime_error =
    access_denied_error | invalid_parameter_error | wrong_type_error | invalid_value_error
  | unknown_operation_error | parse_error | invalid_userlevel_error | not_subscribed_error
  | not_implemented_error

fun code :: "runtime_error \<Rightarrow> error_codes" where
  "code access_denied_error = ACCESS_DENIED"
| "code invalid_parameter_error = INVALID_PARAMETER"
| "code wrong_type_error = WRONG_TYPE"
| "code invalid_value_error = INVALID_VALUE"
| "code unknown_operation_error = UNKNOWN_OPERATION"
| "code parse_error = PARSE_ERROR"
| "code not_implemented_error = NOT_IMPLEMENTED"
| "code invalid_userlevel_error = INVALID_USERLEVEL"
| "code not_subscribed_error = NOT_SUBSCRIBED"

fun what :: "runtime_error \<Rightarrow> string" where
  "what access_denied_error = ''Access denied''"
| "what invalid_parameter_error = ''Invalid parameter''"
| "what wrong_type_error = ''Wrong type''"
| "what invalid_value_error = ''Invalid value''"
| "what unknown_operation_error = ''Unknown operation''"
| "what parse_error = ''Parse error''"
| "what not_implemented_error = ''Not implemented''"
| "what invalid_userlevel_error = ''Invalid userlevel''"
| "what not_subscribed_error = ''Not subscribed''"

text \<open>
  What can leave a call other than a normal return: a \<open>decof::runtime_error\<close>, one of the
  standard library's exceptions the code provokes, an exception of a user supplied handler,
  a failed \<open>assert\<close>, or undefined behaviour (a null or dangling pointer, a read past the
  end of a container, unbounded recursion). Only the exceptions can be caught.
\<close>

datatype error =
    Runtime runtime_error
  | Out_of_range
  | Invalid_argument
  | Bad_lexical_cast
  | Foreign string
  | Assertion_failed
  | Undefined

subsection \<open>Generic values\<close>

type_synonym integer_t = "64 word"
type_synonym real_t = "64 word"

datatype scalar_t =
    Boolean_t bool | Integer_t integer_t | Real_t real_t | String_t string | Binary_t string

datatype value_t = Scalar_t scalar_t | Sequence_t "scalar_t list" | Tuple_t "scalar_t list"

text \<open>A default constructed \<open>std::variant\<close> holds its value-initialised first alternative.\<close>

definition default_scalar :: scalar_t where "default_scalar = Boolean_t False"
definition default_value :: value_t where "default_value = Scalar_t default_scalar"

datatype encoding_hint = none | binary

datatype type_tag =
    boolean_tag | integer_tag | real_tag | string_tag | binary_tag
  | sequence_tag type_tag | tuple_tag

text \<open>Every exception class reports a code of its own.\<close>

lemma inj_code: "inj code"
  by (rule injI) (case_tac x; case_tac y; simp)

lemma inj_code_value: "inj code_value"
  by (rule injI) (case_tac x; case_tac y; simp)

lemma code_not_reserved: "code e \<noteq> SUCCESS \<and> code e \<noteq> UNKNOWN_ERROR"
  by (cases e) auto

end
