(* ===== verification/Object_Tree.thy ===== *)
theory Object_Tree
  imports Decof_Types
begin

text \<open>
  The object tree: \<open>object\<close>, \<open>node\<close> and \<open>object_dictionary\<close> (\<open>src/core/object.cpp\<close>,
  \<open>node.cpp\<close>, \<open>object_dictionary.cpp\<close>). Objects live in a heap, a partial map from addresses;
  a C++ pointer is an \<open>addr option\<close> with \<open>None\<close> for \<open>nullptr\<close>. Every operation that
  dereferences a pointer returns \<open>Inl Undefined\<close> when nothing lives there. The members of the
  classes derived from \<open>event\<close> and \<open>basic_parameter\<close> are the type parameter \<open>'x\<close>.
\<close>

type_synonym addr = nat

text \<open>
  The dynamic class of an object with the members the class adds to \<open>object\<close>: the children of
  a node; for the object dictionary also the current context and the tick targets.
\<close>

datatype 'x klass =
    Plain_k
  | Node_k (kids: "addr list")
  | Dictionary_k (kids: "addr list") (dict_context: "addr option") (dict_ticks: "addr list")
  | Leaf_k 'x

record 'x object =
  oname :: string
  oparent :: "addr option"
  oreadlevel :: userlevel
  owritelevel :: userlevel
  klass :: "'x klass"

type_synonym 'x heap = "addr \<rightharpoonup> 'x object"

subsection \<open>Access to the heap\<close>

definition deref :: "'x heap \<Rightarrow> addr \<Rightarrow> error + 'x object" where
  "deref h a = (case h a of None \<Rightarrow> Inl Undefined | Some ob \<Rightarrow> Inr ob)"

definition modify :: "addr \<Rightarrow> ('x object \<Rightarrow> 'x object) \<Rightarrow> 'x heap \<Rightarrow> error + 'x heap" where
  "modify a f h = (case h a of None \<Rightarrow> Inl Undefined | Some ob \<Rightarrow> Inr (h(a \<mapsto> f ob)))"

text \<open>\<open>dynamic_cast<node*>\<close> succeeds for nodes and for the dictionary, which is a node.\<close>

fun klass_children :: "'x klass \<Rightarrow> addr list option" where
  "klass_children (Node_k cs) = Some cs"
| "klass_children (Dictionary_k cs cc ts) = Some cs"
| "klass_children Plain_k = None"
| "klass_children (Leaf_k x) = None"

fun with_children :: "addr list \<Rightarrow> 'x klass \<Rightarrow> 'x klass" where
  "with_children cs (Node_k cs') = Node_k cs"
| "with_children cs (Dictionary_k cs' cc ts) = Dictionary_k cs cc ts"
| "with_children cs Plain_k = Plain_k"
| "with_children cs (Leaf_k x) = Leaf_k x"

definition children_of :: "'x heap \<Rightarrow> addr \<Rightarrow> addr list option" where
  "children_of h a = (case h a of None \<Rightarrow> None | Some ob \<Rightarrow> klass_children (klass ob))"

definition is_node :: "'x heap \<Rightarrow> addr \<Rightarrow> bool" where
  "is_node h a = (children_of h a \<noteq> None)"

definition set_children :: "addr \<Rightarrow> addr list \<Rightarrow> 'x heap \<Rightarrow> error + 'x heap" where
  "set_children p cs = modify p (\<lambda>ob. ob\<lparr>klass := with_children cs (klass ob)\<rparr>)"

definition set_parent :: "addr \<Rightarrow> addr option \<Rightarrow> 'x heap \<Rightarrow> error + 'x heap" where
  "set_parent c p = modify c (\<lambda>ob. ob\<lparr>oparent := p\<rparr>)"

subsection \<open>node: the list of children\<close>

definition remove_child :: "addr \<Rightarrow> addr \<Rightarrow> 'x heap \<Rightarrow> error + 'x heap" where
  "remove_child p child h =
     (case children_of h p of
        None \<Rightarrow> Inl Undefined
      | Some cs \<Rightarrow>
          and_then (if child \<in> set cs then set_parent child None h else Inr h)
            (set_children p (filter (\<lambda>obj. obj \<noteq> child) cs)))"

definition add_child :: "addr \<Rightarrow> addr \<Rightarrow> 'x heap \<Rightarrow> error + 'x heap" where
  "add_child p child h =
     and_then (deref h child) (\<lambda>ob.
     and_then (case oparent ob of None \<Rightarrow> Inr h | Some q \<Rightarrow> remove_child q child h) (\<lambda>h1.
     case children_of h1 p of
       None \<Rightarrow> Inl Undefined
     | Some cs \<Rightarrow> and_then (set_children p (cs @ [child]) h1) (set_parent child (Some p))))"

text \<open>\<open>node::children\<close> and \<open>node::value\<close>: the names of the children, in order.\<close>

fun names_of :: "'x heap \<Rightarrow> addr list \<Rightarrow> error + string list" where
  "names_of h cs = map_result (\<lambda>c. and_then (deref h c) (\<lambda>ob. Inr (oname ob))) cs"

definition children :: "'x heap \<Rightarrow> addr \<Rightarrow> error + string list" where
  "children h p = (case children_of h p of None \<Rightarrow> Inl Undefined | Some cs \<Rightarrow> names_of h cs)"

fun find_child_in :: "'x heap \<Rightarrow> addr list \<Rightarrow> string \<Rightarrow> error + addr option" where
  "find_child_in h [] nm = Inr None"
| "find_child_in h (c # cs) nm =
     (case h c of
        None \<Rightarrow> Inl Undefined
      | Some ob \<Rightarrow> if oname ob = nm then Inr (Some c) else find_child_in h cs nm)"

definition find_child :: "'x heap \<Rightarrow> addr \<Rightarrow> string \<Rightarrow> error + addr option" where
  "find_child h p nm =
     (case children_of h p of None \<Rightarrow> Inl Undefined | Some cs \<Rightarrow> find_child_in h cs nm)"

text \<open>
  \<open>uri.substr(0, uri.find(separator))\<close> is the part before the first separator, the whole URI
  when there is none; the separator itself is dropped by the second \<open>remove_prefix\<close>.
\<close>

function find_descendant_object ::
  "'x heap \<Rightarrow> addr \<Rightarrow> string \<Rightarrow> char \<Rightarrow> error + addr option" where
  "find_descendant_object h p uri separator =
     (case find_child h p (takeWhile (\<lambda>c. c \<noteq> separator) uri) of
        Inl e \<Rightarrow> Inl e
      | Inr obj \<Rightarrow>
          (case dropWhile (\<lambda>c. c \<noteq> separator) uri of
             [] \<Rightarrow> Inr obj
           | _ # uri' \<Rightarrow>
               if uri' = [] then Inr None
               else (case obj of
                       None \<Rightarrow> Inr None
                     | Some c \<Rightarrow>
                         if is_node h c then find_descendant_object h c uri' separator
                         else Inr None)))"
  by pat_completeness auto
termination
  by (relation "measure (\<lambda>(h, p, uri, s). length uri)") (auto dest: length_dropWhile_lt)

declare find_descendant_object.simps [simp del]

subsection \<open>object: names, parents, levels\<close>

definition new_object ::
  "addr \<Rightarrow> string \<Rightarrow> addr option \<Rightarrow> userlevel \<Rightarrow> userlevel \<Rightarrow> 'x klass \<Rightarrow> 'x heap \<Rightarrow> error + 'x heap" where
  "new_object a nm parent rl wl k h =
     (if rl = Readonly \<or> wl = Readonly then Inl Assertion_failed
      else let h1 = h(a \<mapsto> \<lparr>oname = nm, oparent = parent, oreadlevel = rl, owritelevel = wl, klass = k\<rparr>)
           in case parent of None \<Rightarrow> Inr h1 | Some p \<Rightarrow> add_child p a h1)"

text \<open>
  The destructors run from the most derived class down: \<open>node::~node\<close> orphans the children,
  \<open>object::~object\<close> leaves the parent, then the storage is gone.
\<close>

fun orphan_all :: "addr list \<Rightarrow> 'x heap \<Rightarrow> error + 'x heap" where
  "orphan_all [] h = Inr h"
| "orphan_all (c # cs) h = and_then (set_parent c None h) (orphan_all cs)"

definition leave_parent :: "addr \<Rightarrow> 'x heap \<Rightarrow> error + 'x heap" where
  "leave_parent a h = and_then (deref h a) (\<lambda>ob.
     case oparent ob of None \<Rightarrow> Inr h | Some p \<Rightarrow> remove_child p a h)"

definition delete_object :: "addr \<Rightarrow> 'x heap \<Rightarrow> error + 'x heap" where
  "delete_object a h = and_then (deref h a) (\<lambda>ob.
     and_then (case klass_children (klass ob) of None \<Rightarrow> Inr h | Some cs \<Rightarrow> orphan_all cs h) (\<lambda>h1.
     and_then (leave_parent a h1) (\<lambda>h2. Inr (h2(a := None)))))"

definition reset_parent :: "addr \<Rightarrow> addr option \<Rightarrow> 'x heap \<Rightarrow> error + 'x heap" where
  "reset_parent a parent h =
     and_then (leave_parent a h) (\<lambda>h1.
     case parent of None \<Rightarrow> Inr h1 | Some p \<Rightarrow> add_child p a h1)"

definition set_name :: "addr \<Rightarrow> string \<Rightarrow> 'x heap \<Rightarrow> error + 'x heap" where
  "set_name a nm = modify a (\<lambda>ob. ob\<lparr>oname := nm\<rparr>)"

definition set_readlevel :: "addr \<Rightarrow> userlevel \<Rightarrow> 'x heap \<Rightarrow> error + 'x heap" where
  "set_readlevel a ul = modify a (\<lambda>ob. ob\<lparr>oreadlevel := ul\<rparr>)"

definition set_writelevel :: "addr \<Rightarrow> userlevel \<Rightarrow> 'x heap \<Rightarrow> error + 'x heap" where
  "set_writelevel a ul = modify a (\<lambda>ob. ob\<lparr>owritelevel := ul\<rparr>)"

text \<open>
  \<open>fq_name\<close> recurses and \<open>get_object_dictionary\<close> loops towards the root. \<open>None\<close> is undefined
  behaviour: a dangling parent pointer, or a cyclic chain that never ends.
\<close>

partial_function (option) fq_name :: "'x heap \<Rightarrow> addr \<Rightarrow> string option" where
  "fq_name h a =
     (case h a of
        None \<Rightarrow> None
      | Some ob \<Rightarrow>
          (case oparent ob of
             None \<Rightarrow> Some (oname ob)
           | Some p \<Rightarrow> Option.bind (fq_name h p) (\<lambda>s. Some (s @ '':'' @ oname ob))))"

partial_function (option) root_of :: "'x heap \<Rightarrow> addr \<Rightarrow> addr option" where
  "root_of h te =
     (case h te of
        None \<Rightarrow> None
      | Some ob \<Rightarrow> (case oparent ob of None \<Rightarrow> Some te | Some p \<Rightarrow> root_of h p))"

fun is_dictionary_klass :: "'x klass \<Rightarrow> bool" where
  "is_dictionary_klass (Dictionary_k cs cc ts) = True"
| "is_dictionary_klass k = False"

definition get_object_dictionary :: "'x heap \<Rightarrow> addr \<Rightarrow> error + addr option" where
  "get_object_dictionary h a =
     (case root_of h a of
        None \<Rightarrow> Inl Undefined
      | Some te \<Rightarrow> and_then (deref h te) (\<lambda>ob.
          Inr (if is_dictionary_klass (klass ob) then Some te else None)))"

subsection \<open>object_dictionary\<close>

definition new_dictionary :: "addr \<Rightarrow> string \<Rightarrow> 'x heap \<Rightarrow> error + 'x heap" where
  "new_dictionary a root_uri = new_object a root_uri None Normal Forbidden (Dictionary_k [] None [])"

definition find_object :: "'x heap \<Rightarrow> addr \<Rightarrow> string \<Rightarrow> char \<Rightarrow> error + addr option" where
  "find_object h d uri separator =
     (if uri = [] then Inr None
      else let uri1 = (if hd uri = separator then tl uri else uri)
           in and_then (deref h d) (\<lambda>ob.
              if oname ob \<noteq> takeWhile (\<lambda>c. c \<noteq> separator) uri1 then Inr None
              else (case dropWhile (\<lambda>c. c \<noteq> separator) uri1 of
                      [] \<Rightarrow> Inr (Some d)
                    | _ # uri2 \<Rightarrow> find_descendant_object h d uri2 separator)))"

fun upd_context :: "addr option \<Rightarrow> 'x klass \<Rightarrow> 'x klass" where
  "upd_context cc (Dictionary_k cs cc' ts) = Dictionary_k cs cc ts"
| "upd_context cc k = k"

fun upd_ticks :: "(addr list \<Rightarrow> addr list) \<Rightarrow> 'x klass \<Rightarrow> 'x klass" where
  "upd_ticks f (Dictionary_k cs cc ts) = Dictionary_k cs cc (f ts)"
| "upd_ticks f k = k"

definition set_current_context :: "addr \<Rightarrow> addr option \<Rightarrow> 'x heap \<Rightarrow> error + 'x heap" where
  "set_current_context d cc = modify d (\<lambda>ob. ob\<lparr>klass := upd_context cc (klass ob)\<rparr>)"

definition register_for_tick :: "addr \<Rightarrow> addr \<Rightarrow> 'x heap \<Rightarrow> error + 'x heap" where
  "register_for_tick d t = modify d (\<lambda>ob. ob\<lparr>klass := upd_ticks (\<lambda>ts. ts @ [t]) (klass ob)\<rparr>)"

definition unregister_for_tick :: "addr \<Rightarrow> addr \<Rightarrow> 'x heap \<Rightarrow> error + 'x heap" where
  "unregister_for_tick d t =
     modify d (\<lambda>ob. ob\<lparr>klass := upd_ticks (filter (\<lambda>x. x \<noteq> t)) (klass ob)\<rparr>)"

definition current_context :: "'x heap \<Rightarrow> addr \<Rightarrow> addr option" where
  "current_context h d =
     (case h d of Some ob \<Rightarrow> (case klass ob of Dictionary_k cs cc ts \<Rightarrow> cc | _ \<Rightarrow> None) | None \<Rightarrow> None)"

definition tick_targets :: "'x heap \<Rightarrow> addr \<Rightarrow> addr list" where
  "tick_targets h d =
     (case h d of Some ob \<Rightarrow> (case klass ob of Dictionary_k cs cc ts \<Rightarrow> ts | _ \<Rightarrow> []) | None \<Rightarrow> [])"

subsection \<open>The links of the tree\<close>

text \<open>
  The proofs see a heap through three projections: who is whose parent, the lists of children,
  and everything else (\<open>frame\<close>). An object is determined by the three.
\<close>

definition parent_of :: "'x heap \<Rightarrow> addr \<Rightarrow> addr option" where
  "parent_of h a = (case h a of None \<Rightarrow> None | Some ob \<Rightarrow> oparent ob)"

definition frame :: "'x heap \<Rightarrow> addr \<Rightarrow> 'x object option" where
  "frame h a = map_option (\<lambda>ob. ob\<lparr>oparent := None, klass := with_children [] (klass ob)\<rparr>) (h a)"

definition relinked ::
  "'x heap \<Rightarrow> 'x heap \<Rightarrow> (addr \<Rightarrow> addr option) \<Rightarrow> (addr \<Rightarrow> addr list option) \<Rightarrow> bool" where
  "relinked h h' par ch \<longleftrightarrow> parent_of h' = par \<and> children_of h' = ch \<and> frame h' = frame h"

lemma frame_None: "h a = None \<longleftrightarrow> frame h a = None"
  by (simp add: frame_def)

lemma frame_dom: "frame h' = frame h \<Longrightarrow> dom h' = dom h"
  unfolding dom_def frame_None [of h'] frame_None [of h] by simp

lemma relinkedD:
  assumes "relinked h h' par ch"
  shows "parent_of h' = par" "children_of h' = ch" "frame h' = frame h" "dom h' = dom h"
  using assms frame_dom [of h' h] by (simp_all add: relinked_def)

lemma relinked_trans:
  "relinked h h1 par ch \<Longrightarrow> relinked h1 h2 par' ch' \<Longrightarrow> relinked h h2 par' ch'"
  by (simp add: relinked_def)

lemma klass_children_with [simp]:
  "klass_children k = Some cs \<Longrightarrow> klass_children (with_children cs' k) = Some cs'"
  by (cases k) auto

lemma with_children_twice [simp]: "with_children cs (with_children cs' k) = with_children cs k"
  by (cases k) auto

lemma klass_children_with_None [simp]:
  "klass_children (with_children cs k) = None \<longleftrightarrow> klass_children k = None"
  by (cases k) auto

lemma children_of_dom: "children_of h p = Some cs \<Longrightarrow> p \<in> dom h"
  by (auto simp: children_of_def split: option.splits)

lemma parent_of_dom: "parent_of h a = Some p \<Longrightarrow> a \<in> dom h"
  by (auto simp: parent_of_def split: option.splits)

lemma set_parent_ok:
  assumes "c \<in> dom h"
  shows "\<exists>h'. set_parent c q h = Inr h' \<and> relinked h h' ((parent_of h)(c := q)) (children_of h)"
proof -
  from assms obtain ob where ob: "h c = Some ob" by blast
  then have "relinked h (h(c \<mapsto> ob\<lparr>oparent := q\<rparr>)) ((parent_of h)(c := q)) (children_of h)"
    by (simp add: relinked_def parent_of_def children_of_def frame_def fun_eq_iff)
  with ob show ?thesis by (simp add: set_parent_def modify_def)
qed

lemma set_children_ok:
  assumes "children_of h p = Some cs0"
  shows "\<exists>h'. set_children p cs h = Inr h' \<and> relinked h h' (parent_of h) ((children_of h)(p \<mapsto> cs))"
proof -
  from assms obtain ob where ob: "h p = Some ob" and k: "klass_children (klass ob) = Some cs0"
    by (auto simp: children_of_def split: option.splits)
  then have "relinked h (h(p \<mapsto> ob\<lparr>klass := with_children cs (klass ob)\<rparr>)) (parent_of h)
      ((children_of h)(p \<mapsto> cs))"
    by (simp add: relinked_def parent_of_def children_of_def frame_def fun_eq_iff)
  with ob show ?thesis by (simp add: set_children_def modify_def)
qed

lemma deref_ok: "a \<in> dom h \<Longrightarrow> \<exists>ob. deref h a = Inr ob \<and> h a = Some ob \<and> oparent ob = parent_of h a"
  by (auto simp: deref_def parent_of_def)

subsection \<open>The tree invariant\<close>

text \<open>
  Parent pointers and lists of children agree, no child is listed twice, and following parent
  pointers ends at a root.
\<close>

inductive rooted :: "(addr \<Rightarrow> addr option) \<Rightarrow> addr \<Rightarrow> bool" for par where
  root: "par a = None \<Longrightarrow> rooted par a"
| up: "par a = Some p \<Longrightarrow> rooted par p \<Longrightarrow> rooted par a"

inductive ancestor :: "(addr \<Rightarrow> addr option) \<Rightarrow> addr \<Rightarrow> addr \<Rightarrow> bool" for par and a where
  self: "ancestor par a a"
| parent: "par b = Some p \<Longrightarrow> ancestor par a p \<Longrightarrow> ancestor par a b"

definition tree_ok :: "'x heap \<Rightarrow> bool" where
  "tree_ok h \<longleftrightarrow>
     (\<forall>p cs. children_of h p = Some cs \<longrightarrow> distinct cs \<and> (\<forall>c. c \<in> set cs \<longleftrightarrow> parent_of h c = Some p)) \<and>
     (\<forall>a p. parent_of h a = Some p \<longrightarrow> is_node h p) \<and>
     (\<forall>a \<in> dom h. rooted (parent_of h) a)"

lemma tree_ok_cong:
  "parent_of h' = parent_of h \<Longrightarrow> children_of h' = children_of h \<Longrightarrow> dom h' = dom h \<Longrightarrow>
   tree_ok h' = tree_ok h"
  by (simp add: tree_ok_def is_node_def)

lemma tree_okI:
  assumes "\<And>p cs. children_of h p = Some cs \<Longrightarrow> distinct cs"
    and "\<And>p cs c. children_of h p = Some cs \<Longrightarrow> c \<in> set cs \<longleftrightarrow> parent_of h c = Some p"
    and "\<And>a p. parent_of h a = Some p \<Longrightarrow> \<exists>cs. children_of h p = Some cs"
    and "\<And>a. a \<in> dom h \<Longrightarrow> rooted (parent_of h) a"
  shows "tree_ok h"
  using assms by (auto simp: tree_ok_def is_node_def)

lemma tree_okD:
  assumes "tree_ok h"
  shows "children_of h p = Some cs \<Longrightarrow> distinct cs"
    and "children_of h p = Some cs \<Longrightarrow> c \<in> set cs \<longleftrightarrow> parent_of h c = Some p"
    and "parent_of h a = Some p \<Longrightarrow> \<exists>cs. children_of h p = Some cs \<and> a \<in> set cs"
    and "a \<in> dom h \<Longrightarrow> rooted (parent_of h) a"
  using assms by (fastforce simp: tree_ok_def is_node_def)+

lemma rooted_cut_set: "rooted par a \<Longrightarrow> rooted (\<lambda>x. if x \<in> C then None else par x) a"
proof (induction rule: rooted.induct)
  case (root a)
  then show ?case by (simp add: rooted.root)
next
  case (up a p)
  then show ?case
    by (cases "a \<in> C") (auto intro: rooted.root rooted.up)
qed

lemma rooted_cut: "rooted par a \<Longrightarrow> rooted (par(c := None)) a"
  using rooted_cut_set [of par a "{c}"] by (simp add: fun_upd_def)

lemma rooted_irrefl: "rooted par a \<Longrightarrow> par a \<noteq> Some a"
  by (induction rule: rooted.induct) auto

lemma rooted_hang_below:
  "rooted par a \<Longrightarrow> \<not> ancestor par c a \<Longrightarrow> rooted (par(c := q)) a"
proof (induction rule: rooted.induct)
  case (root a)
  then have "a \<noteq> c" by (auto intro: ancestor.self)
  with root show ?case by (auto intro: rooted.root)
next
  case (up a p)
  then have "a \<noteq> c" and "\<not> ancestor par c p" by (auto intro: ancestor.intros)
  with up show ?case by (auto intro: rooted.up)
qed

lemma rooted_hang:
  assumes "rooted par a" and "rooted par p" and "\<not> ancestor par c p"
  shows "rooted (par(c \<mapsto> p)) a"
proof -
  have p: "rooted (par(c \<mapsto> p)) p"
    using assms(2,3) by (rule rooted_hang_below)
  have c: "rooted (par(c \<mapsto> p)) c"
    by (rule rooted.up [OF _ p]) simp
  from assms(1) show ?thesis
  proof (induction rule: rooted.induct)
    case (root a)
    show ?case
    proof (cases "a = c")
      case True
      show ?thesis unfolding True by (rule c)
    qed (simp add: rooted.root root)
  next
    case (up a q)
    show ?case
    proof (cases "a = c")
      case True
      show ?thesis unfolding True by (rule c)
    qed (rule rooted.up [OF _ up.IH], simp add: up.hyps)
  qed
qed

subsection \<open>The operations keep the invariant\<close>

lemma remove_child_raw:
  assumes p: "children_of h p = Some cs" and dom: "c \<in> set cs \<Longrightarrow> c \<in> dom h"
  shows "\<exists>h'. remove_child p c h = Inr h' \<and>
    relinked h h' (if c \<in> set cs then (parent_of h)(c := None) else parent_of h)
      ((children_of h)(p \<mapsto> filter (\<lambda>x. x \<noteq> c) cs))"
proof (cases "c \<in> set cs")
  case True
  from set_parent_ok [OF dom [OF True]] obtain h1 where h1: "set_parent c None h = Inr h1"
    and r1: "relinked h h1 ((parent_of h)(c := None)) (children_of h)" by blast
  from p r1 have "children_of h1 p = Some cs" by (simp add: relinked_def)
  from set_children_ok [OF this] obtain h2
    where "set_children p (filter (\<lambda>x. x \<noteq> c) cs) h1 = Inr h2"
      and "relinked h1 h2 (parent_of h1) ((children_of h1)(p \<mapsto> filter (\<lambda>x. x \<noteq> c) cs))" by blast
  with True p h1 r1 show ?thesis by (auto simp: remove_child_def relinked_def)
next
  case False
  from set_children_ok [OF p, of "filter (\<lambda>x. x \<noteq> c) cs"] False p show ?thesis
    by (auto simp: remove_child_def)
qed

lemma tree_ok_cut:
  assumes ok: "tree_ok h" and p: "parent_of h c = Some p" and cs: "children_of h p = Some cs"
    and r: "relinked h h' ((parent_of h)(c := None)) ((children_of h)(p \<mapsto> filter (\<lambda>x. x \<noteq> c) cs))"
  shows "tree_ok h'"
proof (rule tree_okI)
  fix q qs assume "children_of h' q = Some qs"
  then show "distinct qs" using tree_okD(1) [OF ok] cs r
    by (auto simp: relinkedD [OF r] split: if_splits)
  fix x show "x \<in> set qs \<longleftrightarrow> parent_of h' x = Some q"
    using \<open>children_of h' q = Some qs\<close> tree_okD(2) [OF ok] cs p
    by (auto simp: relinkedD [OF r] split: if_splits)
next
  fix a q assume "parent_of h' a = Some q"
  then show "\<exists>cs. children_of h' q = Some cs" using tree_okD(3) [OF ok] cs
    by (fastforce simp: relinkedD [OF r] split: if_splits)
next
  fix a assume "a \<in> dom h'"
  then show "rooted (parent_of h') a" using tree_okD(4) [OF ok]
    by (simp add: relinkedD [OF r] rooted_cut)
qed

lemma remove_child_tree_ok:
  assumes ok: "tree_ok h" and p: "children_of h p = Some cs"
  shows "\<exists>h'. remove_child p c h = Inr h' \<and> tree_ok h' \<and>
    relinked h h' (if parent_of h c = Some p then (parent_of h)(c := None) else parent_of h)
      ((children_of h)(p \<mapsto> filter (\<lambda>x. x \<noteq> c) cs))"
proof -
  have iff: "c \<in> set cs \<longleftrightarrow> parent_of h c = Some p"
    by (rule tree_okD(2) [OF ok p])
  from remove_child_raw [OF p, of c] obtain h' where h': "remove_child p c h = Inr h'"
    and r: "relinked h h' (if parent_of h c = Some p then (parent_of h)(c := None) else parent_of h)
      ((children_of h)(p \<mapsto> filter (\<lambda>x. x \<noteq> c) cs))"
    unfolding iff using parent_of_dom by blast
  have "tree_ok h'"
  proof (cases "parent_of h c = Some p")
    case True
    with r show ?thesis using tree_ok_cut [OF ok True p] by simp
  next
    case False
    with iff have "filter (\<lambda>x. x \<noteq> c) cs = cs" by simp
    with r False p have "relinked h h' (parent_of h) (children_of h)"
      by (simp add: fun_upd_idem)
    with ok show ?thesis
      using tree_ok_cong [of h' h] relinkedD [of h h'] by simp
  qed
  with h' r show ?thesis by blast
qed

lemma tree_ok_hang:
  assumes ok: "tree_ok h" and root: "parent_of h c = None" and c: "c \<in> dom h"
    and p: "children_of h p = Some cs" and na: "\<not> ancestor (parent_of h) c p"
    and r: "relinked h h' ((parent_of h)(c \<mapsto> p)) ((children_of h)(p \<mapsto> cs @ [c]))"
  shows "tree_ok h'"
proof (rule tree_okI)
  fix q qs assume q: "children_of h' q = Some qs"
  have "c \<notin> set cs" using tree_okD(2) [OF ok p] root by simp
  then show "distinct qs" using tree_okD(1) [OF ok] p q
    by (auto simp: relinkedD [OF r] split: if_splits)
  fix x show "x \<in> set qs \<longleftrightarrow> parent_of h' x = Some q"
    using q tree_okD(2) [OF ok] p root
    by (auto simp: relinkedD [OF r] split: if_splits)
next
  fix a q assume "parent_of h' a = Some q"
  then show "\<exists>cs. children_of h' q = Some cs" using tree_okD(3) [OF ok] p
    by (fastforce simp: relinkedD [OF r] split: if_splits)
next
  fix a assume "a \<in> dom h'"
  then show "rooted (parent_of h') a"
    using tree_okD(4) [OF ok] children_of_dom [OF p] na
    by (simp add: relinkedD [OF r] rooted_hang)
qed

lemma ancestor_childless: "ancestor par a b \<Longrightarrow> (\<And>c. par c \<noteq> Some a) \<Longrightarrow> b = a"
  by (induction rule: ancestor.induct) auto

lemma ancestor_cut: "ancestor (par(c := None)) a b \<Longrightarrow> ancestor par a b"
  by (induction rule: ancestor.induct) (auto intro: ancestor.intros split: if_splits)

lemma hang_last:
  assumes ok: "tree_ok h" and root: "parent_of h c = None" and c: "c \<in> dom h"
    and p: "children_of h p = Some cs" and na: "\<not> ancestor (parent_of h) c p"
  shows "\<exists>h'. and_then (set_children p (cs @ [c]) h) (set_parent c (Some p)) = Inr h' \<and> tree_ok h' \<and>
    relinked h h' ((parent_of h)(c \<mapsto> p)) ((children_of h)(p \<mapsto> cs @ [c]))"
proof -
  from set_children_ok [OF p] obtain h1 where h1: "set_children p (cs @ [c]) h = Inr h1"
    and r1: "relinked h h1 (parent_of h) ((children_of h)(p \<mapsto> cs @ [c]))" by blast
  from c have "c \<in> dom h1" by (simp add: relinkedD [OF r1])
  from set_parent_ok [OF this] obtain h2 where h2: "set_parent c (Some p) h1 = Inr h2"
    and r2: "relinked h1 h2 ((parent_of h1)(c \<mapsto> p)) (children_of h1)" by blast
  from relinked_trans [OF r1 r2]
  have "relinked h h2 ((parent_of h)(c \<mapsto> p)) ((children_of h)(p \<mapsto> cs @ [c]))"
    by (simp add: relinkedD [OF r1])
  with h1 h2 show ?thesis using tree_ok_hang [OF assms] by auto
qed

text \<open>The lists of children once \<open>c\<close> has left its parent.\<close>

definition children_without :: "'x heap \<Rightarrow> addr \<Rightarrow> addr \<Rightarrow> addr list option" where
  "children_without h c = (\<lambda>q. map_option (filter (\<lambda>x. x \<noteq> c)) (children_of h q))"

lemma children_without_cut:
  assumes "tree_ok h" and "parent_of h c = Some p" and "children_of h p = Some cs"
  shows "(children_of h)(p \<mapsto> filter (\<lambda>x. x \<noteq> c) cs) = children_without h c"
proof
  fix q
  show "((children_of h)(p \<mapsto> filter (\<lambda>x. x \<noteq> c) cs)) q = children_without h c q"
    using assms tree_okD(2) [OF assms(1), of q _ c]
    by (cases "children_of h q") (auto simp: children_without_def)
qed

lemma children_without_root:
  assumes "tree_ok h" and "parent_of h c = None"
  shows "children_without h c = children_of h"
proof
  fix q
  show "children_without h c q = children_of h q"
    using assms tree_okD(2) [OF assms(1), of q _ c]
    by (cases "children_of h q") (auto simp: children_without_def)
qed

lemma leave_parent_ok:
  assumes ok: "tree_ok h" and c: "c \<in> dom h"
  shows "\<exists>h'. leave_parent c h = Inr h' \<and> tree_ok h' \<and>
    relinked h h' ((parent_of h)(c := None)) (children_without h c)"
proof -
  from deref_ok [OF c] obtain ob where ob: "deref h c = Inr ob" "oparent ob = parent_of h c" by blast
  show ?thesis
  proof (cases "parent_of h c")
    case None
    with ob ok show ?thesis
      by (auto simp: leave_parent_def relinked_def children_without_root fun_upd_idem)
  next
    case (Some p)
    from tree_okD(3) [OF ok Some] obtain cs where "children_of h p = Some cs" by blast
    with remove_child_tree_ok [OF ok this, of c] Some ob show ?thesis
      by (auto simp: leave_parent_def children_without_cut [OF ok Some])
  qed
qed


lemma add_child_leave:
  "add_child p c h = and_then (leave_parent c h) (\<lambda>h1.
     case children_of h1 p of
       None \<Rightarrow> Inl Undefined
     | Some cs \<Rightarrow> and_then (set_children p (cs @ [c]) h1) (set_parent c (Some p)))"
  by (simp add: add_child_def leave_parent_def and_then_assoc)

lemma children_without_Some:
  "children_of h p = Some cs \<Longrightarrow> children_without h c p = Some (filter (\<lambda>x. x \<noteq> c) cs)"
  by (simp add: children_without_def)

lemma add_child_tree_ok:
  assumes ok: "tree_ok h" and c: "c \<in> dom h" and p: "children_of h p = Some cs"
    and na: "\<not> ancestor (parent_of h) c p"
  shows "\<exists>h'. add_child p c h = Inr h' \<and> tree_ok h' \<and>
    relinked h h' ((parent_of h)(c \<mapsto> p))
      ((children_without h c)(p \<mapsto> filter (\<lambda>x. x \<noteq> c) cs @ [c]))"
proof -
  from leave_parent_ok [OF ok c] obtain h1 where h1: "leave_parent c h = Inr h1"
    and ok1: "tree_ok h1"
    and r1: "relinked h h1 ((parent_of h)(c := None)) (children_without h c)" by blast
  have "children_of h1 p = Some (filter (\<lambda>x. x \<noteq> c) cs)"
    using p by (simp add: relinkedD [OF r1] children_without_Some)
  moreover have "parent_of h1 c = None" "c \<in> dom h1" "\<not> ancestor (parent_of h1) c p"
    using c na by (auto simp: relinkedD [OF r1] dest: ancestor_cut)
  ultimately obtain h2 where
    "and_then (set_children p (filter (\<lambda>x. x \<noteq> c) cs @ [c]) h1) (set_parent c (Some p)) = Inr h2"
    "tree_ok h2" and r2: "relinked h1 h2 ((parent_of h1)(c \<mapsto> p))
       ((children_of h1)(p \<mapsto> filter (\<lambda>x. x \<noteq> c) cs @ [c]))"
    using hang_last [OF ok1] by blast
  with h1 \<open>children_of h1 p = _\<close> relinked_trans [OF r1 r2] show ?thesis
    by (auto simp: add_child_leave relinkedD [OF r1])
qed

lemma reset_parent_tree_ok:
  assumes ok: "tree_ok h" and c: "c \<in> dom h" and p: "children_of h p = Some cs"
    and na: "\<not> ancestor (parent_of h) c p"
  shows "\<exists>h'. reset_parent c (Some p) h = Inr h' \<and> tree_ok h' \<and>
    relinked h h' ((parent_of h)(c \<mapsto> p))
      ((children_without h c)(p \<mapsto> filter (\<lambda>x. x \<noteq> c) cs @ [c]))"
proof -
  from leave_parent_ok [OF ok c] obtain h1 where h1: "leave_parent c h = Inr h1"
    and ok1: "tree_ok h1"
    and r1: "relinked h h1 ((parent_of h)(c := None)) (children_without h c)" by blast
  have p1: "children_of h1 p = Some (filter (\<lambda>x. x \<noteq> c) cs)"
    using p by (simp add: relinkedD [OF r1] children_without_Some)
  have par1: "parent_of h1 c = None" and c1: "c \<in> dom h1" and na1: "\<not> ancestor (parent_of h1) c p"
    using c na by (auto simp: relinkedD [OF r1] dest: ancestor_cut)
  from add_child_tree_ok [OF ok1 c1 p1 na1] obtain h2 where h2: "add_child p c h1 = Inr h2" "tree_ok h2"
    and r2: "relinked h1 h2 ((parent_of h1)(c \<mapsto> p))
       ((children_without h1 c)(p \<mapsto> filter (\<lambda>x. x \<noteq> c) (filter (\<lambda>x. x \<noteq> c) cs) @ [c]))" by blast
  have "relinked h h2 ((parent_of h)(c \<mapsto> p))
      ((children_without h c)(p \<mapsto> filter (\<lambda>x. x \<noteq> c) cs @ [c]))"
    using relinked_trans [OF r1 r2] children_without_root [OF ok1 par1]
    by (simp add: relinkedD [OF r1])
  with h1 h2 show ?thesis by (simp add: reset_parent_def)
qed

lemma new_object_tree_ok:
  assumes ok: "tree_ok h" and fresh: "h a = None" and lv: "rl \<noteq> Readonly" "wl \<noteq> Readonly"
    and k: "klass_children k = None \<or> klass_children k = Some []"
    and par: "\<And>p. parent = Some p \<Longrightarrow> \<exists>cs. children_of h p = Some cs"
  shows "\<exists>h'. new_object a nm parent rl wl k h = Inr h' \<and> tree_ok h' \<and>
    dom h' = insert a (dom h) \<and> parent_of h' = (parent_of h)(a := parent) \<and>
    (\<forall>x. x \<noteq> a \<longrightarrow> frame h' x = frame h x)"
proof -
  let ?ob = "\<lambda>p. \<lparr>oname = nm, oparent = p, oreadlevel = rl, owritelevel = wl, klass = k\<rparr>"
  let ?h0 = "h(a \<mapsto> ?ob None)"
  have par0: "parent_of ?h0 = parent_of h" and ch0: "children_of ?h0 = (children_of h)(a := klass_children k)"
    using fresh by (auto simp: parent_of_def children_of_def fun_eq_iff)
  have no_par: "parent_of h c \<noteq> Some a" for c
    using tree_okD(3) [OF ok] children_of_dom fresh by fastforce
  have ok0: "tree_ok ?h0"
  proof (rule tree_okI)
    fix q qs assume q: "children_of ?h0 q = Some qs"
    show "distinct qs" using q k tree_okD(1) [OF ok] unfolding ch0 by (auto split: if_splits)
    fix x show "x \<in> set qs \<longleftrightarrow> parent_of ?h0 x = Some q"
      using q k tree_okD(2) [OF ok] no_par unfolding ch0 par0 by (auto split: if_splits)
  next
    fix x q assume x: "parent_of ?h0 x = Some q"
    then show "\<exists>cs. children_of ?h0 q = Some cs"
      using tree_okD(3) [OF ok] no_par unfolding ch0 par0 by fastforce
  next
    fix x assume "x \<in> dom ?h0"
    then show "rooted (parent_of ?h0) x"
      using tree_okD(4) [OF ok] fresh unfolding par0
      by (cases "x = a") (auto intro: rooted.root simp: parent_of_def)
  qed
  show ?thesis
  proof (cases parent)
    case None
    have "new_object a nm parent rl wl k h = Inr ?h0"
      using lv None by (simp add: new_object_def)
    moreover have "parent_of ?h0 = (parent_of h)(a := parent)"
      unfolding par0 None using fresh by (auto simp: parent_of_def fun_eq_iff)
    moreover have "\<forall>x. x \<noteq> a \<longrightarrow> frame ?h0 x = frame h x" by (simp add: frame_def)
    ultimately show ?thesis using ok0 by auto
  next
    case (Some p)
    from par [OF Some] obtain cs where cs: "children_of h p = Some cs" by blast
    then have pa: "p \<noteq> a" using children_of_dom fresh by fastforce
    let ?h1 = "h(a \<mapsto> ?ob (Some p))"
    from cs obtain pob where pob: "h p = Some pob" "klass_children (klass pob) = Some cs"
      by (auto simp: children_of_def split: option.splits)
    have acs: "a \<notin> set cs" using tree_okD(2) [OF ok cs] fresh by (auto simp: parent_of_def)
    have "with_children cs (klass pob) = klass pob" using pob(2) by (cases "klass pob") auto
    then have "remove_child p a ?h1 = Inr ?h1"
      using pa acs pob
      by (simp add: remove_child_def children_of_def set_children_def modify_def fun_upd_idem)
    then have "new_object a nm parent rl wl k h
        = and_then (set_children p (cs @ [a]) ?h1) (set_parent a (Some p))"
      using lv Some pa pob by (simp add: new_object_def add_child_def deref_def children_of_def)
    also have "\<dots> = and_then (set_children p (cs @ [a]) ?h0) (set_parent a (Some p))"
      using pa pob by (simp add: set_children_def set_parent_def modify_def fun_upd_twist)
    finally have new: "new_object a nm parent rl wl k h = \<dots>" .
    have "\<not> ancestor (parent_of ?h0) a p"
      unfolding par0 using pa no_par by (blast dest: ancestor_childless)
    moreover have "parent_of ?h0 a = None" "a \<in> dom ?h0" "children_of ?h0 p = Some cs"
      using cs pa by (simp_all add: parent_of_def children_of_def)
    ultimately obtain h2 where h2: "new_object a nm parent rl wl k h = Inr h2" "tree_ok h2"
      and r: "relinked ?h0 h2 ((parent_of ?h0)(a \<mapsto> p)) ((children_of ?h0)(p \<mapsto> cs @ [a]))"
      using hang_last [OF ok0, of a p cs] unfolding new by blast
    have "dom h2 = insert a (dom h)" using relinkedD(4) [OF r] by simp
    moreover have "\<forall>x. x \<noteq> a \<longrightarrow> frame h2 x = frame h x"
      using relinkedD(3) [OF r] by (simp add: frame_def)
    moreover have "parent_of h2 = (parent_of h)(a := parent)"
      using relinkedD(1) [OF r] unfolding par0 Some .
    ultimately show ?thesis using h2 by blast
  qed
qed

lemma orphan_all_ok:
  "set cs \<subseteq> dom h \<Longrightarrow> \<exists>h'. orphan_all cs h = Inr h' \<and>
    relinked h h' (\<lambda>x. if x \<in> set cs then None else parent_of h x) (children_of h)"
proof (induction cs arbitrary: h)
  case Nil
  then show ?case by (simp add: relinked_def)
next
  case (Cons c cs)
  then have "c \<in> dom h" by simp
  from set_parent_ok [OF this] obtain h1 where h1: "set_parent c None h = Inr h1"
    and r1: "relinked h h1 ((parent_of h)(c := None)) (children_of h)" by blast
  from Cons.prems have "set cs \<subseteq> dom h1" by (simp add: relinkedD [OF r1])
  from Cons.IH [OF this] obtain h2 where h2: "orphan_all cs h1 = Inr h2"
    and r2: "relinked h1 h2 (\<lambda>x. if x \<in> set cs then None else parent_of h1 x) (children_of h1)" by blast
  have "relinked h h2 (\<lambda>x. if x \<in> set (c # cs) then None else parent_of h x) (children_of h)"
    using relinked_trans [OF r1 r2] by (simp add: relinkedD [OF r1] relinked_def fun_eq_iff)
  with h1 h2 show ?case by simp
qed

text \<open>Deleting an object orphans its children and takes it out of its parent's list.\<close>

lemma delete_object_tree_ok:
  assumes ok: "tree_ok h" and a: "a \<in> dom h"
  shows "\<exists>h'. delete_object a h = Inr h' \<and> tree_ok h' \<and> dom h' = dom h - {a} \<and>
    parent_of h' = (\<lambda>x. if x = a \<or> parent_of h x = Some a then None else parent_of h x) \<and>
    (\<forall>x. x \<noteq> a \<longrightarrow> frame h' x = frame h x)"
proof -
  from a obtain ob where ob: "h a = Some ob" by blast
  define cs where "cs = (case klass_children (klass ob) of None \<Rightarrow> [] | Some cs \<Rightarrow> cs)"
  have cs_iff: "x \<in> set cs \<longleftrightarrow> parent_of h x = Some a" for x
  proof (cases "klass_children (klass ob)")
    case None
    then have "parent_of h x \<noteq> Some a"
      using tree_okD(3) [OF ok, of x a] ob by (auto simp: children_of_def)
    with None show ?thesis by (simp add: cs_def)
  next
    case (Some ks)
    then have "children_of h a = Some ks" using ob by (simp add: children_of_def)
    with Some show ?thesis using tree_okD(2) [OF ok] by (simp add: cs_def)
  qed
  have "set cs \<subseteq> dom h" using cs_iff parent_of_dom by blast
  from orphan_all_ok [OF this] obtain h1 where h1: "orphan_all cs h = Inr h1"
    and r1: "relinked h h1 (\<lambda>x. if x \<in> set cs then None else parent_of h x) (children_of h)" by blast
  have ncs: "a \<notin> set cs" using rooted_irrefl tree_okD(4) [OF ok a] cs_iff by blast
  then have pa1: "parent_of h1 a = parent_of h a" by (simp add: relinkedD [OF r1])
  let ?par = "\<lambda>x. if x = a \<or> parent_of h x = Some a then None else parent_of h x"
  have "\<exists>h2. leave_parent a h1 = Inr h2 \<and> relinked h1 h2 ?par (children_without h a)"
  proof (cases "parent_of h a")
    case None
    from a have "a \<in> dom h1" by (simp add: relinkedD [OF r1])
    from deref_ok [OF this] None pa1 have "leave_parent a h1 = Inr h1"
      by (auto simp: leave_parent_def)
    moreover have "relinked h1 h1 ?par (children_without h a)"
      using None cs_iff by (auto simp: relinked_def relinkedD [OF r1] children_without_root [OF ok] fun_eq_iff)
    ultimately show ?thesis by blast
  next
    case (Some p)
    from tree_okD(3) [OF ok Some] obtain ps where ps: "children_of h p = Some ps" "a \<in> set ps" by blast
    from a have a1: "a \<in> dom h1" by (simp add: relinkedD [OF r1])
    from ps have "children_of h1 p = Some ps" by (simp add: relinkedD [OF r1])
    from remove_child_raw [OF this a1] ps obtain h2 where h2: "remove_child p a h1 = Inr h2"
      and r2: "relinked h1 h2 ((parent_of h1)(a := None)) ((children_of h1)(p \<mapsto> filter (\<lambda>x. x \<noteq> a) ps))"
      by auto
    from deref_ok [OF a1] Some pa1 h2 have "leave_parent a h1 = Inr h2"
      by (auto simp: leave_parent_def)
    moreover have "(parent_of h1)(a := None) = ?par"
      using cs_iff by (auto simp: relinkedD [OF r1] fun_eq_iff)
    moreover have "(children_of h1)(p \<mapsto> filter (\<lambda>x. x \<noteq> a) ps) = children_without h a"
      using children_without_cut [OF ok Some ps(1)] by (simp add: relinkedD [OF r1])
    ultimately show ?thesis using r2 by auto
  qed
  then obtain h2 where h2: "leave_parent a h1 = Inr h2"
    and r2: "relinked h1 h2 ?par (children_without h a)" by blast
  let ?h3 = "h2(a := None)"
  have del: "delete_object a h = Inr ?h3"
    using ob h1 h2 by (auto simp: delete_object_def deref_def cs_def split: option.splits)
  have dom3: "dom ?h3 = dom h - {a}"
    using relinkedD(4) [OF r1] relinkedD(4) [OF r2] by simp
  have frame3: "frame ?h3 x = frame h x" if "x \<noteq> a" for x
    using relinkedD(3) [OF r1] relinkedD(3) [OF r2] that by (simp add: frame_def fun_eq_iff)
  have par3: "parent_of ?h3 = ?par"
  proof
    fix x
    have "parent_of ?h3 x = (if x = a then None else parent_of h2 x)" by (simp add: parent_of_def)
    then show "parent_of ?h3 x = ?par x" by (simp add: relinkedD [OF r2])
  qed
  have ch3: "children_of ?h3 = (children_without h a)(a := None)"
    using relinkedD(2) [OF r2] by (auto simp: children_of_def fun_eq_iff)
  have "tree_ok ?h3"
  proof (rule tree_okI)
    fix q qs assume q: "children_of ?h3 q = Some qs"
    then obtain qs0 where qs0: "children_of h q = Some qs0" "qs = filter (\<lambda>x. x \<noteq> a) qs0" "q \<noteq> a"
      unfolding ch3 by (auto simp: children_without_def split: if_splits)
    then show "distinct qs" using tree_okD(1) [OF ok] by auto
    fix x show "x \<in> set qs \<longleftrightarrow> parent_of ?h3 x = Some q"
      using qs0 tree_okD(2) [OF ok qs0(1)] unfolding par3 by auto
  next
    fix x q assume x: "parent_of ?h3 x = Some q"
    then have "q \<noteq> a" "parent_of h x = Some q" unfolding par3 by (auto split: if_splits)
    with tree_okD(3) [OF ok] show "\<exists>cs. children_of ?h3 q = Some cs"
      unfolding ch3 by (fastforce simp: children_without_def)
  next
    fix x assume "x \<in> dom ?h3"
    with dom3 have "x \<in> dom h" by (simp only: Diff_iff)
    then have "rooted (parent_of h) x" by (rule tree_okD(4) [OF ok])
    from rooted_cut_set [OF this, of "{x. x = a \<or> parent_of h x = Some a}"]
    show "rooted (parent_of ?h3) x" unfolding par3 by simp
  qed
  with del dom3 par3 frame3 show ?thesis by blast
qed

subsection \<open>Total behaviour of the walks to the root\<close>

lemma parent_of_Some: "h a = Some ob \<Longrightarrow> parent_of h a = oparent ob"
  by (simp add: parent_of_def)

lemma parent_in_dom: "tree_ok h \<Longrightarrow> parent_of h a = Some p \<Longrightarrow> p \<in> dom h"
  using tree_okD(3) children_of_dom by blast

lemma rooted_induct_dom [consumes 2, case_names root up]:
  assumes ok: "tree_ok h" and a: "a \<in> dom h"
    and "\<And>a ob. h a = Some ob \<Longrightarrow> oparent ob = None \<Longrightarrow> P a"
    and "\<And>a ob p. h a = Some ob \<Longrightarrow> oparent ob = Some p \<Longrightarrow> p \<in> dom h \<Longrightarrow> P p \<Longrightarrow> P a"
  shows "P a"
  using tree_okD(4) [OF ok a] a
proof (induction rule: rooted.induct)
  case (root a)
  then show ?case using assms(3) by (auto simp: parent_of_Some)
next
  case (up a p)
  then have p: "p \<in> dom h" using parent_in_dom [OF ok] by blast
  from up.prems obtain ob where ob: "h a = Some ob" by blast
  with up.hyps have "oparent ob = Some p" by (simp add: parent_of_Some)
  from ob this p up.IH [OF p] show ?case by (rule assms(4))
qed

lemma fq_name_root [heap_simps]:
  "h a = Some ob \<Longrightarrow> oparent ob = None \<Longrightarrow> fq_name h a = Some (oname ob)"
  by (simp add: fq_name.simps)

lemma fq_name_up [heap_simps]:
  "h a = Some ob \<Longrightarrow> oparent ob = Some p \<Longrightarrow>
   fq_name h a = Option.bind (fq_name h p) (\<lambda>s. Some (s @ '':'' @ oname ob))"
  by (subst fq_name.simps) simp

lemma root_of_root [heap_simps]: "h a = Some ob \<Longrightarrow> oparent ob = None \<Longrightarrow> root_of h a = Some a"
  by (simp add: root_of.simps)

lemma root_of_up [heap_simps]: "h a = Some ob \<Longrightarrow> oparent ob = Some p \<Longrightarrow> root_of h a = root_of h p"
  by (subst root_of.simps) simp

lemma fq_name_total: "tree_ok h \<Longrightarrow> a \<in> dom h \<Longrightarrow> \<exists>s. fq_name h a = Some s"
  by (induction rule: rooted_induct_dom) (auto simp: heap_simps)

lemma root_of_total:
  "tree_ok h \<Longrightarrow> a \<in> dom h \<Longrightarrow> \<exists>d. root_of h a = Some d \<and> d \<in> dom h \<and> parent_of h d = None"
  by (induction rule: rooted_induct_dom) (auto simp: heap_simps parent_of_Some)

lemma get_object_dictionary_total:
  assumes "tree_ok h" and "a \<in> dom h"
  shows "\<exists>d. get_object_dictionary h a = Inr d"
  using root_of_total [OF assms] by (auto simp: get_object_dictionary_def deref_def)

subsection \<open>Lookup by URI\<close>

text \<open>
  \<open>descends h p ns a\<close>: walking down from \<open>p\<close> along children named \<open>ns\<close> may end at \<open>a\<close>.
\<close>

inductive descends :: "'x heap \<Rightarrow> addr \<Rightarrow> string list \<Rightarrow> addr \<Rightarrow> bool" for h where
  child: "children_of h p = Some cs \<Longrightarrow> c \<in> set cs \<Longrightarrow> h c = Some ob \<Longrightarrow> descends h p [oname ob] c"
| down: "children_of h p = Some cs \<Longrightarrow> c \<in> set cs \<Longrightarrow> h c = Some ob \<Longrightarrow> descends h c ns a \<Longrightarrow>
     descends h p (oname ob # ns) a"

definition uri_tail :: "char \<Rightarrow> string list \<Rightarrow> string" where
  "uri_tail sep ns = concat (map (\<lambda>n. sep # n) ns)"

fun join_uri :: "char \<Rightarrow> string list \<Rightarrow> string" where
  "join_uri sep [] = []"
| "join_uri sep (n # ns) = n @ uri_tail sep ns"

lemma uri_tail_simps [simp]:
  "uri_tail sep [] = []"
  "uri_tail sep (n # ns) = sep # n @ uri_tail sep ns"
  "uri_tail sep (ns @ ms) = uri_tail sep ns @ uri_tail sep ms"
  by (simp_all add: uri_tail_def)

lemma uri_tail_join: "ns \<noteq> [] \<Longrightarrow> uri_tail sep ns = sep # join_uri sep ns"
  by (cases ns) auto

definition names_ok :: "char \<Rightarrow> 'x heap \<Rightarrow> bool" where
  "names_ok sep h \<longleftrightarrow>
     (\<forall>a ob. h a = Some ob \<longrightarrow> oname ob \<noteq> [] \<and> sep \<notin> set (oname ob)) \<and>
     (\<forall>p cs c d obc obd. children_of h p = Some cs \<longrightarrow> c \<in> set cs \<longrightarrow> d \<in> set cs \<longrightarrow>
        h c = Some obc \<longrightarrow> h d = Some obd \<longrightarrow> oname obc = oname obd \<longrightarrow> c = d)"

lemma names_okD:
  assumes "names_ok sep h"
  shows "h a = Some ob \<Longrightarrow> oname ob \<noteq> []" and "h a = Some ob \<Longrightarrow> sep \<notin> set (oname ob)"
    and "children_of h p = Some cs \<Longrightarrow> c \<in> set cs \<Longrightarrow> d \<in> set cs \<Longrightarrow> h c = Some obc \<Longrightarrow>
      h d = Some obd \<Longrightarrow> oname obc = oname obd \<Longrightarrow> c = d"
  using assms unfolding names_ok_def by blast+

lemma descends_snoc:
  "descends h p ns b \<Longrightarrow> children_of h b = Some cs \<Longrightarrow> c \<in> set cs \<Longrightarrow> h c = Some ob \<Longrightarrow>
   descends h p (ns @ [oname ob]) c"
proof (induction rule: descends.induct)
  case (child p cs' b obb)
  from descends.child [OF child.prems] descends.down [OF child.hyps] show ?case by simp
next
  case (down p cs' b obb ns a)
  from descends.down [OF down.hyps(1-3) down.IH [OF down.prems]] show ?case by simp
qed

lemma kids_in_dom: "tree_ok h \<Longrightarrow> children_of h p = Some cs \<Longrightarrow> c \<in> set cs \<Longrightarrow> c \<in> dom h"
  using tree_okD(2) parent_of_dom by blast

text \<open>Every object is reached from its root, and its fully qualified name spells the path.\<close>

lemma fq_name_path:
  assumes ok: "tree_ok h" and a: "a \<in> dom h"
  shows "\<exists>d obd. root_of h a = Some d \<and> h d = Some obd \<and>
     (a = d \<and> fq_name h a = Some (oname obd) \<or>
      (\<exists>ns. descends h d ns a \<and> ns \<noteq> [] \<and> fq_name h a = Some (oname obd @ uri_tail CHR '':'' ns)))"
  using ok a
proof (induction rule: rooted_induct_dom)
  case (root a ob)
  then show ?case by (auto simp: heap_simps)
next
  case (up a ob p)
  from up.hyps have "parent_of h a = Some p" by (simp add: parent_of_Some)
  from tree_okD(3) [OF ok this] obtain cs where cs: "children_of h p = Some cs" "a \<in> set cs" by blast
  from up.IH obtain d obd where d: "root_of h p = Some d" "h d = Some obd" and
    alt: "p = d \<and> fq_name h p = Some (oname obd) \<or>
      (\<exists>ns. descends h d ns p \<and> ns \<noteq> [] \<and> fq_name h p = Some (oname obd @ uri_tail CHR '':'' ns))" by blast
  have "\<exists>ns. descends h d ns a \<and> ns \<noteq> [] \<and> fq_name h a = Some (oname obd @ uri_tail CHR '':'' ns)"
    using alt
  proof
    assume "p = d \<and> fq_name h p = Some (oname obd)"
    then have "fq_name h p = Some (oname obd)" "p = d" by blast+
    with descends.child [OF cs up.hyps(1)] up.hyps show ?thesis
      by (intro exI [of _ "[oname ob]"]) (simp add: heap_simps)
  next
    assume "\<exists>ns. descends h d ns p \<and> ns \<noteq> [] \<and> fq_name h p = Some (oname obd @ uri_tail CHR '':'' ns)"
    then obtain ns where ns: "descends h d ns p" "fq_name h p = Some (oname obd @ uri_tail CHR '':'' ns)" by blast
    from descends_snoc [OF ns(1) cs up.hyps(1)] ns(2) up.hyps show ?thesis
      by (intro exI [of _ "ns @ [oname ob]"]) (simp add: heap_simps)
  qed
  with d up.hyps show ?case by (auto simp: heap_simps)
qed

lemma find_child_in_Some:
  "find_child_in h cs nm = Inr (Some c) \<Longrightarrow> c \<in> set cs \<and> (\<exists>ob. h c = Some ob \<and> oname ob = nm)"
  by (induction cs) (auto split: option.splits if_splits)

lemma find_child_in_unique:
  assumes "set cs \<subseteq> dom h" and "c \<in> set cs" and "h c = Some ob"
    and "\<And>d obd. d \<in> set cs \<Longrightarrow> h d = Some obd \<Longrightarrow> oname obd = oname ob \<Longrightarrow> d = c"
  shows "find_child_in h cs (oname ob) = Inr (Some c)"
  using assms
proof (induction cs)
  case Nil
  then show ?case by simp
next
  case (Cons d cs)
  from Cons.prems(1) obtain obd where d: "h d = Some obd" by auto
  show ?case
  proof (cases "oname obd = oname ob")
    case True
    with Cons.prems(4) d have "d = c" by simp
    with d True show ?thesis by simp
  next
    case False
    with d Cons.prems(3) have "c \<noteq> d" by auto
    with Cons.prems(2) have "c \<in> set cs" by simp
    moreover have "set cs \<subseteq> dom h" using Cons.prems(1) by simp
    moreover have "e = c" if "e \<in> set cs" "h e = Some obe" "oname obe = oname ob" for e obe
      using Cons.prems(4) [of e obe] that by simp
    ultimately have "find_child_in h cs (oname ob) = Inr (Some c)"
      using Cons.IH Cons.prems(3) by blast
    with d False show ?thesis by simp
  qed
qed

lemma find_child_in_total: "set cs \<subseteq> dom h \<Longrightarrow> \<exists>r. find_child_in h cs nm = Inr r"
  by (induction cs) (auto split: option.splits)

lemma find_child_path:
  assumes "tree_ok h" and "names_ok sep h" and "children_of h p = Some cs" and "c \<in> set cs" and "h c = Some ob"
  shows "find_child h p (oname ob) = Inr (Some c)"
proof -
  have "find_child_in h cs (oname ob) = Inr (Some c)"
  proof (rule find_child_in_unique [where c = c])
    show "set cs \<subseteq> dom h" using kids_in_dom [OF assms(1,3)] by blast
    show "c \<in> set cs" "h c = Some ob" by (fact assms)+
    fix d obd assume "d \<in> set cs" "h d = Some obd" "oname obd = oname ob"
    with assms(4,5) show "d = c" by (metis names_okD(3) [OF assms(2,3)])
  qed
  with assms(3) show ?thesis by (simp add: find_child_def)
qed

lemma descends_find:
  "descends h p ns a \<Longrightarrow> tree_ok h \<Longrightarrow> names_ok sep h \<Longrightarrow>
   find_descendant_object h p (join_uri sep ns) sep = Inr (Some a)"
proof (induction rule: descends.induct)
  case (child p cs c ob)
  then have "sep \<notin> set (oname ob)" by (blast dest: names_okD(2))
  with find_child_path [OF child.prems child.hyps] show ?case
    by (simp add: find_descendant_object.simps [of h p])
next
  case (down p cs c ob ns a)
  have "sep \<notin> set (oname ob)" using down.prems down.hyps by (blast dest: names_okD(2))
  moreover have "ns \<noteq> []" using down.hyps(4) by (auto elim: descends.cases)
  moreover have "join_uri sep ns \<noteq> []"
    using down.hyps(4) down.prems names_okD(1) by (fastforce elim: descends.cases)
  moreover have "is_node h c" using down.hyps(4) by (auto simp: is_node_def elim: descends.cases)
  ultimately show ?case
    using down.IH [OF down.prems] find_child_path [OF down.prems down.hyps(1-3)]
    by (simp add: find_descendant_object.simps [of h p] uri_tail_join)
qed

lemma find_descends:
  "find_descendant_object h p uri sep = Inr (Some a) \<Longrightarrow>
   \<exists>ns. descends h p ns a \<and> uri = join_uri sep ns"
proof (induction h p uri sep rule: find_descendant_object.induct)
  case (1 h p uri sep)
  from "1.prems" obtain obj where obj: "find_child h p (takeWhile (\<lambda>c. c \<noteq> sep) uri) = Inr obj"
    by (subst (asm) find_descendant_object.simps) (auto split: sum.splits)
  show ?case
  proof (cases "dropWhile (\<lambda>c. c \<noteq> sep) uri")
    case Nil
    with "1.prems" obj have "obj = Some a" by (subst (asm) find_descendant_object.simps) simp
    with obj obtain cs ob where "children_of h p = Some cs" "a \<in> set cs" "h a = Some ob"
      and nm: "oname ob = takeWhile (\<lambda>c. c \<noteq> sep) uri"
      by (auto simp: find_child_def split: option.splits dest!: find_child_in_Some)
    from descends.child [OF this(1-3)] have "descends h p [oname ob] a" .
    moreover have "uri = join_uri sep [oname ob]"
      unfolding nm using takeWhile_dropWhile_id [of "\<lambda>c. c \<noteq> sep" uri] Nil by (simp only: join_uri.simps uri_tail_simps append_Nil2)
    ultimately show ?thesis by blast
  next
    case (Cons x uri')
    with "1.prems" obj obtain c where c: "obj = Some c" "uri' \<noteq> []" "is_node h c"
      and rec: "find_descendant_object h c uri' sep = Inr (Some a)"
      by (subst (asm) find_descendant_object.simps) (auto split: if_splits option.splits)
    from "1.IH" [OF obj Cons c(2,1,3) rec] obtain ns where ns: "descends h c ns a" "uri' = join_uri sep ns"
      by blast
    from obj c(1) obtain cs ob where "children_of h p = Some cs" "c \<in> set cs" "h c = Some ob"
      and nm: "oname ob = takeWhile (\<lambda>c. c \<noteq> sep) uri"
      by (auto simp: find_child_def split: option.splits dest!: find_child_in_Some)
    from descends.down [OF this(1-3) ns(1)] have "descends h p (oname ob # ns) a" .
    moreover have "uri = join_uri sep (oname ob # ns)"
      using dropWhile_neq_split [OF Cons] nm ns c(2) by (cases ns) auto
    ultimately show ?thesis by blast
  qed
qed

lemma find_descendant_total:
  "tree_ok h \<Longrightarrow> is_node h p \<Longrightarrow> \<exists>r. find_descendant_object h p uri sep = Inr r"
proof (induction h p uri sep rule: find_descendant_object.induct)
  case (1 h p uri sep)
  from "1.prems"(2) obtain cs where cs: "children_of h p = Some cs" by (auto simp: is_node_def)
  with kids_in_dom [OF "1.prems"(1)] have "set cs \<subseteq> dom h" by blast
  from find_child_in_total [OF this] cs
  obtain obj where obj: "find_child h p (takeWhile (\<lambda>c. c \<noteq> sep) uri) = Inr obj"
    by (fastforce simp: find_child_def)
  show ?case
    using "1.IH" [OF obj] "1.prems"(1) obj
    by (subst find_descendant_object.simps) (auto split: list.splits option.splits)
qed

subsection \<open>Trees built by the program\<close>

text \<open>
  The steps by which a server builds and changes its tree. The guards are what the operations
  leave to their caller: storage for a new object is fresh, a new object starts without
  children, a pointer handed over points to a living object, a parent is a node, and an object
  is never hung below itself (\<open>add_child\<close> and \<open>reset_parent\<close> do not check that).
\<close>

inductive tree_step :: "'x heap \<Rightarrow> 'x heap \<Rightarrow> bool" where
  create: "h a = None \<Longrightarrow> klass_children k = None \<or> klass_children k = Some [] \<Longrightarrow>
     (case parent of None \<Rightarrow> True | Some p \<Rightarrow> is_node h p) \<Longrightarrow>
     new_object a nm parent rl wl k h = Inr h' \<Longrightarrow> tree_step h h'"
| add: "c \<in> dom h \<Longrightarrow> is_node h p \<Longrightarrow> \<not> ancestor (parent_of h) c p \<Longrightarrow> add_child p c h = Inr h' \<Longrightarrow>
     tree_step h h'"
| remove: "is_node h p \<Longrightarrow> remove_child p c h = Inr h' \<Longrightarrow> tree_step h h'"
| reset: "c \<in> dom h \<Longrightarrow>
     (case parent of None \<Rightarrow> True | Some p \<Rightarrow> is_node h p \<and> \<not> ancestor (parent_of h) c p) \<Longrightarrow>
     reset_parent c parent h = Inr h' \<Longrightarrow> tree_step h h'"
| delete: "a \<in> dom h \<Longrightarrow> delete_object a h = Inr h' \<Longrightarrow> tree_step h h'"
| rename: "a \<in> dom h \<Longrightarrow> set_name a nm h = Inr h' \<Longrightarrow> tree_step h h'"
| level: "a \<in> dom h \<Longrightarrow> set_readlevel a ul h = Inr h' \<or> set_writelevel a ul h = Inr h' \<Longrightarrow> tree_step h h'"
| guard: "d \<in> dom h \<Longrightarrow> set_current_context d cc h = Inr h' \<Longrightarrow> tree_step h h'"
| tick: "d \<in> dom h \<Longrightarrow> register_for_tick d t h = Inr h' \<or> unregister_for_tick d t h = Inr h' \<Longrightarrow>
     tree_step h h'"

inductive built :: "'x heap \<Rightarrow> bool" where
  empty: "built (\<lambda>_. None)"
| step: "built h \<Longrightarrow> tree_step h h' \<Longrightarrow> built h'"

text \<open>An update of one object that leaves its links alone leaves the tree alone.\<close>

lemma modify_links:
  assumes "modify a f h = Inr h'"
    and "\<And>ob. oparent (f ob) = oparent ob" "\<And>ob. klass_children (klass (f ob)) = klass_children (klass ob)"
  shows "parent_of h' = parent_of h \<and> children_of h' = children_of h \<and> dom h' = dom h"
proof -
  from assms(1) obtain ob where "h a = Some ob" "h' = h(a \<mapsto> f ob)"
    by (auto simp: modify_def split: option.splits)
  moreover have "parent_of (h(a \<mapsto> f ob)) = parent_of h" "children_of (h(a \<mapsto> f ob)) = children_of h"
    using \<open>h a = Some ob\<close> assms(2,3) by (auto simp: parent_of_def children_of_def fun_eq_iff)
  ultimately show ?thesis by auto
qed

lemma klass_children_upd [simp]:
  "klass_children (upd_context cc k) = klass_children k"
  "klass_children (upd_ticks f k) = klass_children k"
  by (cases k; simp)+

lemma modify_tree_ok:
  assumes "tree_ok h" and "modify a f h = Inr h'"
    and "\<And>ob. oparent (f ob) = oparent ob" "\<And>ob. klass_children (klass (f ob)) = klass_children (klass ob)"
  shows "tree_ok h'"
  using modify_links [OF assms(2-4)] assms(1) tree_ok_cong [of h' h] by simp

lemmas field_setters = set_name_def set_readlevel_def set_writelevel_def set_current_context_def
  register_for_tick_def unregister_for_tick_def

lemma tree_step_ok: "tree_step h h' \<Longrightarrow> tree_ok h \<Longrightarrow> tree_ok h'"
proof (induction rule: tree_step.induct)
  case (create h a k parent nm rl wl h')
  have "rl \<noteq> Readonly" "wl \<noteq> Readonly"
    using create.hyps(4) by (auto simp: new_object_def split: if_splits)
  moreover have "parent = Some p \<Longrightarrow> \<exists>cs. children_of h p = Some cs" for p
    using create.hyps(3) by (simp add: is_node_def)
  ultimately show ?case
    using new_object_tree_ok [OF create.prems create.hyps(1) _ _ create.hyps(2), of rl wl parent nm]
      create.hyps(4) by auto
next
  case (add c h p h')
  then show ?case using add_child_tree_ok [OF add.prems] by (fastforce simp: is_node_def)
next
  case (remove h p c h')
  then obtain cs where "children_of h p = Some cs" by (auto simp: is_node_def)
  from remove_child_tree_ok [OF remove.prems this, of c] remove.hyps(2) show ?case by auto
next
  case (reset c h parent h')
  show ?case
  proof (cases parent)
    case None
    with reset.hyps leave_parent_ok [OF reset.prems reset.hyps(1)] show ?thesis
      by (auto simp: reset_parent_def)
  next
    case (Some p)
    with reset show ?thesis using reset_parent_tree_ok [OF reset.prems] by (fastforce simp: is_node_def)
  qed
next
  case (delete a h h')
  then show ?case using delete_object_tree_ok [OF delete.prems delete.hyps(1)] by auto
next
  case (rename a h nm h')
  then show ?case by (auto simp: field_setters elim: modify_tree_ok)
next
  case (level a h ul h')
  then show ?case by (auto simp: field_setters elim: modify_tree_ok)
next
  case (guard d h cc h')
  then show ?case by (auto simp: field_setters elim: modify_tree_ok)
next
  case (tick d h t h')
  then show ?case by (auto simp: field_setters elim: modify_tree_ok)
qed

lemma empty_tree_ok: "tree_ok (\<lambda>_. None)"
  by (rule tree_okI) (auto simp: children_of_def parent_of_def)

lemma built_tree_ok: "built h \<Longrightarrow> tree_ok h"
  by (induction rule: built.induct) (auto intro: empty_tree_ok tree_step_ok)

lemma find_object_unfold:
  assumes "h d = Some obd" and "uri \<noteq> []" and "s = (if hd uri = sep then tl uri else uri)"
  shows "find_object h d uri sep =
     (if oname obd \<noteq> takeWhile (\<lambda>c. c \<noteq> sep) s then Inr None
      else (case dropWhile (\<lambda>c. c \<noteq> sep) s of
              [] \<Rightarrow> Inr (Some d)
            | _ # uri2 \<Rightarrow> find_descendant_object h d uri2 sep))"
  using assms by (simp add: find_object_def deref_def)

lemma find_object_descends:
  assumes find: "find_object h d uri sep = Inr (Some a)" and d: "h d = Some obd"
  shows "\<exists>s. (uri = s \<or> uri = sep # s) \<and>
    (a = d \<and> s = oname obd \<or> (\<exists>ns. descends h d ns a \<and> ns \<noteq> [] \<and> s = oname obd @ uri_tail sep ns))"
proof -
  define s where "s = (if hd uri = sep then tl uri else uri)"
  from find have ne: "uri \<noteq> []" by (auto simp: find_object_def)
  then have uri: "uri = s \<or> uri = sep # s" unfolding s_def by (cases uri) auto
  note unf = find_object_unfold [of h, OF d ne, of s sep, OF s_def]
  from find have nm: "oname obd = takeWhile (\<lambda>c. c \<noteq> sep) s" unfolding unf by (simp split: if_splits)
  show ?thesis
  proof (cases "dropWhile (\<lambda>c. c \<noteq> sep) s")
    case Nil
    with find nm have "a = d" unfolding unf by simp
    moreover have "s = oname obd" unfolding nm
      using takeWhile_dropWhile_id [of "\<lambda>c. c \<noteq> sep" s] Nil by (simp only: append_Nil2)
    ultimately show ?thesis using uri by blast
  next
    case (Cons x uri2)
    with find nm have "find_descendant_object h d uri2 sep = Inr (Some a)" unfolding unf by simp
    from find_descends [OF this] obtain ns where ns: "descends h d ns a" "uri2 = join_uri sep ns" by blast
    then have "ns \<noteq> []" by (auto elim: descends.cases)
    with dropWhile_neq_split [OF Cons] nm ns(2) have "s = oname obd @ uri_tail sep ns"
      by (simp add: uri_tail_join)
    with uri ns(1) \<open>ns \<noteq> []\<close> show ?thesis by blast
  qed
qed

lemma fq_name_descends:
  "descends h p ns a \<Longrightarrow> tree_ok h \<Longrightarrow> fq_name h p = Some s \<Longrightarrow>
   fq_name h a = Some (s @ uri_tail CHR '':'' ns)"
proof (induction arbitrary: s rule: descends.induct)
  case (child p cs c ob)
  with tree_okD(2) [OF child.prems(1) child.hyps(1), of c] have "oparent ob = Some p"
    by (simp add: parent_of_Some)
  with child show ?case by (simp add: heap_simps)
next
  case (down p cs c ob ns a)
  with tree_okD(2) [OF down.prems(1) down.hyps(1), of c] have "oparent ob = Some p"
    by (simp add: parent_of_Some)
  with down have "fq_name h c = Some (s @ CHR '':'' # oname ob)" by (simp add: heap_simps)
  from down.IH [OF down.prems(1) this] show ?case by simp
qed

lemma find_object_path:
  assumes ok: "tree_ok h" and nm: "names_ok sep h" and d: "h d = Some obd"
    and p: "a = d \<and> s = oname obd \<or> (\<exists>ns. descends h d ns a \<and> ns \<noteq> [] \<and> s = oname obd @ uri_tail sep ns)"
    and uri: "uri = s \<or> uri = sep # s"
  shows "find_object h d uri sep = Inr (Some a)"
proof -
  from nm d have nd: "oname obd \<noteq> []" "sep \<notin> set (oname obd)" by (auto dest: names_okD)
  from p nd(1) have "s \<noteq> []" "hd s = hd (oname obd)" by (auto simp: hd_append)
  with nd hd_in_set [OF nd(1)] have hd: "s \<noteq> []" "hd s \<noteq> sep" by auto
  have strip: "(if hd uri = sep then tl uri else uri) = s" "uri \<noteq> []"
    using uri hd by auto
  from p show ?thesis
  proof
    assume "a = d \<and> s = oname obd"
    with strip d nd show ?thesis by (simp add: find_object_def deref_def)
  next
    assume "\<exists>ns. descends h d ns a \<and> ns \<noteq> [] \<and> s = oname obd @ uri_tail sep ns"
    then obtain ns where ns: "descends h d ns a" "ns \<noteq> []" "s = oname obd @ sep # join_uri sep ns"
      by (auto simp: uri_tail_join)
    with strip d nd descends_find [OF ns(1) ok nm] show ?thesis by (simp add: find_object_def deref_def)
  qed
qed

subsection \<open>A small tree for the witnesses\<close>

definition sample_tree :: "unit heap" where
  "sample_tree =
     [0 \<mapsto> \<lparr>oname = ''root'', oparent = None, oreadlevel = Normal, owritelevel = Forbidden,
            klass = Dictionary_k [1] None []\<rparr>,
      1 \<mapsto> \<lparr>oname = ''a'', oparent = Some 0, oreadlevel = Normal, owritelevel = Forbidden,
            klass = Node_k [2]\<rparr>,
      2 \<mapsto> \<lparr>oname = ''b'', oparent = Some 1, oreadlevel = Normal, owritelevel = Normal, klass = Plain_k\<rparr>]"

lemma sample_tree_links:
  "parent_of sample_tree = [1 \<mapsto> 0, 2 \<mapsto> 1]"
  "children_of sample_tree = [0 \<mapsto> [1], 1 \<mapsto> [2]]"
  "dom sample_tree = {0, 1, 2}"
  by (auto simp: sample_tree_def parent_of_def children_of_def fun_eq_iff split: if_splits)

lemma sample_tree_ok: "tree_ok sample_tree"
proof (rule tree_okI)
  have r0: "rooted [1 \<mapsto> 0, 2 \<mapsto> 1] 0" by (rule rooted.root) simp
  have r1: "rooted [1 \<mapsto> 0, 2 \<mapsto> 1] 1" by (rule rooted.up [OF _ r0]) simp
  have r2: "rooted [1 \<mapsto> 0, 2 \<mapsto> 1] 2" by (rule rooted.up [OF _ r1]) simp
  show "rooted (parent_of sample_tree) a" if "a \<in> dom sample_tree" for a
    using that r0 r1 r2 unfolding sample_tree_links by auto
qed (auto simp: sample_tree_links split: if_splits)

lemma sample_tree_names: "names_ok CHR '':'' sample_tree"
  unfolding names_ok_def sample_tree_links by (auto simp: sample_tree_def split: if_splits)

lemma sample_tree_fq: "fq_name sample_tree 2 = Some ''root:a:b''"
  by (simp add: fq_name.simps sample_tree_def)

lemma sample_tree_root: "root_of sample_tree 2 = Some 0"
  by (simp add: root_of.simps sample_tree_def)

subsection \<open>Properties\<close>

text \<open>
  C39. Looking an object up by its fully qualified name, with or without the optional leading
  separator, finds exactly that object, when names are non-empty, hold no separator and are
  unique among siblings.
\<close>

theorem find_object_fq_name:
  assumes "tree_ok h" and "names_ok CHR '':'' h" and "a \<in> dom h" and "root_of h a = Some d"
  shows "\<exists>s. fq_name h a = Some s \<and> find_object h d s CHR '':'' = Inr (Some a) \<and>
    find_object h d (CHR '':'' # s) CHR '':'' = Inr (Some a)"
proof -
  from fq_name_path [OF assms(1,3)] assms(4) obtain obd s where "h d = Some obd" "fq_name h a = Some s"
    "a = d \<and> s = oname obd \<or> (\<exists>ns. descends h d ns a \<and> ns \<noteq> [] \<and> s = oname obd @ uri_tail CHR '':'' ns)"
    by auto
  with find_object_path [OF assms(1,2) this(1,3)] show ?thesis by blast
qed

theorem find_object_fq_name_witness:
  "\<exists>s. fq_name sample_tree 2 = Some s \<and> find_object sample_tree 0 s CHR '':'' = Inr (Some 2) \<and>
    find_object sample_tree 0 (CHR '':'' # s) CHR '':'' = Inr (Some 2)"
  using find_object_fq_name [OF sample_tree_ok sample_tree_names _ sample_tree_root]
  by (simp add: sample_tree_links)






text \<open>
  \<open>add_child\<close> moves a child: it leaves the list of its old parent, becomes the last child of
  the new one and points to it; no other parent pointer, no name, level or class changes.
\<close>

theorem add_child_moves:
  assumes "tree_ok h" and "c \<in> dom h" and "children_of h p = Some cs"
    and "\<not> ancestor (parent_of h) c p"
  shows "\<exists>h'. add_child p c h = Inr h' \<and> tree_ok h' \<and> frame h' = frame h \<and>
    parent_of h' = (parent_of h)(c \<mapsto> p) \<and>
    children_of h' p = Some (filter (\<lambda>x. x \<noteq> c) cs @ [c]) \<and>
    (\<forall>q. q \<noteq> p \<longrightarrow> children_of h' q = map_option (filter (\<lambda>x. x \<noteq> c)) (children_of h q))"
  using add_child_tree_ok [OF assms] by (auto simp: relinked_def children_without_def)

theorem add_child_moves_witness:
  "\<exists>h'. add_child 0 2 sample_tree = Inr h' \<and> tree_ok h' \<and> frame h' = frame sample_tree \<and>
    parent_of h' = (parent_of sample_tree)(2 \<mapsto> 0) \<and>
    children_of h' 0 = Some (filter (\<lambda>x. x \<noteq> 2) [1] @ [2]) \<and>
    (\<forall>q. q \<noteq> 0 \<longrightarrow> children_of h' q = map_option (filter (\<lambda>x. x \<noteq> 2)) (children_of sample_tree q))"
proof (rule add_child_moves [OF sample_tree_ok])
  show "2 \<in> dom sample_tree" "children_of sample_tree 0 = Some [1]"
    by (simp_all add: sample_tree_links)
  show "\<not> ancestor (parent_of sample_tree) 2 0"
    unfolding sample_tree_links by (auto elim: ancestor.cases)
qed

text \<open>
  Destroying an object orphans its children, removes it from its parent's list and changes
  nothing else, so no pointer to it remains in the tree.
\<close>

theorem delete_object_clean:
  assumes "tree_ok h" and "a \<in> dom h"
  shows "\<exists>h'. delete_object a h = Inr h' \<and> tree_ok h' \<and> dom h' = dom h - {a} \<and>
    (\<forall>x. parent_of h' x \<noteq> Some a) \<and> (\<forall>q cs. children_of h' q = Some cs \<longrightarrow> a \<notin> set cs) \<and>
    (\<forall>x. x \<noteq> a \<and> parent_of h x \<noteq> Some a \<longrightarrow> parent_of h' x = parent_of h x)"
proof -
  from delete_object_tree_ok [OF assms] obtain h' where h': "delete_object a h = Inr h'" "tree_ok h'"
    "dom h' = dom h - {a}"
    "parent_of h' = (\<lambda>x. if x = a \<or> parent_of h x = Some a then None else parent_of h x)" by blast
  have "a \<notin> set cs" if "children_of h' q = Some cs" for q cs
    using kids_in_dom [OF h'(2) that, of a] unfolding h'(3) by blast
  moreover have "parent_of h' x \<noteq> Some a" for x unfolding h'(4) by simp
  ultimately show ?thesis using h' by auto
qed

theorem delete_object_clean_witness:
  "\<exists>h'. delete_object 1 sample_tree = Inr h' \<and> tree_ok h' \<and> dom h' = dom sample_tree - {1} \<and>
    (\<forall>x. parent_of h' x \<noteq> Some 1) \<and> (\<forall>q cs. children_of h' q = Some cs \<longrightarrow> 1 \<notin> set cs) \<and>
    (\<forall>x. x \<noteq> 1 \<and> parent_of sample_tree x \<noteq> Some 1 \<longrightarrow> parent_of h' x = parent_of sample_tree x)"
  by (rule delete_object_clean [OF sample_tree_ok]) (simp add: sample_tree_links)

end
