(* ===== verification/Update_Container.thy ===== *)
theory Update_Container
  imports Decof_Types
begin

text \<open>
  The queue of pending publish updates (\<open>src/cli/update_container.cpp\<close>): a \<open>std::map\<close> from URI to
  value and time whose elements are also threaded, oldest first, through \<open>next\<close> iterators, with
  \<open>front_\<close> and \<open>back_\<close> at the ends. An iterator into the map is the key it stands on,
  \<open>updates_.end()\<close> is \<open>None\<close>; the clock reading of \<open>push\<close> is an argument.

  The contract \<open>update_queue\<close> says what the contexts rely on: a first-in-first-out queue in which
  pushing a URI that is still waiting replaces its value without losing its place.
\<close>

type_synonym time_point = int

record mapped_type =
  utime :: time_point
  uvalue :: value_t
  unext :: "string option"

record update_container =
  updates :: "string \<rightharpoonup> mapped_type"
  front_it :: "string option"
  back_it :: "string option"

definition new_container :: update_container where
  "new_container = \<lparr>updates = (\<lambda>_. None), front_it = None, back_it = None\<rparr>"

definition iterators_valid :: "update_container \<Rightarrow> bool" where
  "iterators_valid c \<longleftrightarrow> (front_it c = None \<and> back_it c = None) \<or> (front_it c \<noteq> None \<and> back_it c \<noteq> None)"

definition push :: "string \<Rightarrow> value_t \<Rightarrow> time_point \<Rightarrow> update_container \<Rightarrow> error + update_container" where
  "push uri v now c =
     (if \<not> iterators_valid c then Inl Assertion_failed
      else case updates c uri of
        Some current \<Rightarrow>
          Inr (c\<lparr>updates := (updates c)(uri \<mapsto> current\<lparr>uvalue := v, utime := now\<rparr>)\<rparr>)
      | None \<Rightarrow>
          let m = (updates c)(uri \<mapsto> \<lparr>utime = now, uvalue = v, unext = None\<rparr>) in
          if front_it c = None
          then Inr \<lparr>updates = m, front_it = Some uri, back_it = Some uri\<rparr>
          else (case back_it c of
                  None \<Rightarrow> Inl Undefined
                | Some b \<Rightarrow>
                    (case m b of
                       None \<Rightarrow> Inl Undefined
                     | Some e \<Rightarrow> Inr (c\<lparr>updates := m(b \<mapsto> e\<lparr>unext := Some uri\<rparr>), back_it := Some uri\<rparr>))))"

definition pop_front ::
  "update_container \<Rightarrow> error + (string \<times> value_t \<times> time_point) \<times> update_container" where
  "pop_front c =
     (case front_it c of
        None \<Rightarrow> Inl Out_of_range
      | Some k \<Rightarrow>
          (case updates c k of
             None \<Rightarrow> Inl Undefined
           | Some e \<Rightarrow>
               let c' = \<lparr>updates = (updates c)(k := None), front_it = unext e,
                         back_it = (if unext e = None then None else back_it c)\<rparr>
               in if iterators_valid c' then Inr ((k, uvalue e, utime e), c')
                  else Inl Assertion_failed))"

definition is_empty :: "update_container \<Rightarrow> bool" where
  "is_empty c \<longleftrightarrow> updates c = (\<lambda>_. None)"

subsection \<open>The contract\<close>

type_synonym update = "string \<times> value_t \<times> time_point"

fun put_update :: "update \<Rightarrow> update list \<Rightarrow> update list" where
  "put_update u [] = [u]"
| "put_update u (x # xs) = (if fst x = fst u then u # xs else x # put_update u xs)"

text \<open>A client's use of a queue: a sequence of operations and what each one reports.\<close>

datatype queue_op = Push string value_t time_point | Pop
datatype queue_result = Pushed | Popped update | Was_empty

fun run_queue ::
  "(string \<Rightarrow> value_t \<Rightarrow> time_point \<Rightarrow> 'q \<Rightarrow> error + 'q) \<Rightarrow> ('q \<Rightarrow> error + update \<times> 'q) \<Rightarrow>
   queue_op list \<Rightarrow> 'q \<Rightarrow> error + queue_result list \<times> 'q" where
  "run_queue pu po [] q = Inr ([], q)"
| "run_queue pu po (Push k v t # ops) q =
     and_then (pu k v t q) (\<lambda>q1.
     and_then (run_queue pu po ops q1) (\<lambda>(rs, q2). Inr (Pushed # rs, q2)))"
| "run_queue pu po (Pop # ops) q =
     (case po q of
        Inr (u, q1) \<Rightarrow> and_then (run_queue pu po ops q1) (\<lambda>(rs, q2). Inr (Popped u # rs, q2))
      | Inl Out_of_range \<Rightarrow> and_then (run_queue pu po ops q) (\<lambda>(rs, q2). Inr (Was_empty # rs, q2))
      | Inl e \<Rightarrow> Inl e)"

fun spec_push :: "string \<Rightarrow> value_t \<Rightarrow> time_point \<Rightarrow> update list \<Rightarrow> error + update list" where
  "spec_push k v t xs = Inr (put_update (k, v, t) xs)"

fun spec_pop :: "update list \<Rightarrow> error + update \<times> update list" where
  "spec_pop [] = Inl Out_of_range"
| "spec_pop (x # xs) = Inr (x, xs)"

locale update_queue =
  fixes emp :: "'q"
    and pu :: "string \<Rightarrow> value_t \<Rightarrow> time_point \<Rightarrow> 'q \<Rightarrow> error + 'q"
    and po :: "'q \<Rightarrow> error + update \<times> 'q"
    and nil :: "'q \<Rightarrow> bool"
    and rep :: "'q \<Rightarrow> update list \<Rightarrow> bool"
  assumes rep_emp: "rep emp []"
    and rep_pu: "rep q xs \<Longrightarrow> \<exists>q'. pu k v t q = Inr q' \<and> rep q' (put_update (k, v, t) xs)"
    and rep_po_Nil: "rep q [] \<Longrightarrow> po q = Inl Out_of_range"
    and rep_po_Cons: "rep q (x # xs) \<Longrightarrow> \<exists>q'. po q = Inr (x, q') \<and> rep q' xs"
    and rep_nil: "rep q xs \<Longrightarrow> nil q \<longleftrightarrow> xs = []"
    and rep_distinct: "rep q xs \<Longrightarrow> distinct (map fst xs)"
begin

lemma run_refines:
  "rep q xs \<Longrightarrow> \<exists>q' rs ys. run_queue pu po ops q = Inr (rs, q') \<and>
     run_queue spec_push spec_pop ops xs = Inr (rs, ys) \<and> rep q' ys"
proof (induction ops arbitrary: q xs)
  case Nil
  then show ?case by simp
next
  case (Cons op ops)
  show ?case
  proof (cases op)
    case (Push k v t)
    from rep_pu [OF Cons.prems] obtain q1 where "pu k v t q = Inr q1"
      "rep q1 (put_update (k, v, t) xs)" by blast
    with Cons.IH [OF this(2)] Push show ?thesis by auto
  next
    case Pop
    show ?thesis
    proof (cases xs)
      case Nil
      with Cons.prems have "po q = Inl Out_of_range" by (simp add: rep_po_Nil)
      with Cons.IH [OF Cons.prems] Pop Nil show ?thesis by auto
    next
      case (Cons x ys)
      with Cons.prems rep_po_Cons obtain q1 where "po q = Inr (x, q1)" "rep q1 ys" by blast
      with Cons.IH [OF this(2)] Pop Cons show ?thesis by auto
    qed
  qed
qed

end

text \<open>The order of the queue is the order of the first push of every waiting URI.\<close>

lemma put_update_keys:
  "map fst (put_update u xs) = (if fst u \<in> fst ` set xs then map fst xs else map fst xs @ [fst u])"
  by (induction xs) auto

lemma put_update_lookup: "map_of (put_update u xs) = (map_of xs)(fst u \<mapsto> snd u)"
  by (induction xs) (auto simp: fun_eq_iff split: prod.splits)

lemma put_update_distinct: "distinct (map fst xs) \<Longrightarrow> distinct (map fst (put_update u xs))"
  unfolding put_update_keys by simp

subsection \<open>The threaded map meets the contract\<close>

text \<open>\<open>linked m f xs\<close>: following \<open>next\<close> from \<open>f\<close> reads off exactly \<open>xs\<close>.\<close>

fun linked :: "(string \<rightharpoonup> mapped_type) \<Rightarrow> string option \<Rightarrow> update list \<Rightarrow> bool" where
  "linked m f [] \<longleftrightarrow> f = None"
| "linked m f ((k, v, t) # xs) \<longleftrightarrow>
     f = Some k \<and> (\<exists>n. m k = Some \<lparr>utime = t, uvalue = v, unext = n\<rparr> \<and> linked m n xs)"

definition represents :: "update_container \<Rightarrow> update list \<Rightarrow> bool" where
  "represents c xs \<longleftrightarrow> linked (updates c) (front_it c) xs \<and> distinct (map fst xs) \<and>
     dom (updates c) = fst ` set xs \<and> back_it c = (if xs = [] then None else Some (fst (last xs)))"

lemma linked_other: "k \<notin> fst ` set xs \<Longrightarrow> linked (m(k := e)) f xs = linked m f xs"
  by (induction xs arbitrary: f) auto

lemma linked_replace:
  "linked m f xs \<Longrightarrow> distinct (map fst xs) \<Longrightarrow> m k = Some e \<Longrightarrow> k \<in> fst ` set xs \<Longrightarrow>
   linked (m(k \<mapsto> e\<lparr>uvalue := v, utime := t\<rparr>)) f (put_update (k, v, t) xs)"
proof (induction xs arbitrary: f)
  case Nil
  then show ?case by simp
next
  case (Cons x xs)
  obtain k' v' t' where x: "x = (k', v', t')" by (cases x)
  show ?case
  proof (cases "k' = k")
    case True
    with Cons.prems x have "k \<notin> fst ` set xs" by auto
    from Cons.prems(1) x True obtain n
      where n: "f = Some k" "m k = Some \<lparr>utime = t', uvalue = v', unext = n\<rparr>" "linked m n xs" by auto
    from n(3) \<open>k \<notin> fst ` set xs\<close> have "linked (m(k \<mapsto> e\<lparr>uvalue := v, utime := t\<rparr>)) n xs"
      using linked_other [of k xs m _ n] by blast
    with n Cons.prems(3) x True show ?thesis by (simp del: fun_upd_apply add: fun_upd_same)
  next
    case False
    with Cons x show ?thesis by auto
  qed
qed

lemma linked_append:
  "linked m f xs \<Longrightarrow> xs \<noteq> [] \<Longrightarrow> distinct (map fst xs) \<Longrightarrow> k \<notin> fst ` set xs \<Longrightarrow>
   m (fst (last xs)) = Some e \<Longrightarrow> m k = Some \<lparr>utime = t, uvalue = v, unext = None\<rparr> \<Longrightarrow>
   linked (m(fst (last xs) \<mapsto> e\<lparr>unext := Some k\<rparr>)) f (xs @ [(k, v, t)])"
proof (induction xs arbitrary: f)
  case Nil
  then show ?case by simp
next
  case (Cons x xs)
  obtain k' v' t' where x: "x = (k', v', t')" by (cases x)
  show ?case
  proof (cases "xs = []")
    case True
    with Cons.prems x show ?thesis by auto
  next
    case False
    then have "fst (last xs) \<in> fst ` set xs" by simp
    with Cons.prems x have "k' \<noteq> fst (last xs)" by auto
    with Cons False x show ?thesis by auto
  qed
qed

lemma linked_mem: "linked m f xs \<Longrightarrow> (k, v, t) \<in> set xs \<Longrightarrow> \<exists>n. m k = Some \<lparr>utime = t, uvalue = v, unext = n\<rparr>"
  by (induction xs arbitrary: f) auto

lemma represents_valid: "represents c xs \<Longrightarrow> iterators_valid c"
  by (cases xs) (auto simp: represents_def iterators_valid_def)

lemma represents_push:
  assumes r: "represents c xs"
  shows "\<exists>c'. push k v t c = Inr c' \<and> represents c' (put_update (k, v, t) xs)"
proof (cases "updates c k")
  case (Some e)
  with r have k: "k \<in> fst ` set xs" by (auto simp: represents_def)
  have last: "fst (last (put_update (k, v, t) xs)) = fst (last xs)" and ne: "put_update (k, v, t) xs \<noteq> []"
    using put_update_keys [of "(k, v, t)" xs] k by (metis fst_conv last_map list.map_disc_iff image_is_empty set_empty empty_iff)+
  have "fst ` set (put_update (k, v, t) xs) = fst ` set xs"
    using put_update_keys [of "(k, v, t)" xs] k by (metis fst_conv list.set_map)
  with r k Some last ne represents_valid [OF r] show ?thesis
    by (auto simp: represents_def push_def put_update_distinct linked_replace)
next
  case None
  with r have k: "k \<notin> fst ` set xs" by (auto simp: represents_def)
  then have app: "put_update (k, v, t) xs = xs @ [(k, v, t)]" by (induction xs) auto
  show ?thesis
  proof (cases "xs = []")
    case True
    with r None represents_valid [OF r] show ?thesis
      by (auto simp: represents_def push_def)
  next
    case False
    then obtain k' v' t' where l: "last xs = (k', v', t')" "(k', v', t') \<in> set xs"
      using last_in_set by (metis prod_cases3)
    from r l(2) obtain n where e: "updates c k' = Some \<lparr>utime = t', uvalue = v', unext = n\<rparr>"
      by (auto simp: represents_def dest: linked_mem)
    from k l have "k' \<noteq> k" by force
    let ?m = "(updates c)(k \<mapsto> \<lparr>utime = t, uvalue = v, unext = None\<rparr>)"
    have "linked (?m(k' \<mapsto> \<lparr>utime = t', uvalue = v', unext = Some k\<rparr>)) (front_it c) (xs @ [(k, v, t)])"
      using linked_append [of ?m "front_it c" xs k _ t v] r False k l e \<open>k' \<noteq> k\<close>
      by (simp add: represents_def linked_other)
    moreover obtain f where ends: "front_it c = Some f" "back_it c = Some k'"
      using r False l by (cases xs) (auto simp: represents_def)
    moreover have "push k v t c = Inr (c\<lparr>updates := ?m(k' \<mapsto> \<lparr>utime = t', uvalue = v', unext = Some k\<rparr>),
        back_it := Some k\<rparr>)"
      using None e \<open>k' \<noteq> k\<close> ends represents_valid [OF r] by (simp add: push_def Let_def)
    moreover have "k' \<in> fst ` set xs" using l(2) by force
    ultimately show ?thesis
      using r k unfolding app by (auto simp: represents_def)
  qed
qed

lemma represents_pop:
  assumes "represents c (x # xs)"
  shows "\<exists>c'. pop_front c = Inr (x, c') \<and> represents c' xs"
proof -
  obtain k v t where x: "x = (k, v, t)" by (cases x)
  with assms obtain n where n: "front_it c = Some k" "updates c k = Some \<lparr>utime = t, uvalue = v, unext = n\<rparr>"
    "linked (updates c) n xs" and k: "k \<notin> fst ` set xs" "distinct (map fst xs)"
    by (auto simp: represents_def)
  have "n = None \<longleftrightarrow> xs = []" using n(3) by (cases xs) auto
  then have "represents \<lparr>updates = (updates c)(k := None), front_it = n, back_it = if n = None then None else back_it c\<rparr> xs"
    using assms n k x by (auto simp: represents_def linked_other)
  with n x represents_valid [OF this] show ?thesis by (auto simp: pop_front_def Let_def)
qed

interpretation uc: update_queue new_container push pop_front is_empty represents
proof
  show "represents new_container []" by (simp add: represents_def new_container_def)
  show "represents c [] \<Longrightarrow> pop_front c = Inl Out_of_range" for c
    by (simp add: represents_def pop_front_def)
  show "represents c xs \<Longrightarrow> is_empty c \<longleftrightarrow> xs = []" for c xs
    by (auto simp: represents_def is_empty_def)
  show "represents c xs \<Longrightarrow> distinct (map fst xs)" for c xs by (simp add: represents_def)
qed (fact represents_push represents_pop)+


subsection \<open>Properties\<close>

lemma spec_run_simps:
  "run_queue spec_push spec_pop [] xs = Inr ([], xs)"
  "run_queue spec_push spec_pop (Push k v t # ops) xs =
     and_then (run_queue spec_push spec_pop ops (put_update (k, v, t) xs)) (\<lambda>(rs, ys). Inr (Pushed # rs, ys))"
  "run_queue spec_push spec_pop (Pop # ops) (x # xs) =
     and_then (run_queue spec_push spec_pop ops xs) (\<lambda>(rs, ys). Inr (Popped x # rs, ys))"
  by simp_all

declare run_queue.simps [simp del] spec_push.simps [simp del]

lemma remdups_insert_present: "a \<in> set ys \<Longrightarrow> remdups (xs @ a # ys) = remdups (xs @ ys)"
  by (induction xs) auto

lemma spec_run_pushes:
  "run_queue spec_push spec_pop (map (\<lambda>(k, v, t). Push k v t) us @ ops) xs =
   and_then (run_queue spec_push spec_pop ops (fold put_update us xs))
     (\<lambda>(rs, ys). Inr (replicate (length us) Pushed @ rs, ys))"
proof (induction us arbitrary: xs)
  case Nil
  then show ?case by (cases "run_queue spec_push spec_pop ops xs") auto
next
  case (Cons u us)
  obtain k v t where u: "u = (k, v, t)" by (cases u)
  show ?case
    by (cases "run_queue spec_push spec_pop ops (fold put_update us (put_update u xs))")
       (auto simp: Cons.IH u spec_run_simps)
qed

lemma spec_run_pops:
  "run_queue spec_push spec_pop (replicate (length xs) Pop) xs = Inr (map Popped xs, [])"
  by (induction xs) (auto simp: spec_run_simps)

lemma fold_put_update:
  assumes "distinct (map fst xs)"
  shows "distinct (map fst (fold put_update us xs))"
    and "map_of (fold put_update us xs) = map_of (rev us @ xs)"
    and "map fst (fold put_update us xs) = rev (remdups (rev (map fst us) @ rev (map fst xs)))"
  using assms
proof (induction us arbitrary: xs)
  case Nil
  {
    case 3
    then show ?case by (simp add: distinct_remdups_id)
  }
qed (auto simp add: put_update_distinct put_update_lookup put_update_keys remdups_insert_present)

text \<open>
  C18. The threaded map is a first-in-first-out queue with replacement in place: under any
  sequence of pushes and pops it reports exactly what the abstract queue of updates reports, and
  neither its assertions fail nor does it follow an invalid iterator.
\<close>

theorem container_refines_queue:
  "\<exists>c rs xs. run_queue push pop_front ops new_container = Inr (rs, c) \<and>
     run_queue spec_push spec_pop ops [] = Inr (rs, xs) \<and> represents c xs"
  by (rule uc.run_refines [OF uc.rep_emp])


text \<open>
  Pushing a list of updates and then draining the container delivers every URI once, in the
  order of first push, each with the value and time of its last push, and leaves it empty.
\<close>

theorem container_delivers_latest:
  "\<exists>c xs. run_queue push pop_front (map (\<lambda>(k, v, t). Push k v t) us @ replicate (length xs) Pop) new_container
       = Inr (replicate (length us) Pushed @ map Popped xs, c) \<and> is_empty c \<and>
     map fst xs = rev (remdups (rev (map fst us))) \<and> map_of xs = map_of (rev us)"
proof -
  define xs where "xs = fold put_update us []"
  let ?ops = "map (\<lambda>(k, v, t). Push k v t) us @ replicate (length xs) Pop"
  have "run_queue spec_push spec_pop ?ops [] = Inr (replicate (length us) Pushed @ map Popped xs, [])"
    by (simp add: spec_run_pushes spec_run_pops xs_def [symmetric])
  with uc.run_refines [OF uc.rep_emp, of ?ops] obtain c where
    "run_queue push pop_front ?ops new_container = Inr (replicate (length us) Pushed @ map Popped xs, c)"
    "represents c []" by auto
  with uc.rep_nil fold_put_update [of "[]" us] show ?thesis
    unfolding xs_def by (intro exI [of _ c] exI [of _ "fold put_update us []"]) auto
qed

end
