(* ===== verification/Ieee754.thy ===== *)
theory Ieee754
  imports Decof_Types
begin

text \<open>
  What the program uses of C++ floating point: the value of an IEEE 754 binary64 or binary32
  bit pattern as a dyadic number, exact comparison with integers, rounding a quotient to the
  nearest representable value (ties to even), the stream output of a \<open>double\<close> with
  \<open>setprecision(17)\<close> (the \<open>%.17g\<close> format of the C locale), and decimal output of integers.
  Everything is computed on integers, so the definitions evaluate.
\<close>

subsection \<open>Decimal and hexadecimal digits\<close>

definition digit_char :: "nat \<Rightarrow> char" where
  "digit_char d = char_of (if d < 10 then 48 + d else 87 + d)"

fun digits :: "nat \<Rightarrow> nat \<Rightarrow> string" where
  "digits b n =
     (if b < 2 \<or> n < b then [digit_char n] else digits b (n div b) @ [digit_char (n mod b)])"

declare digits.simps [simp del]

definition show_int :: "int \<Rightarrow> string" where
  "show_int i = (if i < 0 then CHR ''-'' # digits 10 (nat (- i)) else digits 10 (nat i))"

text \<open>Reading a run of decimal digits, the inverse of \<open>digits 10\<close>.\<close>

definition is_digit :: "char \<Rightarrow> bool" where
  "is_digit c \<longleftrightarrow> 48 \<le> (of_char c :: nat) \<and> (of_char c :: nat) \<le> 57"

definition digit_value :: "char \<Rightarrow> nat" where
  "digit_value c = of_char c - 48"

definition read_digits :: "string \<Rightarrow> nat" where
  "read_digits s = foldl (\<lambda>n c. 10 * n + digit_value c) 0 s"

lemma byte_lt [simp]: "(of_char c :: nat) < 256"
  using nat_of_char_less_256 by blast

lemma digit_char_value: "d < 10 \<Longrightarrow> digit_value (digit_char d) = d"
  by (simp add: digit_value_def digit_char_def of_char_of)

lemma digit_char_is_digit: "d < 10 \<Longrightarrow> is_digit (digit_char d)"
  by (simp add: is_digit_def digit_char_def of_char_of)

lemma read_digits_snoc [simp]: "read_digits (s @ [c]) = 10 * read_digits s + digit_value c"
  by (simp add: read_digits_def)

lemma read_digits_inverse: "read_digits (digits 10 n) = n"
proof (induction n rule: less_induct)
  case (less n)
  show ?case
  proof (cases "n < 10")
    case True
    then show ?thesis
      by (simp add: digits.simps [of 10 n] read_digits_def digit_char_value)
  next
    case False
    then have "read_digits (digits 10 (n div 10)) = n div 10" by (intro less) simp
    with False show ?thesis by (simp add: digits.simps [of 10 n] digit_char_value)
  qed
qed

lemma digits_all_digits: "\<forall>c \<in> set (digits 10 n). is_digit c"
proof (induction n rule: less_induct)
  case (less n)
  show ?case
  proof (cases "n < 10")
    case True
    then show ?thesis by (simp add: digits.simps [of 10 n] digit_char_is_digit)
  next
    case False
    then have "\<forall>c \<in> set (digits 10 (n div 10)). is_digit c" by (intro less) simp
    with False show ?thesis by (auto simp: digits.simps [of 10 n] digit_char_is_digit)
  qed
qed

lemma digits_not_Nil [simp]: "digits b n \<noteq> []"
  by (subst digits.simps) simp

subsection \<open>Bit patterns and their values\<close>

text \<open>\<open>Fin s m e\<close> is \<open>(-1)^s * m * 2^e\<close>.\<close>

datatype fp = Nan bool | Inf bool | Fin bool nat int

definition decode_fp :: "nat \<Rightarrow> nat \<Rightarrow> nat \<Rightarrow> fp" where
  "decode_fp fbits ebits n =
     (let s = (n div 2 ^ (fbits + ebits)) mod 2 = 1;
          ex = (n div 2 ^ fbits) mod 2 ^ ebits;
          fr = n mod 2 ^ fbits;
          bias = 2 ^ (ebits - 1) - 1 + int fbits
      in if ex = 2 ^ ebits - 1 then (if fr = 0 then Inf s else Nan s)
         else if ex = 0 then Fin s fr (1 - bias)
         else Fin s (2 ^ fbits + fr) (int ex - bias))"

definition decode_double :: "64 word \<Rightarrow> fp" where
  "decode_double w = decode_fp 52 11 (unat w)"

definition decode_float :: "32 word \<Rightarrow> fp" where
  "decode_float w = decode_fp 23 8 (unat w)"

text \<open>\<open>std::trunc(r) != r\<close>: a NaN, or a finite number with a fractional part.\<close>

fun has_fraction :: "fp \<Rightarrow> bool" where
  "has_fraction (Nan s) = True"
| "has_fraction (Inf s) = False"
| "has_fraction (Fin s m e) = (e < 0 \<and> m mod 2 ^ nat (- e) \<noteq> 0)"

text \<open>The value of a number without fractional part.\<close>

fun int_value :: "fp \<Rightarrow> int" where
  "int_value (Fin s m e) =
     (let a = (if e < 0 then int (m div 2 ^ nat (- e)) else int m * 2 ^ nat e) in if s then - a else a)"
| "int_value x = 0"

text \<open>\<open>r < k\<close> and \<open>r > k\<close> for an integer \<open>k\<close>, exactly. Comparisons with a NaN are false.\<close>

fun scaled :: "bool \<Rightarrow> nat \<Rightarrow> int \<Rightarrow> int \<Rightarrow> int \<times> int" where
  "scaled s m e k =
     ((if s then - 1 else 1) * int m * 2 ^ nat e, k * 2 ^ nat (- e))"

fun fp_less_int :: "fp \<Rightarrow> int \<Rightarrow> bool" where
  "fp_less_int (Nan s) k = False"
| "fp_less_int (Inf s) k = s"
| "fp_less_int (Fin s m e) k = (let (a, b) = scaled s m e k in a < b)"

fun fp_greater_int :: "fp \<Rightarrow> int \<Rightarrow> bool" where
  "fp_greater_int (Nan s) k = False"
| "fp_greater_int (Inf s) k = (\<not> s)"
| "fp_greater_int (Fin s m e) k = (let (a, b) = scaled s m e k in a > b)"

subsection \<open>Rounding to nearest, ties to even\<close>

definition round_half_even :: "nat \<Rightarrow> nat \<Rightarrow> nat" where
  "round_half_even n d =
     (let q = n div d; r = n mod d
      in if 2 * r < d then q else if 2 * r > d then q + 1 else if even q then q else q + 1)"

fun ilog :: "nat \<Rightarrow> nat \<Rightarrow> nat" where
  "ilog b n = (if b < 2 \<or> n < b then 0 else Suc (ilog b (n div b)))"

declare ilog.simps [simp del]

text \<open>How often \<open>num\<close> must be multiplied by \<open>b\<close> to reach \<open>den\<close>.\<close>

function steps_up :: "nat \<Rightarrow> nat \<Rightarrow> nat \<Rightarrow> nat" where
  "steps_up b num den = (if b < 2 \<or> num = 0 \<or> num \<ge> den then 0 else Suc (steps_up b (b * num) den))"
  by pat_completeness auto
termination
  by (relation "measure (\<lambda>(b, num, den). den - num)") (auto intro!: diff_less_mono2)

declare steps_up.simps [simp del]

text \<open>\<open>floor (log_b (num / den))\<close> for positive \<open>num\<close> and \<open>den\<close>.\<close>

definition floor_log :: "nat \<Rightarrow> nat \<Rightarrow> nat \<Rightarrow> int" where
  "floor_log b num den =
     (if num \<ge> den then int (ilog b (num div den)) else - int (steps_up b num den))"

text \<open>
  The bit pattern of \<open>num / den\<close> rounded to a format with \<open>fbits\<close> fraction and \<open>ebits\<close>
  exponent bits; \<open>None\<close> when it overflows.
\<close>

definition round_fp :: "nat \<Rightarrow> nat \<Rightarrow> nat \<Rightarrow> nat \<Rightarrow> nat option" where
  "round_fp fbits ebits num den =
     (if num = 0 then Some 0
      else let emin = 2 - 2 ^ (ebits - 1) - int fbits;
               e = max emin (floor_log 2 num den - int fbits);
               q = round_half_even (num * 2 ^ nat (- e)) (den * 2 ^ nat e);
               (q', e') = (if q = 2 ^ (fbits + 1) then (2 ^ fbits, e + 1) else (q, e));
               ex = nat (e' - emin) + (if q' < 2 ^ fbits then 0 else 1)
           in if ex \<ge> 2 ^ ebits - 1 then None
              else Some (ex * 2 ^ fbits + q' mod 2 ^ fbits))"

definition with_sign :: "nat \<Rightarrow> bool \<Rightarrow> nat \<Rightarrow> nat" where
  "with_sign bits s n = (if s then 2 ^ (bits - 1) else 0) + n"

text \<open>\<open>static_cast<double>(i)\<close> for an \<open>i\<close> in range, and \<open>static_cast<float>(d)\<close>.\<close>

definition double_bits :: "int \<Rightarrow> nat" where
  "double_bits i = with_sign 64 (i < 0) (case round_fp 52 11 (nat \<bar>i\<bar>) 1 of Some n \<Rightarrow> n | None \<Rightarrow> 0)"

definition double_of_int :: "int \<Rightarrow> 64 word" where
  "double_of_int i = word_of_nat (double_bits i)"

definition float_of_int :: "int \<Rightarrow> 32 word" where
  "float_of_int i =
     word_of_nat (with_sign 32 (i < 0) (case round_fp 23 8 (nat \<bar>i\<bar>) 1 of Some n \<Rightarrow> n | None \<Rightarrow> 0))"

subsection \<open>Stream output of a double\<close>

fun strip_zeros :: "string \<Rightarrow> string" where
  "strip_zeros s = rev (dropWhile (\<lambda>c. c = CHR ''0'') (rev s))"

definition pad_left :: "nat \<Rightarrow> string \<Rightarrow> string" where
  "pad_left n s = replicate (n - length s) CHR ''0'' @ s"

definition point :: "string \<Rightarrow> string" where
  "point frac = (if frac = [] then [] else CHR ''.'' # frac)"

definition show_fin :: "nat \<Rightarrow> nat \<Rightarrow> int \<Rightarrow> string" where
  "show_fin prec m e =
     (if m = 0 then ''0''
      else let num = m * 2 ^ nat e; den = 2 ^ nat (- e);
               x0 = floor_log 10 num den;
               sh = int prec - 1 - x0;
               n0 = round_half_even (num * 10 ^ nat sh) (den * 10 ^ nat (- sh));
               (n, x) = (if n0 = 10 ^ prec then (10 ^ (prec - 1), x0 + 1) else (n0, x0));
               ds = digits 10 n
           in if x < - 4 \<or> x \<ge> int prec
              then [hd ds] @ point (strip_zeros (tl ds)) @ [CHR ''e''] @
                   (if x < 0 then ''-'' else ''+'') @ pad_left 2 (digits 10 (nat \<bar>x\<bar>))
              else if x < 0
              then ''0'' @ point (strip_zeros (replicate (nat (- x) - 1) CHR ''0'' @ ds))
              else take (nat x + 1) ds @ point (strip_zeros (drop (nat x + 1) ds)))"

definition show_double :: "nat \<Rightarrow> 64 word \<Rightarrow> string" where
  "show_double prec w =
     (case decode_double w of
        Nan s \<Rightarrow> (if s then ''-nan'' else ''nan'')
      | Inf s \<Rightarrow> (if s then ''-inf'' else ''inf'')
      | Fin s m e \<Rightarrow> (if s then ''-'' else []) @ show_fin prec m e)"

end
