(* ===== verification/Cli_Codec.thy ===== *)
theory Cli_Codec
  imports Ieee754
begin

text \<open>
  The value encoding of the CLI protocols: \<open>src/cli/encoder.cpp\<close>, \<open>decoder.cpp\<close> and
  \<open>decoder.h\<close>. An output stream is its buffer together with the formatting flags the encoder
  touches, because \<open>std::hex\<close> and \<open>std::setfill\<close> stay set on the stream after the insertion
  that used them. Boost's base64 iterators are arguments.
\<close>

subsection \<open>Output streams\<close>

record ostream =
  buf :: string
  hexfield :: bool

definition new_ostream :: "string \<Rightarrow> ostream" where
  "new_ostream s = \<lparr>buf = s, hexfield = False\<rparr>"

definition put :: "string \<Rightarrow> ostream \<Rightarrow> ostream" where
  "put s os = os\<lparr>buf := buf os @ s\<rparr>"

lemma put_simps [simp]:
  "buf (put s os) = buf os @ s" "hexfield (put s os) = hexfield os" "put t (put s os) = put (s @ t) os"
  "put [] os = os"
  by (simp_all add: put_def)

text \<open>
  \<open>out << i\<close> for a \<open>long long\<close>: in hexadecimal mode the two's complement bit pattern is shown.
\<close>

definition put_integer :: "integer_t \<Rightarrow> ostream \<Rightarrow> ostream" where
  "put_integer i os = put (if hexfield os then digits 16 (unat i) else show_int (sint i)) os"

subsection \<open>Encoder\<close>

text \<open>The table of characters with a letter escape, \<open>escape_characters\<close> of \<open>encoder.cpp\<close>.\<close>

definition escape_letter :: "char \<Rightarrow> char option" where
  "escape_letter = map_of
     [(CHR 0x07, CHR ''a''), (CHR 0x08, CHR ''b''), (CHR 0x0C, CHR ''f''), (CHR 0x0A, CHR ''n''),
      (CHR 0x0D, CHR ''r''), (CHR 0x09, CHR ''t''), (CHR 0x0B, CHR ''v''), (CHR 0x5C, CHR 0x5C),
      (CHR 0x27, CHR 0x27), (CHR 0x22, CHR 0x22), (CHR ''?'', CHR ''?'')]"

definition is_plain :: "char \<Rightarrow> bool" where
  "is_plain c \<longleftrightarrow> 32 \<le> (of_char c :: nat) \<and> (of_char c :: nat) \<le> 127 \<and>
     c \<noteq> CHR 0x5C \<and> c \<noteq> CHR 0x27 \<and> c \<noteq> CHR 0x22 \<and> c \<noteq> CHR ''?''"

definition hex2 :: "char \<Rightarrow> string" where
  "hex2 c = [digit_char (of_char c div 16), digit_char (of_char c mod 16)]"

definition encode_char :: "char \<Rightarrow> ostream \<Rightarrow> ostream" where
  "encode_char c os =
     (if is_plain c then put [c] os
      else case escape_letter c of
             Some l \<Rightarrow> put [CHR 0x5C, l] os
           | None \<Rightarrow> (put (CHR 0x5C # CHR ''x'' # hex2 c) os)\<lparr>hexfield := True\<rparr>)"

definition encode_string :: "string \<Rightarrow> ostream \<Rightarrow> ostream" where
  "encode_string s os = put [CHR 0x22] (fold encode_char s (put [CHR 0x22] os))"

definition base64_encode :: "(string \<Rightarrow> string) \<Rightarrow> string \<Rightarrow> string" where
  "base64_encode it bin = it bin @ replicate ((3 - length bin mod 3) mod 3) CHR ''=''"

fun encode_scalar :: "(string \<Rightarrow> string) \<Rightarrow> scalar_t \<Rightarrow> ostream \<Rightarrow> ostream" where
  "encode_scalar it (Boolean_t b) os = put (if b then ''#t'' else ''#f'') os"
| "encode_scalar it (Integer_t i) os = put_integer i os"
| "encode_scalar it (Real_t r) os = put (show_double 17 r) os"
| "encode_scalar it (String_t s) os = encode_string s os"
| "encode_scalar it (Binary_t b) os = put (CHR ''&'' # base64_encode it b) os"

fun encode_elements :: "(string \<Rightarrow> string) \<Rightarrow> scalar_t list \<Rightarrow> ostream \<Rightarrow> ostream" where
  "encode_elements it [] os = os"
| "encode_elements it [x] os = encode_scalar it x os"
| "encode_elements it (x # xs) os = encode_elements it xs (put '','' (encode_scalar it x os))"

fun encode_value :: "(string \<Rightarrow> string) \<Rightarrow> value_t \<Rightarrow> ostream \<Rightarrow> ostream" where
  "encode_value it (Scalar_t x) os = encode_scalar it x os"
| "encode_value it (Sequence_t xs) os = put '']'' (encode_elements it xs (put ''['' os))"
| "encode_value it (Tuple_t xs) os = put ''}'' (encode_elements it xs (put ''{'' os))"

subsection \<open>Decoder\<close>

text \<open>
  \<open>base64decode\<close>: the padding is turned into zero digits and the bytes they produce are erased;
  erasing more than there is, is undefined. The iterator throws on characters outside its set.
\<close>

definition base64decode :: "(string \<Rightarrow> error + string) \<Rightarrow> string \<Rightarrow> error + string" where
  "base64decode it base64 =
     (let padd = length (filter (\<lambda>c. c = CHR ''='') base64)
      in and_then (it (map (\<lambda>c. if c = CHR ''='' then CHR ''A'' else c) base64)) (\<lambda>result.
         if padd \<le> length result then Inr (take (length result - padd) result) else Inl Undefined))"

text \<open>The table \<open>escape_characters\<close> of \<open>decoder.h\<close>.\<close>

definition unescape_letter :: "char \<Rightarrow> char option" where
  "unescape_letter = map_of
     [(CHR ''a'', CHR 0x07), (CHR ''b'', CHR 0x08), (CHR ''f'', CHR 0x0C), (CHR ''n'', CHR 0x0A),
      (CHR ''r'', CHR 0x0D), (CHR ''t'', CHR 0x09), (CHR ''v'', CHR 0x0B), (CHR 0x5C, CHR 0x5C),
      (CHR 0x27, CHR 0x27), (CHR 0x22, CHR 0x22), (CHR ''?'', CHR ''?'')]"

definition to_upper :: "char \<Rightarrow> char" where
  "to_upper c = (if 97 \<le> (of_char c :: nat) \<and> (of_char c :: nat) \<le> 122 then char_of ((of_char c :: nat) - 32) else c)"

definition is_hexdigit :: "char \<Rightarrow> bool" where
  "is_hexdigit c \<longleftrightarrow> is_digit c \<or>
     65 \<le> (of_char (to_upper c) :: nat) \<and> (of_char (to_upper c) :: nat) \<le> 70"

definition hex_value :: "char \<Rightarrow> nat" where
  "hex_value c = (if is_digit c then digit_value c else of_char (to_upper c) - 55)"

datatype escape_state = none_st | backslash_st | hex_digit1_st | hex_digit2_st char

text \<open>
  The loop of \<open>backslash_escape_decoder\<close>; the character kept by \<open>hex_digit2_st\<close> is the content of
  the string stream \<open>hex\<close>. A byte above 0x7F is rejected in the \<open>none\<close> state whether \<open>char\<close>
  is signed (then it is below 0x20) or not. Every exception leaves as a \<open>parse_error\<close>.
\<close>

fun escape_decode :: "escape_state \<Rightarrow> string \<Rightarrow> error + string" where
  "escape_decode st [] = (if st = none_st then Inr [] else Inl (Runtime parse_error))"
| "escape_decode none_st (ch # it) =
     (if ch = CHR 0x5C then escape_decode backslash_st it
      else if (of_char ch :: nat) < 32 \<or> (of_char ch :: nat) > 127 then Inl (Runtime parse_error)
      else and_then (escape_decode none_st it) (\<lambda>out. Inr (ch # out)))"
| "escape_decode backslash_st (ch # it) =
     (if to_upper ch = CHR ''X'' then escape_decode hex_digit1_st it
      else case unescape_letter ch of
             None \<Rightarrow> Inl (Runtime parse_error)
           | Some c \<Rightarrow> and_then (escape_decode none_st it) (\<lambda>out. Inr (c # out)))"
| "escape_decode hex_digit1_st (ch # it) =
     (if is_hexdigit ch then escape_decode (hex_digit2_st ch) it else Inl (Runtime parse_error))"
| "escape_decode (hex_digit2_st c1) (ch # it) =
     (if is_hexdigit ch
      then and_then (escape_decode none_st it) (\<lambda>out. Inr (char_of (16 * hex_value c1 + hex_value ch) # out))
      else Inl (Runtime parse_error))"

definition backslash_escape_decoder :: "string \<Rightarrow> error + string" where
  "backslash_escape_decoder s = escape_decode none_st s"

subsection \<open>Escaping is undone by unescaping\<close>

text \<open>The text \<open>encode_char\<close> emits for one character.\<close>

definition escaped :: "char \<Rightarrow> string" where
  "escaped c =
     (if is_plain c then [c]
      else case escape_letter c of Some l \<Rightarrow> [CHR 0x5C, l] | None \<Rightarrow> CHR 0x5C # CHR ''x'' # hex2 c)"

lemma encode_char_buf: "buf (encode_char c os) = buf os @ escaped c"
  by (simp add: encode_char_def escaped_def split: option.splits)

lemma fold_encode_char_buf: "buf (fold encode_char s os) = buf os @ concat (map escaped s)"
  by (induction s arbitrary: os) (simp_all add: encode_char_buf)

lemma encode_string_buf:
  "buf (encode_string s os) = buf os @ CHR 0x22 # concat (map escaped s) @ [CHR 0x22]"
  by (simp add: encode_string_def fold_encode_char_buf)

lemma escape_letter_inverse:
  "escape_letter c = Some l \<Longrightarrow> unescape_letter l = Some c \<and> to_upper l \<noteq> CHR ''X''"
  by (auto simp: escape_letter_def unescape_letter_def to_upper_def char_of_def split: if_splits)

lemma digit_char_hex:
  assumes "d < 16"
  shows "is_hexdigit (digit_char d) \<and> hex_value (digit_char d) = d"
proof (cases "d < 10")
  case True
  then show ?thesis by (simp add: is_hexdigit_def hex_value_def digit_char_is_digit digit_char_value)
next
  case False
  with assms have "\<not> is_digit (digit_char d)"
    by (simp add: is_digit_def digit_char_def of_char_of)
  moreover have "to_upper (digit_char d) = char_of (55 + d)"
    using False assms by (simp add: to_upper_def digit_char_def of_char_of)
  ultimately show ?thesis
    using False assms by (simp add: is_hexdigit_def hex_value_def of_char_of)
qed

lemma hex2_inverse:
  "escape_decode hex_digit1_st (hex2 c @ rest) = and_then (escape_decode none_st rest) (\<lambda>out. Inr (c # out))"
proof -
  have b: "(of_char c :: nat) < 256" using nat_of_char_less_256 by blast
  have "(of_char c :: nat) div 16 < 16" "(of_char c :: nat) mod 16 < 16" using b by arith+
  with digit_char_hex show ?thesis by (simp add: hex2_def)
qed

lemma escape_decode_escaped:
  "escape_decode none_st (escaped c @ rest) = and_then (escape_decode none_st rest) (\<lambda>out. Inr (c # out))"
proof (cases "is_plain c")
  case True
  then show ?thesis by (auto simp: escaped_def is_plain_def)
next
  case False
  show ?thesis
  proof (cases "escape_letter c")
    case None
    have "to_upper CHR ''x'' = CHR ''X''" by (simp add: to_upper_def char_of_def bit_simps)
    with None False hex2_inverse show ?thesis by (simp add: escaped_def)
  next
    case (Some l)
    with escape_letter_inverse [OF Some] False show ?thesis by (simp add: escaped_def)
  qed
qed

lemma escape_round_trip: "backslash_escape_decoder (concat (map escaped s)) = Inr s"
  by (induction s) (simp_all add: backslash_escape_decoder_def escape_decode_escaped)

subsection \<open>Base64\<close>

text \<open>
  What the code relies on from Boost's iterators: the encoder turns bytes into 6 bit groups,
  padding the last with zero bits, over an alphabet without \<open>=\<close>; the decoder maps the groups back
  to bytes, and a group \<open>A\<close> is six zero bits.
\<close>

definition base64_iterators :: "(string \<Rightarrow> string) \<Rightarrow> (string \<Rightarrow> error + string) \<Rightarrow> bool" where
  "base64_iterators enc dec \<longleftrightarrow>
     (\<forall>bin. CHR ''='' \<notin> set (enc bin) \<and>
        dec (enc bin @ replicate ((3 - length bin mod 3) mod 3) CHR ''A'') =
        Inr (bin @ replicate ((3 - length bin mod 3) mod 3) CHR 0x00))"

lemma base64_decode_encode:
  assumes "base64_iterators enc dec"
  shows "base64decode dec (base64_encode enc bin) = Inr bin"
proof -
  let ?n = "(3 - length bin mod 3) mod 3"
  have e: "CHR ''='' \<notin> set (enc bin)"
    and d: "dec (enc bin @ replicate ?n CHR ''A'') = Inr (bin @ replicate ?n CHR 0x00)"
    using assms by (simp_all add: base64_iterators_def)
  have "filter (\<lambda>c. c = CHR ''='') (enc bin) = []"
    using e by (auto simp: filter_empty_conv)
  moreover have "map (\<lambda>c. if c = CHR ''='' then CHR ''A'' else c) (enc bin) = enc bin"
    using e by (intro map_idI) auto
  ultimately show ?thesis by (simp add: base64decode_def base64_encode_def Let_def d)
qed

text \<open>A pair of functions with these laws.\<close>

definition b64_alphabet :: string where
  "b64_alphabet = ''ABCDEFGHIJKLMNOPQRSTUVWXYZabcdefghijklmnopqrstuvwxyz0123456789+/''"

definition b64_char :: "nat \<Rightarrow> char" where "b64_char n = b64_alphabet ! n"

definition b64_value :: "char \<Rightarrow> nat option" where
  "b64_value = map_of (zip b64_alphabet [0..<64])"

fun b64_enc :: "string \<Rightarrow> string" where
  "b64_enc [] = []"
| "b64_enc [a] = (let n = of_char a * 65536 in [b64_char (n div 262144), b64_char (n div 4096 mod 64)])"
| "b64_enc [a, b] = (let n = of_char a * 65536 + of_char b * 256 in
     [b64_char (n div 262144), b64_char (n div 4096 mod 64), b64_char (n div 64 mod 64)])"
| "b64_enc (a # b # c # s) = (let n = of_char a * 65536 + of_char b * 256 + of_char c in
     b64_char (n div 262144) # b64_char (n div 4096 mod 64) # b64_char (n div 64 mod 64) #
     b64_char (n mod 64) # b64_enc s)"

fun b64_dec :: "string \<Rightarrow> error + string" where
  "b64_dec [] = Inr []"
| "b64_dec (w # x # y # z # s) =
     (case (b64_value w, b64_value x, b64_value y, b64_value z) of
        (Some i, Some j, Some k, Some l) \<Rightarrow>
          (let n = i * 262144 + j * 4096 + k * 64 + l in
           and_then (b64_dec s) (\<lambda>out.
             Inr (char_of (n div 65536) # char_of (n div 256 mod 256) # char_of (n mod 256) # out)))
      | _ \<Rightarrow> Inl (Foreign ''dataflow_exception''))"
| "b64_dec s = Inl (Foreign ''dataflow_exception'')"

lemma b64_alphabet_facts: "length b64_alphabet = 64" "distinct b64_alphabet" "CHR ''='' \<notin> set b64_alphabet"
  by (simp_all add: b64_alphabet_def)

lemma b64_value_char [simp]: "n < 64 \<Longrightarrow> b64_value (b64_char n) = Some n"
  unfolding b64_value_def b64_char_def
  using map_of_zip_nth [of b64_alphabet "[0..<64]" n] b64_alphabet_facts by simp

lemma b64_char_not_eq: "n < 64 \<Longrightarrow> CHR ''='' = b64_char n \<longleftrightarrow> False"
  unfolding b64_char_def using b64_alphabet_facts nth_mem [of n b64_alphabet] by fastforce

lemma b64_step: "n div (b * 64) * (b * 64) + n div b mod 64 * b = n div b * b" for n b :: nat
proof -
  have "n div (b * 64) * (b * 64) + n div b mod 64 * b = (n div b div 64 * 64 + n div b mod 64) * b"
    unfolding div_mult2_eq by (simp only: distrib_right mult.assoc mult.commute [of b 64])
  then show ?thesis by (simp only: div_mult_mod_eq)
qed

lemma b64_group:
  assumes "n < (16777216 :: nat)"
  shows "n div 262144 < 64" "n div 4096 mod 64 < 64" "n div 64 mod 64 < 64" "n mod 64 < 64"
    "n div 262144 * 262144 + n div 4096 mod 64 * 4096 + n div 64 mod 64 * 64 + n mod 64 = n"
proof -
  show "n div 262144 < 64" using assms by (simp add: div_less_iff_less_mult)
  have "n div 262144 * 262144 + n div 4096 mod 64 * 4096 = n div 4096 * 4096"
    using b64_step [of n 4096] by simp
  moreover have "n div 4096 * 4096 + n div 64 mod 64 * 64 = n div 64 * 64"
    using b64_step [of n 64] by simp
  ultimately show "n div 262144 * 262144 + n div 4096 mod 64 * 4096 + n div 64 mod 64 * 64 + n mod 64 = n"
    by (simp only: div_mult_mod_eq)
qed simp_all

lemma b64_A: "CHR ''A'' = b64_char 0" by (simp add: b64_char_def b64_alphabet_def)

lemma b64_dec_group:
  assumes "n < (16777216 :: nat)"
  shows "b64_dec (b64_char (n div 262144) # b64_char (n div 4096 mod 64) # b64_char (n div 64 mod 64) #
      b64_char (n mod 64) # s) =
    and_then (b64_dec s) (\<lambda>out. Inr (char_of (n div 65536) # char_of (n div 256 mod 256) # char_of (n mod 256) # out))"
  unfolding b64_dec.simps b64_value_char [OF b64_group(1) [OF assms]]
    b64_value_char [OF b64_group(2) [OF assms]] b64_value_char [OF b64_group(3) [OF assms]]
    b64_value_char [OF b64_group(4) [OF assms]] prod.case option.case Let_def b64_group(5) [OF assms]
  by (rule refl)

lemma b64_bytes:
  fixes a b c :: nat
  assumes "a < 256" "b < 256" "c < 256"
  shows "a * 65536 + b * 256 + c < 16777216" "(a * 65536 + b * 256 + c) div 65536 = a"
    "(a * 65536 + b * 256 + c) div 256 mod 256 = b" "(a * 65536 + b * 256 + c) mod 256 = c"
proof -
  show "a * 65536 + b * 256 + c < 16777216" using assms by linarith
  have n: "a * 65536 + b * 256 + c = (a * 256 + b) * 256 + c" by simp
  have d: "(a * 65536 + b * 256 + c) div 256 = a * 256 + b"
    unfolding n using assms(3) by simp
  show "(a * 65536 + b * 256 + c) mod 256 = c"
    unfolding n using assms(3) by (simp only: mod_mult_self3 mod_less)
  show "(a * 65536 + b * 256 + c) div 256 mod 256 = b"
    unfolding d using assms(2) by simp
  have "(a * 65536 + b * 256 + c) div 65536 = (a * 65536 + b * 256 + c) div 256 div 256"
    by (simp flip: div_mult2_eq)
  then show "(a * 65536 + b * 256 + c) div 65536 = a"
    unfolding d using assms(2) by simp
qed

lemma char_of_zero: "char_of (0 :: nat) = CHR 0x00"
  by (simp add: char_of_def)

lemma pad_count:
  "(3 - length (a # b # c # s) mod 3) mod 3 = (3 - length s mod 3) mod 3" for s :: "'z list"
proof -
  have "length (a # b # c # s) mod 3 = (3 + length s) mod 3" by simp
  then show ?thesis by (simp only: mod_add_self1)
qed

lemma b64_round_trip:
  "b64_dec (b64_enc bin @ replicate ((3 - length bin mod 3) mod 3) CHR ''A'') =
   Inr (bin @ replicate ((3 - length bin mod 3) mod 3) CHR 0x00)"
proof (induction bin rule: b64_enc.induct)
  case 1
  then show ?case by simp
next
  case (2 a)
  define n where "n = (of_char a :: nat) * 65536"
  have n: "n = of_char a * 65536 + 0 * 256 + 0" by (simp add: n_def)
  have "n = of_char a * 16 * 64 * 64" by (simp add: n_def)
  then have z: "n div 64 mod 64 = 0" "n mod 64 = 0"
    by (simp_all only: nonzero_mult_div_cancel_right mod_mult_self2_is_0)
  have bs: "n < 16777216" "n div 65536 = of_char a" "n div 256 mod 256 = 0" "n mod 256 = 0"
    unfolding n using b64_bytes [of "of_char a" 0 0] by simp_all
  have pad: "replicate ((3 - length [a] mod 3) mod 3) x = [x, x]" for x :: char
    by (simp add: numeral_2_eq_2)
  from b64_dec_group [OF bs(1), of "[]"] show ?case
    unfolding pad b64_enc.simps Let_def n_def [symmetric] b64_A by (simp add: z bs char_of_zero)
next
  case (3 a b)
  define n where "n = (of_char a :: nat) * 65536 + of_char b * 256"
  have n: "n = of_char a * 65536 + of_char b * 256 + 0" by (simp add: n_def)
  have "n = (of_char a * 1024 + of_char b * 4) * 64" by (simp add: n_def)
  then have z: "n mod 64 = 0" by (simp only: mod_mult_self2_is_0)
  have bs: "n < 16777216" "n div 65536 = of_char a" "n div 256 mod 256 = of_char b" "n mod 256 = 0"
    unfolding n using b64_bytes [of "of_char a" "of_char b" 0] by simp_all
  have pad: "replicate ((3 - length [a, b] mod 3) mod 3) x = [x]" for x :: char by simp
  from b64_dec_group [OF bs(1), of "[]"] show ?case
    unfolding pad b64_enc.simps Let_def n_def [symmetric] b64_A by (simp add: z bs char_of_zero)
next
  case (4 a b c s)
  define n where "n = (of_char a :: nat) * 65536 + of_char b * 256 + of_char c"
  note bs = b64_bytes [of "of_char a" "of_char b" "of_char c", simplified, folded n_def]
  show ?case unfolding pad_count
    by (simp only: b64_enc.simps Let_def append_Cons b64_dec_group [OF bs(1), unfolded n_def]
        4 and_then_simps bs(2-4) [unfolded n_def] char_of_char)
qed

lemma b64_enc_no_pad: "CHR ''='' \<notin> set (b64_enc bin)"
proof (induction bin rule: b64_enc.induct)
  case (2 a)
  have "of_char a * 65536 < (16777216 :: nat)" using byte_lt [of a] by linarith
  from b64_group(1-4) [OF this] show ?case
    unfolding b64_enc.simps Let_def by (simp only: list.set insert_iff empty_iff b64_char_not_eq simp_thms)
next
  case (3 a b)
  have "of_char a * 65536 + of_char b * 256 < (16777216 :: nat)" using byte_lt [of a] byte_lt [of b] by linarith
  from b64_group(1-4) [OF this] show ?case
    unfolding b64_enc.simps Let_def by (simp only: list.set insert_iff empty_iff b64_char_not_eq simp_thms)
next
  case (4 a b c s)
  have "of_char a * 65536 + of_char b * 256 + of_char c < (16777216 :: nat)"
    using byte_lt [of a] byte_lt [of b] byte_lt [of c] by linarith
  from b64_group(1-4) [OF this] 4 show ?case
    unfolding b64_enc.simps Let_def by (simp only: list.set insert_iff empty_iff b64_char_not_eq simp_thms)
qed simp

lemma b64_iterators: "base64_iterators b64_enc b64_dec"
  by (simp add: base64_iterators_def b64_enc_no_pad b64_round_trip)

subsection \<open>The formatting state\<close>

definition hex_escaped :: "char \<Rightarrow> bool" where
  "hex_escaped c \<longleftrightarrow> \<not> is_plain c \<and> escape_letter c = None"

lemma encode_char_hexfield: "hexfield (encode_char c os) \<longleftrightarrow> hexfield os \<or> hex_escaped c"
  by (simp add: encode_char_def hex_escaped_def split: option.splits)

lemma fold_encode_char_hexfield: "hexfield (fold encode_char s os) \<longleftrightarrow> hexfield os \<or> list_ex hex_escaped s"
  by (induction s arbitrary: os) (auto simp: encode_char_hexfield)

lemma encode_string_hexfield: "hexfield (encode_string s os) \<longleftrightarrow> hexfield os \<or> list_ex hex_escaped s"
  by (simp add: encode_string_def fold_encode_char_hexfield)

lemma put_integer_buf:
  "buf (put_integer i os) = buf os @ (if hexfield os then digits 16 (unat i) else show_int (sint i))"
  by (simp add: put_integer_def)

subsection \<open>Properties\<close>

text \<open>
  A string is written between double quotes so that the decoder's unescaping of the text
  between the quotes gives the string back, for every sequence of bytes.
\<close>

theorem string_round_trip:
  "\<exists>body. buf (encode_string s (new_ostream [])) = [CHR 0x22] @ body @ [CHR 0x22] \<and>
     backslash_escape_decoder body = Inr s"
  by (intro exI [of _ "concat (map escaped s)"])
     (simp add: encode_string_buf new_ostream_def escape_round_trip)

text \<open>
  The text of a binary value is an ampersand and a base64 string that decodes to the value,
  given what Boost documents of its base64 iterators.
\<close>

theorem binary_round_trip:
  assumes "base64_iterators enc dec"
  shows "\<exists>body. buf (encode_scalar enc (Binary_t b) (new_ostream [])) = CHR ''&'' # body \<and>
    base64decode dec body = Inr b"
  using base64_decode_encode [OF assms] by (simp add: new_ostream_def)

theorem binary_round_trip_witness:
  "base64_iterators b64_enc b64_dec \<and>
   (\<exists>body. buf (encode_scalar b64_enc (Binary_t ''decof'') (new_ostream [])) = CHR ''&'' # body \<and>
      base64decode b64_dec body = Inr ''decof'')"
  using b64_iterators binary_round_trip [OF b64_iterators] by blast

text \<open>
  The hexadecimal escape leaves \<open>std::hex\<close> set on the stream: an integer that follows a string
  in a tuple is written in decimal only when no byte of the string needed a hexadecimal escape,
  and as its two's complement bit pattern in hexadecimal otherwise.
\<close>

theorem hex_flag_leaks:
  "buf (encode_value enc (Tuple_t [String_t s, Integer_t i]) (new_ostream [])) =
     ''{'' @ CHR 0x22 # concat (map escaped s) @ CHR 0x22 # '','' @
     (if list_ex hex_escaped s then digits 16 (unat i) else show_int (sint i)) @ ''}''"
  by (simp add: put_integer_buf encode_string_buf encode_string_hexfield new_ostream_def)

end
