(* ===== verification/Scgi_Parsers.thy ===== *)
theory Scgi_Parsers
  imports Ieee754 "HOL-Library.AList"
begin

text \<open>
  The two character-driven parsers of the SCGI protocol: the Bencode string parser
  (\<open>src/scgi/bencode_string_parser.cpp\<close>) and the request parser
  (\<open>src/scgi/request_parser.cpp\<close>). Counters are 64 bit words (\<open>size_t\<close>). Boost's
  \<open>lexical_cast<size_t>\<close> (\<open>None\<close> for \<open>bad_lexical_cast\<close>) and \<open>split\<close> are arguments; members
  the constructors leave uninitialised start from an arbitrary value given to the constructor.
\<close>

datatype result_type = good | bad | indeterminate

type_synonym lexical_cast = "string \<Rightarrow> 64 word option"

subsection \<open>Bencode strings\<close>

datatype bencode_state = string_length | string_st

record bencode_string_parser =
  data :: string
  bstate :: bencode_state
  length_str :: string
  blength :: "64 word"

definition bencode_reset :: "bencode_string_parser \<Rightarrow> bencode_string_parser" where
  "bencode_reset p = p\<lparr>data := [], bstate := string_length, length_str := []\<rparr>"

definition new_bencode :: "64 word \<Rightarrow> bencode_string_parser" where
  "new_bencode junk = bencode_reset \<lparr>data = [], bstate = string_length, length_str = [], blength = junk\<rparr>"

definition bencode_consume ::
  "lexical_cast \<Rightarrow> char \<Rightarrow> bencode_string_parser \<Rightarrow> result_type \<times> bencode_string_parser" where
  "bencode_consume lc input p =
     (case bstate p of
        string_length \<Rightarrow>
          if is_digit input then (indeterminate, p\<lparr>length_str := length_str p @ [input]\<rparr>)
          else if input = CHR '':'' then
            (case lc (length_str p) of
               None \<Rightarrow> (bad, p)
             | Some n \<Rightarrow> (if n = 0 then good else indeterminate, p\<lparr>blength := n, bstate := string_st\<rparr>))
          else (bad, p)
      | string_st \<Rightarrow>
          (let p' = p\<lparr>data := data p @ [input], blength := blength p - 1\<rparr>
           in (if blength p' = 0 then good else indeterminate, p')))"

fun bencode_parse ::
  "lexical_cast \<Rightarrow> string \<Rightarrow> bencode_string_parser \<Rightarrow> (result_type \<times> string) \<times> bencode_string_parser" where
  "bencode_parse lc [] p = ((indeterminate, []), p)"
| "bencode_parse lc (c # cs) p =
     (case bencode_consume lc c p of
        (r, p') \<Rightarrow> if r = indeterminate then bencode_parse lc cs p' else ((r, cs), p'))"

subsection \<open>Requests\<close>

datatype method_type = get | post | head | put | delete_m | trace | options_m | connect | undefined_m

datatype request_state = netstring_length_st | header_start | header_name | header_value | body_range

record request_parser =
  req_method :: method_type
  uri :: string
  headers :: "(string \<times> string) list"
  content_type :: string
  encoding :: string
  body :: string
  rstate :: request_state
  netstring_length_str :: string
  netstring_length :: "64 word"
  netstring_count :: "64 word"
  current_header :: string
  current_value :: string
  content_length :: "64 word"

text \<open>\<open>reset\<close> leaves \<open>content_type\<close>, \<open>encoding\<close> and the two netstring counters alone.\<close>

definition request_reset :: "request_parser \<Rightarrow> request_parser" where
  "request_reset p = p\<lparr>rstate := netstring_length_st, req_method := undefined_m, uri := [], headers := [],
     body := [], netstring_length_str := [], current_header := [], current_value := [],
     content_length := 0\<rparr>"

definition new_request_parser :: "64 word \<Rightarrow> 64 word \<Rightarrow> request_parser" where
  "new_request_parser junk1 junk2 = request_reset
     \<lparr>req_method = undefined_m, uri = [], headers = [], content_type = [], encoding = [], body = [],
      rstate = netstring_length_st, netstring_length_str = [], netstring_length = junk1,
      netstring_count = junk2, current_header = [], current_value = [], content_length = 0\<rparr>"

text \<open>
  The end of a header value: the first header must be \<open>CONTENT_LENGTH\<close>, the second \<open>SCGI\<close> with
  value \<open>1\<close>; \<open>None\<close> is the early return of \<open>bad\<close>.
\<close>

definition check_header :: "lexical_cast \<Rightarrow> request_parser \<Rightarrow> request_parser option" where
  "check_header lc p =
     (if headers p = [] then
        (if current_header p = ''CONTENT_LENGTH'' then
           map_option (\<lambda>n. p\<lparr>content_length := n\<rparr>) (lc (current_value p))
         else None)
      else if length (headers p) = 1 \<and> \<not> (current_header p = ''SCGI'' \<and> current_value p = ''1'') then None
      else Some p)"

definition apply_header :: "(string \<Rightarrow> string list) \<Rightarrow> request_parser \<Rightarrow> request_parser" where
  "apply_header split p =
     (if current_header p = ''REQUEST_METHOD'' then
        (if current_value p = ''GET'' then p\<lparr>req_method := get\<rparr>
         else if current_value p = ''PUT'' then p\<lparr>req_method := put\<rparr>
         else if current_value p = ''POST'' then p\<lparr>req_method := post\<rparr>
         else p)
      else if current_header p = ''REQUEST_URI'' then p\<lparr>uri := current_value p\<rparr>
      else if current_header p = ''CONTENT_TYPE'' then
        (case split (current_value p) of
           [] \<Rightarrow> p
         | [t] \<Rightarrow> p\<lparr>content_type := t\<rparr>
         | t # e # _ \<Rightarrow> p\<lparr>content_type := t, encoding := e\<rparr>)
      else p)"

definition store_header :: "request_parser \<Rightarrow> request_parser" where
  "store_header p = p\<lparr>headers := AList.update (current_header p) (current_value p) (headers p),
     current_header := [], current_value := [], rstate := header_start\<rparr>"

definition request_consume ::
  "lexical_cast \<Rightarrow> (string \<Rightarrow> string list) \<Rightarrow> char \<Rightarrow> request_parser \<Rightarrow> result_type \<times> request_parser" where
  "request_consume lc split input p0 =
     (let p = p0\<lparr>netstring_count := netstring_count p0 + 1\<rparr> in
      case rstate p of
        netstring_length_st \<Rightarrow>
          if is_digit input then (indeterminate, p\<lparr>netstring_length_str := netstring_length_str p @ [input]\<rparr>)
          else if input = CHR '':'' then
            (case lc (netstring_length_str p) of
               None \<Rightarrow> (bad, p)
             | Some n \<Rightarrow> (indeterminate, p\<lparr>netstring_length := n, netstring_count := 0, rstate := header_start\<rparr>))
          else (bad, p)
      | header_value \<Rightarrow>
          if netstring_count p \<le> netstring_length p then
            (if input = CHR 0x00 then
               (case check_header lc p of
                  None \<Rightarrow> (bad, p)
                | Some p1 \<Rightarrow> (indeterminate, store_header (apply_header split p1)))
             else (indeterminate, p\<lparr>current_value := current_value p @ [input]\<rparr>))
          else (bad, p)
      | body_range \<Rightarrow>
          if word_of_nat (length (body p)) \<le> content_length p then
            (let p1 = p\<lparr>body := body p @ [input]\<rparr>
             in (if word_of_nat (length (body p1)) = content_length p1 then good else indeterminate, p1))
          else (bad, p)
      | _ \<Rightarrow> \<comment> \<open>\<open>header_start\<close> and \<open>header_name\<close> share one branch\<close>
          if rstate p = header_start \<and> input = CHR '','' then
            (if netstring_length p = netstring_count p - 1 then
               (if content_length p > 0 then (indeterminate, p\<lparr>rstate := body_range\<rparr>) else (good, p))
             else (bad, p))
          else if netstring_count p < netstring_length p then
            (if input = CHR 0x00 then
               (if current_header p \<noteq> [] then (indeterminate, p\<lparr>rstate := header_value\<rparr>) else (bad, p))
             else (indeterminate, p\<lparr>current_header := current_header p @ [input]\<rparr>))
          else (bad, p))"

text \<open>
  \<open>parse\<close> consumes the whole buffer unless a byte is bad and returns the result of the last byte;
  on an empty buffer it returns an uninitialised variable (\<open>None\<close>).
\<close>

fun request_parse ::
  "lexical_cast \<Rightarrow> (string \<Rightarrow> string list) \<Rightarrow> string \<Rightarrow> result_type option \<Rightarrow> request_parser \<Rightarrow>
   result_type option \<times> request_parser" where
  "request_parse lc split [] result p = (result, p)"
| "request_parse lc split (c # cs) result p =
     (case request_consume lc split c p of
        (r, p') \<Rightarrow> if r = bad then (Some bad, p') else request_parse lc split cs (Some r) p')"


subsection \<open>What the parsers rely on\<close>

text \<open>
  Documented behaviour of \<open>boost::lexical_cast<size_t>\<close> on a string of decimal digits: the
  number it denotes, or \<open>bad_lexical_cast\<close> for the empty string and for a number \<open>size_t\<close>
  cannot hold. \<open>reference_cast\<close> is one function with this behaviour.
\<close>

definition lexical_cast_ok :: "lexical_cast \<Rightarrow> bool" where
  "lexical_cast_ok lc \<longleftrightarrow>
     (\<forall>s. list_all is_digit s \<longrightarrow>
        lc s = (if s \<noteq> [] \<and> read_digits s < 2 ^ 64 then Some (word_of_nat (read_digits s)) else None))"

definition reference_cast :: lexical_cast where
  "reference_cast s =
     (if s \<noteq> [] \<and> list_all is_digit s \<and> read_digits s < 2 ^ 64
      then Some (word_of_nat (read_digits s)) else None)"

lemma reference_cast_ok: "lexical_cast_ok reference_cast"
  by (simp add: lexical_cast_ok_def reference_cast_def)

lemma lexical_cast_digits:
  "lexical_cast_ok lc \<Longrightarrow> n < 2 ^ 64 \<Longrightarrow> lc (digits 10 n) = Some (word_of_nat n)"
  using digits_all_digits [of n]
  by (simp add: lexical_cast_ok_def list_all_iff read_digits_inverse)

lemma colon_no_digit [simp]: "\<not> is_digit (CHR '':'')"
  by (simp add: is_digit_def)

lemma unat_word64_of_nat [simp]: "n < 2 ^ 64 \<Longrightarrow> unat (word_of_nat n :: 64 word) = n"
  by (simp add: unsigned_of_nat take_bit_nat_eq_self)

lemma word64_of_nat_eq:
  "m < 2 ^ 64 \<Longrightarrow> n < 2 ^ 64 \<Longrightarrow> (word_of_nat m = (word_of_nat n :: 64 word)) = (m = n)"
  by (metis unat_word64_of_nat)

lemma word64_of_nat_eq_0: "n < 2 ^ 64 \<Longrightarrow> (word_of_nat n = (0 :: 64 word)) = (n = 0)"
  using word64_of_nat_eq [of n 0] by simp

lemma word64_of_nat_le:
  "m < 2 ^ 64 \<Longrightarrow> n < 2 ^ 64 \<Longrightarrow> (word_of_nat m \<le> (word_of_nat n :: 64 word)) = (m \<le> n)"
  by (simp only: word_le_nat_alt unat_word64_of_nat)

lemma word64_of_nat_less:
  "m < 2 ^ 64 \<Longrightarrow> n < 2 ^ 64 \<Longrightarrow> (word_of_nat m < (word_of_nat n :: 64 word)) = (m < n)"
  by (simp only: word_less_nat_alt unat_word64_of_nat)

lemmas word64_of_nat = word64_of_nat_eq_0 word64_of_nat_eq word64_of_nat_le word64_of_nat_less

subsection \<open>Runs of the Bencode parser\<close>

lemma bencode_digit_run:
  "bstate p = string_length \<Longrightarrow> list_all is_digit ds \<Longrightarrow>
   bencode_parse lc (ds @ rest) p = bencode_parse lc rest (p\<lparr>length_str := length_str p @ ds\<rparr>)"
  by (induction ds arbitrary: p) (simp_all add: bencode_consume_def)

lemma bencode_data_run:
  "bstate p = string_st \<Longrightarrow> blength p = word_of_nat (length s) \<Longrightarrow> s \<noteq> [] \<Longrightarrow> length s < 2 ^ 64 \<Longrightarrow>
   bencode_parse lc (s @ rest) p = ((good, rest), p\<lparr>data := data p @ s, blength := 0\<rparr>)"
proof (induction s arbitrary: p)
  case (Cons c s)
  let ?p = "p\<lparr>data := data p @ [c], blength := word_of_nat (length s)\<rparr>"
  have "blength p - 1 = word_of_nat (length s)" using Cons.prems by simp
  then have step: "bencode_consume lc c p = (if length s = 0 then good else indeterminate, ?p)"
    using Cons.prems by (simp add: bencode_consume_def Let_def word64_of_nat)
  show ?case
  proof (cases s)
    case Nil
    with step show ?thesis by simp
  next
    case (Cons d s')
    then have "bencode_parse lc ((c # s) @ rest) p = bencode_parse lc (s @ rest) ?p"
      using step by simp
    also have "\<dots> = ((good, rest), ?p\<lparr>data := data ?p @ s, blength := 0\<rparr>)"
      using Cons Cons.prems by (intro Cons.IH) simp_all
    finally show ?thesis by simp
  qed
qed simp

text \<open>A Bencode string \<open><size>:<bytes>\<close> is read back exactly, whatever follows it: the
  parser answers \<open>good\<close> at the end of the bytes and leaves the rest of the input untouched.\<close>

theorem bencode_round_trip:
  assumes "lexical_cast_ok lc" and "length s < 2 ^ 64"
  shows "\<exists>p. bencode_parse lc (digits 10 (length s) @ CHR '':'' # s @ rest) (new_bencode junk)
             = ((good, rest), p) \<and> data p = s"
proof -
  let ?n = "digits 10 (length s)"
  have "list_all is_digit ?n" using digits_all_digits by (simp add: list_all_iff)
  then have "bencode_parse lc (?n @ CHR '':'' # s @ rest) (new_bencode junk) =
      bencode_parse lc (CHR '':'' # s @ rest) ((new_bencode junk)\<lparr>length_str := ?n\<rparr>)"
    by (subst bencode_digit_run) (simp_all add: new_bencode_def bencode_reset_def)
  moreover have "bencode_consume lc (CHR '':'') ((new_bencode junk)\<lparr>length_str := ?n\<rparr>) =
      (if s = [] then good else indeterminate,
       (new_bencode junk)\<lparr>length_str := ?n, blength := word_of_nat (length s), bstate := string_st\<rparr>)"
    using assms
    by (simp add: bencode_consume_def new_bencode_def bencode_reset_def lexical_cast_digits
        word64_of_nat del: of_nat_Suc)
  ultimately show ?thesis
    using assms(2)
    by (cases "s = []") (simp_all add: bencode_data_run, simp_all add: new_bencode_def bencode_reset_def)
qed

theorem bencode_round_trip_witness:
  "\<exists>p. bencode_parse reference_cast (digits 10 (length ''ab'') @ CHR '':'' # ''ab'' @ ''x'') (new_bencode 7)
       = ((good, ''x''), p) \<and> data p = ''ab''"
  by (rule bencode_round_trip [OF reference_cast_ok]) simp


subsection \<open>Runs of the request parser\<close>

lemma request_parse_result:
  "cs \<noteq> [] \<Longrightarrow> request_parse lc split cs r p = request_parse lc split cs r' p"
  by (cases cs) simp_all

lemma of_nat_Suc_word: "word_of_nat n + 1 = (word_of_nat (Suc n) :: 64 word)"
  by simp

text \<open>One byte of a header name, one byte of a header value.\<close>

lemma consume_name_char:
  assumes "rstate p = header_start" "netstring_count p = word_of_nat n" "netstring_length p = word_of_nat L"
    "Suc n < L" "L < 2 ^ 64" "c \<noteq> CHR 0x00" "c \<noteq> CHR '',''"
  shows "request_consume lc split c p =
    (indeterminate, p\<lparr>netstring_count := word_of_nat (Suc n), current_header := current_header p @ [c]\<rparr>)"
  using assms by (simp add: request_consume_def Let_def of_nat_Suc_word word64_of_nat_less del: of_nat_Suc)

lemma consume_value_char:
  assumes "rstate p = header_value" "netstring_count p = word_of_nat n" "netstring_length p = word_of_nat L"
    "Suc n \<le> L" "L < 2 ^ 64" "c \<noteq> CHR 0x00"
  shows "request_consume lc split c p =
    (indeterminate, p\<lparr>netstring_count := word_of_nat (Suc n), current_value := current_value p @ [c]\<rparr>)"
  using assms by (simp add: request_consume_def Let_def of_nat_Suc_word word64_of_nat_le del: of_nat_Suc)

lemma name_run:
  assumes "rstate p = header_start" "netstring_count p = word_of_nat n" "netstring_length p = word_of_nat L"
    "n + length k < L" "L < 2 ^ 64" "CHR 0x00 \<notin> set k" "CHR '','' \<notin> set k" "rest \<noteq> []"
  shows "request_parse lc split (k @ rest) r p = request_parse lc split rest r
    (p\<lparr>netstring_count := word_of_nat (n + length k), current_header := current_header p @ k\<rparr>)"
  using assms
proof (induction k arbitrary: p n r)
  case (Cons c k)
  let ?p = "p\<lparr>netstring_count := word_of_nat (Suc n), current_header := current_header p @ [c]\<rparr>"
  have "request_parse lc split ((c # k) @ rest) r p = request_parse lc split (k @ rest) (Some indeterminate) ?p"
    using Cons.prems consume_name_char [of p n L c] by (simp add: eq_commute [of "CHR 0x00"] eq_commute [of "CHR '',''"] del: of_nat_Suc)
  also have "\<dots> = request_parse lc split rest (Some indeterminate)
      (?p\<lparr>netstring_count := word_of_nat (Suc n + length k), current_header := current_header ?p @ k\<rparr>)"
    using Cons.prems by (intro Cons.IH) (simp_all del: of_nat_Suc)
  also have "\<dots> = request_parse lc split rest r
      (?p\<lparr>netstring_count := word_of_nat (Suc n + length k), current_header := current_header ?p @ k\<rparr>)"
    using Cons.prems by (intro request_parse_result) simp
  finally show ?case by (simp del: of_nat_Suc of_nat_add)
next
  case Nil
  then show ?case by (cases p) simp
qed

lemma value_run:
  assumes "rstate p = header_value" "netstring_count p = word_of_nat n" "netstring_length p = word_of_nat L"
    "n + length v \<le> L" "L < 2 ^ 64" "CHR 0x00 \<notin> set v" "rest \<noteq> []"
  shows "request_parse lc split (v @ rest) r p = request_parse lc split rest r
    (p\<lparr>netstring_count := word_of_nat (n + length v), current_value := current_value p @ v\<rparr>)"
  using assms
proof (induction v arbitrary: p n r)
  case (Cons c k)
  let ?p = "p\<lparr>netstring_count := word_of_nat (Suc n), current_value := current_value p @ [c]\<rparr>"
  have "request_parse lc split ((c # k) @ rest) r p = request_parse lc split (k @ rest) (Some indeterminate) ?p"
    using Cons.prems consume_value_char [of p n L c] by (simp add: eq_commute [of "CHR 0x00"] eq_commute [of "CHR '',''"] del: of_nat_Suc)
  also have "\<dots> = request_parse lc split rest (Some indeterminate)
      (?p\<lparr>netstring_count := word_of_nat (Suc n + length k), current_value := current_value ?p @ k\<rparr>)"
    using Cons.prems by (intro Cons.IH) (simp_all del: of_nat_Suc)
  also have "\<dots> = request_parse lc split rest r
      (?p\<lparr>netstring_count := word_of_nat (Suc n + length k), current_value := current_value ?p @ k\<rparr>)"
    using Cons.prems by (intro request_parse_result) simp
  finally show ?case by (simp del: of_nat_Suc of_nat_add)
next
  case Nil
  then show ?case by (cases p) simp
qed

text \<open>A complete header \<open>name NUL value NUL\<close>, in the state the parser is in between headers.\<close>

definition between_headers :: "nat \<Rightarrow> nat \<Rightarrow> request_parser \<Rightarrow> bool" where
  "between_headers n L p \<longleftrightarrow>
     rstate p = header_start \<and> current_header p = [] \<and> current_value p = [] \<and>
     netstring_count p = word_of_nat n \<and> netstring_length p = word_of_nat L"

definition header_ok :: "string \<times> string \<Rightarrow> bool" where
  "header_ok h \<longleftrightarrow> fst h \<noteq> [] \<and> CHR 0x00 \<notin> set (fst h) \<and> CHR '','' \<notin> set (fst h) \<and> CHR 0x00 \<notin> set (snd h)"

definition encode_header :: "string \<times> string \<Rightarrow> string" where
  "encode_header h = fst h @ CHR 0x00 # snd h @ [CHR 0x00]"

lemma length_encode_header: "length (encode_header h) = length (fst h) + length (snd h) + 2"
  by (simp add: encode_header_def)

definition with_header :: "nat \<Rightarrow> string \<times> string \<Rightarrow> request_parser \<Rightarrow> request_parser" where
  "with_header n h p = p\<lparr>netstring_count := word_of_nat n, current_header := fst h, current_value := snd h,
     rstate := header_value\<rparr>"

lemma with_header_fields [simp]:
  "rstate (with_header n h p) = header_value" "netstring_count (with_header n h p) = word_of_nat n"
  "netstring_length (with_header n h p) = netstring_length p" "headers (with_header n h p) = headers p"
  "current_header (with_header n h p) = fst h" "current_value (with_header n h p) = snd h"
  "uri (with_header n h p) = uri p" "req_method (with_header n h p) = req_method p"
  "body (with_header n h p) = body p" "content_length (with_header n h p) = content_length p"
  by (simp_all add: with_header_def)

lemma header_run:
  assumes "between_headers n L p" "n + length (encode_header h) \<le> L" "L < 2 ^ 64" "header_ok h"
    "check_header lc (with_header (n + length (encode_header h)) h p) = Some p1"
  shows "request_parse lc split (encode_header h @ rest) r p =
    request_parse lc split rest (Some indeterminate) (store_header (apply_header split p1))"
proof -
  let ?k = "fst h" and ?v = "snd h"
  let ?n1 = "Suc (n + length ?k)"
  let ?n2 = "?n1 + length ?v"
  let ?p1 = "p\<lparr>netstring_count := word_of_nat (n + length ?k), current_header := ?k\<rparr>"
  let ?p2 = "p\<lparr>netstring_count := word_of_nat ?n1, current_header := ?k, rstate := header_value\<rparr>"
  let ?p3 = "?p2\<lparr>netstring_count := word_of_nat ?n2, current_value := ?v\<rparr>"
  note facts = assms(1-4) [unfolded between_headers_def header_ok_def encode_header_def]
  have "request_parse lc split (encode_header h @ rest) r p =
      request_parse lc split (CHR 0x00 # ?v @ CHR 0x00 # rest) r ?p1"
    using facts unfolding encode_header_def by (simp add: name_run [of p n L] del: of_nat_add of_nat_Suc)
  also have "request_consume lc split (CHR 0x00) ?p1 = (indeterminate, ?p2)"
    using facts
    by (simp add: request_consume_def Let_def of_nat_Suc_word word64_of_nat_less del: of_nat_add of_nat_Suc)
  then have "request_parse lc split (CHR 0x00 # ?v @ CHR 0x00 # rest) r ?p1 =
      request_parse lc split (?v @ CHR 0x00 # rest) (Some indeterminate) ?p2" by simp
  also have "\<dots> = request_parse lc split (CHR 0x00 # rest) (Some indeterminate) ?p3"
    using facts by (subst value_run [of ?p2 ?n1 L]) (simp_all del: of_nat_add of_nat_Suc)
  also have "?p3\<lparr>netstring_count := word_of_nat (Suc ?n2)\<rparr> = with_header (n + length (encode_header h)) h p"
    by (simp add: with_header_def encode_header_def add.assoc del: of_nat_add of_nat_Suc)
  then have "request_consume lc split (CHR 0x00) ?p3 = (indeterminate, store_header (apply_header split p1))"
    using facts assms(5)
    by (simp add: request_consume_def Let_def of_nat_Suc_word word64_of_nat_le encode_header_def
        del: of_nat_add of_nat_Suc)
  then have "request_parse lc split (CHR 0x00 # rest) (Some indeterminate) ?p3 =
      request_parse lc split rest (Some indeterminate) (store_header (apply_header split p1))" by simp
  finally show ?thesis .
qed

subsection \<open>A well-formed request is accepted\<close>

lemma AList_update_new: "k \<notin> fst ` set al \<Longrightarrow> AList.update k v al = al @ [(k, v)]"
  by (induction al) auto

definition named_method :: "string \<Rightarrow> method_type \<Rightarrow> method_type" where
  "named_method v m =
     (if v = ''GET'' then get else if v = ''PUT'' then put else if v = ''POST'' then post else m)"

definition media_type :: "(string \<Rightarrow> string list) \<Rightarrow> string \<Rightarrow> string \<Rightarrow> string" where
  "media_type split v t = (case split v of [] \<Rightarrow> t | u # _ \<Rightarrow> u)"

lemma stored_fields:
  fixes p :: request_parser
  shows "headers (store_header (apply_header split p)) = AList.update (current_header p) (current_value p) (headers p)"
  and "current_header (store_header (apply_header split p)) = []"
  and "current_value (store_header (apply_header split p)) = []"
  and "rstate (store_header (apply_header split p)) = header_start"
  and "body (store_header (apply_header split p)) = body p"
  and "content_length (store_header (apply_header split p)) = content_length p"
  and "netstring_count (store_header (apply_header split p)) = netstring_count p"
  and "netstring_length (store_header (apply_header split p)) = netstring_length p"
  and "req_method (store_header (apply_header split p)) =
         (if current_header p = ''REQUEST_METHOD'' then named_method (current_value p) (req_method p) else req_method p)"
  and "uri (store_header (apply_header split p)) =
         (if current_header p = ''REQUEST_URI'' then current_value p else uri p)"
  and "content_type (store_header (apply_header split p)) =
         (if current_header p = ''CONTENT_TYPE'' then media_type split (current_value p) (content_type p)
          else content_type p)"
  by (simp_all add: store_header_def apply_header_def named_method_def media_type_def split: list.split)

lemma content_type_with_header [simp]: "content_type (with_header n h p) = content_type p"
  by (simp add: with_header_def)

text \<open>What a list of headers makes of a request: the value of the named header, or the default.\<close>

definition header_or :: "(string \<times> string) list \<Rightarrow> string \<Rightarrow> (string \<Rightarrow> 'a) \<Rightarrow> 'a \<Rightarrow> 'a" where
  "header_or hs k f d = (case map_of hs k of None \<Rightarrow> d | Some v \<Rightarrow> f v)"

definition request_effect ::
  "(string \<Rightarrow> string list) \<Rightarrow> (string \<times> string) list \<Rightarrow> request_parser \<Rightarrow> request_parser \<Rightarrow> bool" where
  "request_effect split hs p p' \<longleftrightarrow>
     headers p' = headers p @ hs \<and> body p' = body p \<and>
     req_method p' = header_or hs ''REQUEST_METHOD'' (\<lambda>v. named_method v (req_method p)) (req_method p) \<and>
     uri p' = header_or hs ''REQUEST_URI'' (\<lambda>v. v) (uri p) \<and>
     content_type p' = header_or hs ''CONTENT_TYPE'' (\<lambda>v. media_type split v (content_type p)) (content_type p)"

lemma request_effect_refl: "request_effect split [] p p"
  by (simp add: request_effect_def header_or_def)

lemma request_effect_step:
  assumes "request_effect split hs p1 p'" "fst h \<notin> fst ` set (headers p @ hs)"
    "p1 = store_header (apply_header split p0)"
    "current_header p0 = fst h" "current_value p0 = snd h" "headers p0 = headers p" "body p0 = body p"
    "req_method p0 = req_method p" "uri p0 = uri p" "content_type p0 = content_type p"
  shows "request_effect split (h # hs) p p'"
proof -
  obtain k v where [simp]: "h = (k, v)" by (cases h)
  have k: "map_of hs k = None" "k \<notin> fst ` set (headers p)" "current_header p0 = k" "current_value p0 = v"
    using assms(2,4,5) by (auto simp: map_of_eq_None_iff)
  note same = k(3,4) assms(6-10)
  have p1: "headers p1 = headers p @ [(k, v)]" "body p1 = body p"
    "req_method p1 = (if k = ''REQUEST_METHOD'' then named_method v (req_method p) else req_method p)"
    "uri p1 = (if k = ''REQUEST_URI'' then v else uri p)"
    "content_type p1 = (if k = ''CONTENT_TYPE'' then media_type split v (content_type p) else content_type p)"
    unfolding assms(3) stored_fields same by (simp_all add: AList_update_new k(2))
  note eff = assms(1) [unfolded request_effect_def p1 header_or_def]
  show ?thesis
    unfolding request_effect_def header_or_def
    using eff k(1) by (cases "k = ''REQUEST_METHOD''"; cases "k = ''REQUEST_URI''"; cases "k = ''CONTENT_TYPE''") auto
qed

lemma headers_run:
  assumes "between_headers n L p" "n + length (concat (map encode_header hs)) \<le> L" "L < 2 ^ 64"
    "list_all header_ok hs" "distinct (map fst (headers p @ hs))" "2 \<le> length (headers p)" "rest \<noteq> []"
  shows "\<exists>p'. request_parse lc split (concat (map encode_header hs) @ rest) r p = request_parse lc split rest r p'
    \<and> between_headers (n + length (concat (map encode_header hs))) L p' \<and> request_effect split hs p p'
    \<and> content_length p' = content_length p"
  using assms
proof (induction hs arbitrary: n p r)
  case Nil
  then show ?case by (auto intro: request_effect_refl)
next
  case (Cons h hs)
  let ?n = "n + length (encode_header h)"
  let ?p0 = "with_header ?n h p"
  let ?p1 = "store_header (apply_header split ?p0)"
  have "check_header lc ?p0 = Some ?p0" using Cons.prems(6) by (auto simp: check_header_def)
  then have step: "request_parse lc split (encode_header h @ cs) r p =
      request_parse lc split cs (Some indeterminate) ?p1" for cs
    using Cons.prems by (intro header_run) auto
  have hd: "headers ?p1 = headers p @ [h]"
    using Cons.prems(5) by (auto simp: stored_fields AList_update_new)
  have b1: "between_headers ?n L ?p1"
    using Cons.prems(1) by (simp add: between_headers_def stored_fields)
  obtain p' where p': "request_parse lc split (concat (map encode_header hs) @ rest) (Some indeterminate) ?p1
      = request_parse lc split rest (Some indeterminate) p'"
    "between_headers (?n + length (concat (map encode_header hs))) L p'"
    "request_effect split hs ?p1 p'" "content_length p' = content_length ?p1"
    using Cons.IH [OF b1, of "Some indeterminate"] Cons.prems hd by auto
  have "request_effect split (h # hs) p p'"
    using p'(3) Cons.prems(5) by (intro request_effect_step [of split hs ?p1 p' h p ?p0]) auto
  moreover have "request_parse lc split rest (Some indeterminate) p' = request_parse lc split rest r p'"
    using Cons.prems(7) by (rule request_parse_result)
  ultimately show ?case
    using step [of "concat (map encode_header hs) @ rest"] p'(1,2,4)
    by (intro exI [of _ p']) (simp add: stored_fields add.assoc)
qed


definition netstring :: "string \<Rightarrow> string" where
  "netstring s = digits 10 (length s) @ CHR '':'' # s @ [CHR '','']"

definition encode_request :: "(string \<times> string) list \<Rightarrow> string \<Rightarrow> string" where
  "encode_request hs b = netstring (concat (map encode_header hs)) @ b"

definition request_headers :: "string \<Rightarrow> (string \<times> string) list \<Rightarrow> (string \<times> string) list" where
  "request_headers b hs = (''CONTENT_LENGTH'', digits 10 (length b)) # (''SCGI'', ''1'') # hs"

lemma length_digit_run:
  "rstate p = netstring_length_st \<Longrightarrow> list_all is_digit ds \<Longrightarrow>
   \<exists>c r'. request_parse lc split (ds @ rest) r p =
     request_parse lc split rest r' (p\<lparr>netstring_count := c, netstring_length_str := netstring_length_str p @ ds\<rparr>)"
proof (induction ds arbitrary: p r)
  case Nil
  show ?case by (intro exI [of _ "netstring_count p"] exI [of _ r]) (cases p, simp)
next
  case (Cons d ds)
  show ?case
    using Cons.prems
      Cons.IH [of "p\<lparr>netstring_count := netstring_count p + 1,
        netstring_length_str := netstring_length_str p @ [d]\<rparr>" "Some indeterminate"]
    by (simp add: request_consume_def Let_def)
qed

lemma netstring_start:
  assumes "lexical_cast_ok lc" "rstate p = netstring_length_st" "netstring_length_str p = []"
    "current_header p = []" "current_value p = []" "n < 2 ^ 64"
  shows "\<exists>p1. request_parse lc split (digits 10 n @ CHR '':'' # rest) r p =
      request_parse lc split rest (Some indeterminate) p1 \<and> between_headers 0 n p1 \<and>
      headers p1 = headers p \<and> body p1 = body p \<and> req_method p1 = req_method p \<and> uri p1 = uri p \<and>
      content_type p1 = content_type p"
proof -
  have dd: "list_all is_digit (digits 10 n)" using digits_all_digits by (simp add: list_all_iff)
  from length_digit_run [OF assms(2) dd, of lc split "CHR '':'' # rest" r] assms(3)
  obtain c r' where "request_parse lc split (digits 10 n @ CHR '':'' # rest) r p =
     request_parse lc split (CHR '':'' # rest) r' (p\<lparr>netstring_count := c, netstring_length_str := digits 10 n\<rparr>)"
    by auto
  then have "request_parse lc split (digits 10 n @ CHR '':'' # rest) r p = request_parse lc split rest
      (Some indeterminate) (p\<lparr>netstring_length_str := digits 10 n, netstring_length := word_of_nat n,
        netstring_count := 0, rstate := header_start\<rparr>)"
    using assms lexical_cast_digits [OF assms(1,6)] by (simp add: request_consume_def Let_def)
  then show ?thesis
    by (intro exI conjI) (assumption | simp add: between_headers_def assms)+
qed

lemma body_run:
  assumes "rstate p = body_range" "content_length p = word_of_nat n" "length (body p) + length b = n"
    "b \<noteq> []" "n < 2 ^ 64"
  shows "request_parse lc split b r p =
    (Some good, p\<lparr>netstring_count := netstring_count p + word_of_nat (length b), body := body p @ b\<rparr>)"
  using assms
proof (induction b arbitrary: p r)
  case (Cons c b)
  let ?p = "p\<lparr>netstring_count := netstring_count p + 1, body := body p @ [c]\<rparr>"
  have step: "request_consume lc split c p = (if b = [] then good else indeterminate, ?p)"
    using Cons.prems
    by (auto simp: request_consume_def Let_def word64_of_nat_le word64_of_nat_eq
        simp del: of_nat_Suc of_nat_add)
  show ?case
  proof (cases b)
    case Nil
    with step show ?thesis by simp
  next
    case (Cons d b')
    then have "request_parse lc split (c # b) r p = request_parse lc split b (Some indeterminate) ?p"
      using step by simp
    also have "\<dots> = (Some good, ?p\<lparr>netstring_count := netstring_count ?p + word_of_nat (length b), body := body ?p @ b\<rparr>)"
      using Cons Cons.prems by (intro Cons.IH) auto
    finally show ?thesis by (simp add: ac_simps)
  qed
qed simp

text \<open>The two mandatory headers.\<close>

lemma mandatory_headers:
  assumes "lexical_cast_ok lc" "between_headers 0 L p" "headers p = []" "m < 2 ^ 64" "L < 2 ^ 64"
    "h1 = (''CONTENT_LENGTH'', digits 10 m)" "h2 = (''SCGI'', ''1'')"
    "length (encode_header h1 @ encode_header h2) \<le> L"
  shows "\<exists>p2. request_parse lc split (encode_header h1 @ encode_header h2 @ rest) r p =
      request_parse lc split rest (Some indeterminate) p2 \<and>
      between_headers (length (encode_header h1 @ encode_header h2)) L p2 \<and>
      request_effect split [h1, h2] p p2 \<and> content_length p2 = word_of_nat m"
proof -
  let ?n1 = "0 + length (encode_header h1)"
  let ?n2 = "?n1 + length (encode_header h2)"
  let ?q1 = "(with_header ?n1 h1 p)\<lparr>content_length := word_of_nat m\<rparr>"
  let ?p1 = "store_header (apply_header split ?q1)"
  let ?q2 = "with_header ?n2 h2 ?p1"
  let ?p2 = "store_header (apply_header split ?q2)"
  have dd: "CHR 0x00 \<notin> set (digits 10 m)"
    using digits_all_digits [of m] by (auto simp: is_digit_def)
  have ok1: "header_ok h1" and ok2: "header_ok h2"
    using assms(6,7) dd by (simp_all add: header_ok_def)
  have c1: "check_header lc (with_header ?n1 h1 p) = Some ?q1"
    using assms(3,6) lexical_cast_digits [OF assms(1,4)] by (simp add: check_header_def)
  have r1: "request_parse lc split (encode_header h1 @ cs) r p = request_parse lc split cs (Some indeterminate) ?p1" for cs
    using assms(2,5,8) ok1 c1 by (intro header_run) auto
  have h1: "headers ?p1 = [h1]"
    using assms(3,6) by (simp add: stored_fields)
  have c2: "check_header lc ?q2 = Some ?q2" using h1 assms(7) by (simp add: check_header_def)
  have b1: "between_headers ?n1 L ?p1" using assms(2) by (simp add: between_headers_def stored_fields)
  have r2: "request_parse lc split (encode_header h2 @ rest) (Some indeterminate) ?p1 =
      request_parse lc split rest (Some indeterminate) ?p2"
    using assms(5,8) ok2 c2 by (intro header_run [OF b1]) auto
  have b2: "between_headers ?n2 L ?p2"
    using b1 by (simp add: between_headers_def stored_fields)
  have h2: "headers ?p2 = [h1, h2]" "body ?p2 = body p" "req_method ?p2 = req_method p" "uri ?p2 = uri p"
    "content_type ?p2 = content_type p" "content_length ?p2 = word_of_nat m"
    using assms(3,6,7) by (simp_all add: stored_fields)
  then have "request_effect split [h1, h2] p ?p2"
    using assms(3,6,7) by (simp add: request_effect_def header_or_def)
  with r1 r2 b2 h2(6) show ?thesis by (intro exI [of _ ?p2]) simp
qed

lemma request_effect_append:
  assumes "request_effect split hs p p1" "request_effect split hs' p1 p2"
    "map_of hs ''REQUEST_METHOD'' = None" "map_of hs ''REQUEST_URI'' = None" "map_of hs ''CONTENT_TYPE'' = None"
  shows "request_effect split (hs @ hs') p p2"
proof -
  have "map_of (hs @ hs') k = map_of hs' k" if "map_of hs k = None" for k
    using that by (simp add: map_add_def split: option.split)
  with assms show ?thesis
    unfolding request_effect_def header_or_def by (simp cong: option.case_cong)
qed

text \<open>The state a parser is left in by an accepted request.\<close>

definition request_done :: "(string \<times> string) list \<Rightarrow> string \<Rightarrow> request_parser \<Rightarrow> bool" where
  "request_done hs b p \<longleftrightarrow>
     (if b = [] then rstate p = header_start \<and>
        netstring_length p = word_of_nat (length (concat (map encode_header hs))) \<and>
        netstring_count p = netstring_length p + 1
      else rstate p = body_range \<and> content_length p = word_of_nat (length b) \<and> body p = b)"

lemma request_parse_append:
  "fst (request_parse lc split cs r p) \<noteq> Some bad \<Longrightarrow>
   request_parse lc split (cs @ ds) r p =
     (case request_parse lc split cs r p of (r', p') \<Rightarrow> request_parse lc split ds r' p')"
  by (induction cs arbitrary: r p) (auto split: prod.splits)

text \<open>Whatever follows is rejected, at its second byte if there was a body.\<close>

lemma request_done_next:
  assumes "request_done hs b p" "length (concat (map encode_header hs)) < 2 ^ 64 - 2" "length b < 2 ^ 64 - 1"
    "c \<noteq> CHR '',''" "cs \<noteq> []"
  shows "fst (request_parse lc split (c # cs) r p) = Some bad"
proof (cases "b = []")
  case True
  let ?L = "length (concat (map encode_header hs))"
  have len: "netstring_length p = word_of_nat ?L" and cnt: "netstring_count p + 1 = word_of_nat (?L + 2)"
    using True assms(1) by (simp_all add: request_done_def)
  have "\<not> word_of_nat (?L + 2) < (word_of_nat ?L :: 64 word)"
    using assms(2) by (subst word64_of_nat_less) simp_all
  then have "\<not> netstring_count p + 1 < netstring_length p" by (simp only: len cnt) simp
  with True assms(1,4) have "fst (request_consume lc split c p) = bad"
    by (simp add: request_consume_def Let_def request_done_def)
  then show ?thesis by (cases "request_consume lc split c p") simp
next
  case False
  obtain d ds where cs: "cs = d # ds" using assms(5) by (cases cs) auto
  let ?p = "p\<lparr>netstring_count := netstring_count p + 1, body := b @ [c]\<rparr>"
  have n: "Suc (length b) < 2 ^ 64" using assms(3) by simp
  have fin: "rstate p = body_range" "content_length p = word_of_nat (length b)" "body p = b"
    using assms(1) False by (simp_all add: request_done_def)
  have "word_of_nat (Suc (length b)) \<noteq> (word_of_nat (length b) :: 64 word)"
    using n by (subst word64_of_nat_eq) simp_all
  then have 1: "request_consume lc split c p = (indeterminate, ?p)"
    using fin by (simp add: request_consume_def Let_def)
  have "\<not> word_of_nat (Suc (length b)) \<le> (word_of_nat (length b) :: 64 word)"
    using n by (subst word64_of_nat_le) simp_all
  then have "fst (request_consume lc split d ?p) = bad"
    using fin by (simp add: request_consume_def Let_def del: of_nat_Suc)
  with 1 show ?thesis by (cases "request_consume lc split d ?p") (simp add: cs)
qed

lemma encode_request_first: "\<exists>c cs. encode_request hs b = c # cs \<and> c \<noteq> CHR '','' \<and> cs \<noteq> []"
proof -
  obtain c cs where d: "digits 10 (length (concat (map encode_header hs))) = c # cs"
    using digits_not_Nil by (meson list.exhaust)
  then have "is_digit c" using digits_all_digits by (metis list.set_intros(1))
  then show ?thesis by (auto simp: encode_request_def netstring_def d is_digit_def)
qed

lemma accepted_run:
  assumes "lexical_cast_ok lc"
    and "hs = request_headers b rest" and "distinct (map fst hs)" and "list_all header_ok hs"
    and "length (concat (map encode_header hs)) < 2 ^ 64" and "length b < 2 ^ 64"
  shows "\<exists>p. request_parse lc split (encode_request hs b) None (new_request_parser junk1 junk2) = (Some good, p)
    \<and> request_done hs b p \<and> headers p = hs \<and> body p = b
    \<and> req_method p = header_or hs ''REQUEST_METHOD'' (\<lambda>v. named_method v undefined_m) undefined_m
    \<and> uri p = header_or hs ''REQUEST_URI'' (\<lambda>v. v) []
    \<and> content_type p = header_or hs ''CONTENT_TYPE'' (\<lambda>v. media_type split v []) []"
proof -
  define h1 h2 where h: "h1 = (''CONTENT_LENGTH'', digits 10 (length b))" "h2 = (''SCGI'', ''1'')"
  define L where "L = length (concat (map encode_header hs))"
  have hs: "hs = h1 # h2 # rest" using assms(2) by (simp add: request_headers_def h)
  let ?hs = "concat (map encode_header rest)"
  let ?p = "new_request_parser junk1 junk2"
  have L: "L = length (encode_header h1 @ encode_header h2) + length ?hs" "L < 2 ^ 64"
    using assms(5) by (simp_all add: L_def hs)
  have input: "encode_request hs b =
      digits 10 L @ CHR '':'' # encode_header h1 @ encode_header h2 @ ?hs @ CHR '','' # b"
    by (simp add: encode_request_def netstring_def L_def hs)
  have new: "rstate ?p = netstring_length_st" "netstring_length_str ?p = []" "current_header ?p = []"
    "current_value ?p = []" "headers ?p = []" "body ?p = []" "req_method ?p = undefined_m" "uri ?p = []"
    "content_type ?p = []"
    by (simp_all add: new_request_parser_def request_reset_def)
  note empty = new(5-9)
  obtain p1 where p1: "\<And>cs. cs = encode_header h1 @ encode_header h2 @ ?hs @ CHR '','' # b \<Longrightarrow>
      request_parse lc split (digits 10 L @ CHR '':'' # cs) None ?p = request_parse lc split cs (Some indeterminate) p1"
    and b1: "between_headers 0 L p1" and f1: "headers p1 = []" "body p1 = []" "req_method p1 = undefined_m"
    "uri p1 = []" "content_type p1 = []"
    using netstring_start [OF assms(1) new(1-4) L(2), of split _ None] unfolding empty by blast
  obtain p2 where p2: "request_parse lc split (encode_header h1 @ encode_header h2 @ ?hs @ CHR '','' # b) (Some indeterminate) p1
      = request_parse lc split (?hs @ CHR '','' # b) (Some indeterminate) p2"
    and b2: "between_headers (length (encode_header h1 @ encode_header h2)) L p2"
    and e2: "request_effect split [h1, h2] p1 p2" and l2: "content_length p2 = word_of_nat (length b)"
    using mandatory_headers [OF assms(1) b1 f1(1) assms(6) L(2) h, where split = split and
        r = "Some indeterminate" and rest = "?hs @ CHR '','' # b"] L(1) by auto
  have hd2: "headers p2 = [h1, h2]" using e2 f1(1) by (simp add: request_effect_def)
  obtain p3 where p3: "request_parse lc split (?hs @ CHR '','' # b) (Some indeterminate) p2 =
      request_parse lc split (CHR '','' # b) (Some indeterminate) p3"
    and b3: "between_headers L L p3" and e3: "request_effect split rest p2 p3"
    and l3: "content_length p3 = word_of_nat (length b)"
    using headers_run [OF b2, of rest "CHR '','' # b" lc split "Some indeterminate"] L assms(3,4) hs hd2 l2 by auto
  have "request_effect split ([h1, h2] @ rest) p1 p3"
    by (rule request_effect_append [OF e2 e3]) (simp_all add: h)
  then have e: "request_effect split hs p1 p3" by (simp add: hs)
  let ?p4 = "p3\<lparr>netstring_count := netstring_count p3 + 1, rstate := body_range\<rparr>"
  have run: "request_parse lc split (encode_request hs b) None ?p =
      request_parse lc split (CHR '','' # b) (Some indeterminate) p3"
    using p1 p2 p3 by (simp add: input)
  show ?thesis
  proof (cases "b = []")
    case True
    then have "request_consume lc split (CHR '','') p3 = (good, p3\<lparr>netstring_count := netstring_count p3 + 1\<rparr>)"
      using b3 l3 by (simp add: request_consume_def Let_def between_headers_def)
    with run True e f1 b3 show ?thesis
      by (simp add: request_effect_def request_done_def between_headers_def L_def cong: option.case_cong)
  next
    case False
    then have "request_consume lc split (CHR '','') p3 = (indeterminate, ?p4)"
      using b3 l3 assms(6)
      by (simp add: request_consume_def Let_def between_headers_def word64_of_nat_eq_0 flip: word_neq_0_conv)
    moreover have "request_parse lc split b (Some indeterminate) ?p4 =
        (Some good, ?p4\<lparr>netstring_count := netstring_count ?p4 + word_of_nat (length b), body := body ?p4 @ b\<rparr>)"
      using False l3 e f1 assms(6) by (intro body_run [of _ "length b"]) (simp_all add: request_effect_def)
    ultimately show ?thesis
      using run e f1 l3 False by (simp add: request_effect_def request_done_def cong: option.case_cong)
  qed
qed

text \<open>
  C37. A request whose first two headers are \<open>CONTENT_LENGTH\<close> (the size of the body) and
  \<open>SCGI = 1\<close>, whose header names are distinct, non-empty and free of commas and NUL bytes and
  whose values are free of NUL bytes, is accepted at its last byte by a fresh parser, and the
  parser then holds exactly the headers, the body, the method, the URI and the content type that
  were sent.
\<close>

theorem request_accepted:
  assumes "lexical_cast_ok lc"
    and "hs = request_headers b rest" and "distinct (map fst hs)" and "list_all header_ok hs"
    and "length (concat (map encode_header hs)) < 2 ^ 64" and "length b < 2 ^ 64"
  shows "\<exists>p. request_parse lc split (encode_request hs b) None (new_request_parser junk1 junk2) = (Some good, p)
    \<and> headers p = hs \<and> body p = b
    \<and> req_method p = header_or hs ''REQUEST_METHOD'' (\<lambda>v. named_method v undefined_m) undefined_m
    \<and> uri p = header_or hs ''REQUEST_URI'' (\<lambda>v. v) []
    \<and> content_type p = header_or hs ''CONTENT_TYPE'' (\<lambda>v. media_type split v []) []"
proof -
  from accepted_run [OF assms, of split junk1 junk2] show ?thesis by blast
qed

definition sample_headers :: "(string \<times> string) list" where
  "sample_headers = [(''REQUEST_METHOD'', ''PUT''), (''REQUEST_URI'', ''/a:b''), (''CONTENT_TYPE'', ''t'')]"

lemma header_ok_digits: "header_ok (''CONTENT_LENGTH'', digits 10 n)"
  using digits_all_digits [of n] by (auto simp: header_ok_def is_digit_def)

lemma sample_request_ok:
  "distinct (map fst (request_headers ''xy'' sample_headers))"
  "list_all header_ok (request_headers ''xy'' sample_headers)"
  "length (concat (map encode_header (request_headers ''xy'' sample_headers))) = 75"
proof -
  show "distinct (map fst (request_headers ''xy'' sample_headers))"
    by (simp add: request_headers_def sample_headers_def)
  show "list_all header_ok (request_headers ''xy'' sample_headers)"
    by (simp add: request_headers_def sample_headers_def header_ok_digits) (simp add: header_ok_def)
  show "length (concat (map encode_header (request_headers ''xy'' sample_headers))) = 75" by code_simp
qed

theorem request_accepted_witness:
  "\<exists>p. request_parse reference_cast (\<lambda>s. [s]) (encode_request (request_headers ''xy'' sample_headers) ''xy'') None
        (new_request_parser 1 2) = (Some good, p)
    \<and> headers p = request_headers ''xy'' sample_headers \<and> body p = ''xy''
    \<and> req_method p = header_or (request_headers ''xy'' sample_headers) ''REQUEST_METHOD''
        (\<lambda>v. named_method v undefined_m) undefined_m
    \<and> uri p = header_or (request_headers ''xy'' sample_headers) ''REQUEST_URI'' (\<lambda>v. v) []
    \<and> content_type p = header_or (request_headers ''xy'' sample_headers) ''CONTENT_TYPE''
        (\<lambda>v. media_type (\<lambda>s. [s]) v []) []"
  by (rule request_accepted [OF reference_cast_ok refl sample_request_ok(1,2)])
    (simp_all add: sample_request_ok(3))

text \<open>
  The parser cannot take a second request unless it is reset: after an accepted request,
  any next request - in the same buffer or in a later one - is answered \<open>bad\<close>. Even the
  one byte too many after a complete body is stored, not rejected (the test
  \<open>body.size() <= content_length_\<close>), and turns \<open>good\<close> back into \<open>indeterminate\<close>.
\<close>

theorem second_request_rejected:
  assumes "lexical_cast_ok lc"
    and "hs = request_headers b rest" and "distinct (map fst hs)" and "list_all header_ok hs"
    and "length (concat (map encode_header hs)) < 2 ^ 64 - 2" and "length b < 2 ^ 64 - 1"
  shows "\<exists>p. request_parse lc split (encode_request hs b) None (new_request_parser junk1 junk2) = (Some good, p)
    \<and> fst (request_parse lc split (encode_request hs2 b2) r p) = Some bad
    \<and> fst (request_parse lc split (encode_request hs b @ encode_request hs2 b2) None
          (new_request_parser junk1 junk2)) = Some bad
    \<and> (b = [] \<or> fst (request_parse lc split (encode_request hs b @ [x]) None
          (new_request_parser junk1 junk2)) = Some indeterminate)"
proof -
  let ?L = "length (concat (map encode_header hs))"
  have L: "?L < 2 ^ 64" and b: "length b < 2 ^ 64" using assms(5,6) by simp_all
  obtain p where p: "request_parse lc split (encode_request hs b) None (new_request_parser junk1 junk2) = (Some good, p)"
    and d: "request_done hs b p"
    using accepted_run [OF assms(1-4) L b, of split junk1 junk2] by auto
  obtain c cs where nxt: "encode_request hs2 b2 = c # cs" and c: "c \<noteq> CHR '',''" and cs: "cs \<noteq> []"
    using encode_request_first [of hs2 b2] by blast
  have 1: "fst (request_parse lc split (encode_request hs2 b2) r p) = Some bad" for r
    unfolding nxt by (rule request_done_next [OF d assms(5,6) c cs])
  have 2: "fst (request_consume lc split x p) = indeterminate" if "b \<noteq> []"
    using d that word64_of_nat_eq [of "Suc (length b)" "length b"] assms(6)
    by (simp add: request_done_def request_consume_def Let_def)
  show ?thesis
    using p 1 2
    by (intro exI [of _ p], cases "b = []"; cases "request_consume lc split x p")
      (simp_all add: request_parse_append)
qed

theorem second_request_rejected_witness:
  "\<exists>p. request_parse reference_cast (\<lambda>s. [s]) (encode_request (request_headers ''xy'' sample_headers) ''xy'') None
        (new_request_parser 1 2) = (Some good, p)
    \<and> fst (request_parse reference_cast (\<lambda>s. [s]) (encode_request sample_headers []) None p) = Some bad
    \<and> fst (request_parse reference_cast (\<lambda>s. [s])
          (encode_request (request_headers ''xy'' sample_headers) ''xy'' @ encode_request sample_headers [])
          None (new_request_parser 1 2)) = Some bad
    \<and> (''xy'' = [] \<or> fst (request_parse reference_cast (\<lambda>s. [s])
          (encode_request (request_headers ''xy'' sample_headers) ''xy'' @ [CHR ''z'']) None
          (new_request_parser 1 2)) = Some indeterminate)"
  by (rule second_request_rejected [OF reference_cast_ok refl sample_request_ok(1,2)])
    (simp_all add: sample_request_ok(3))


end
