(* ===== verification/Conversion.thy ===== *)
theory Conversion
  imports Ieee754
begin

text \<open>
  Conversion between the C++ types of parameters and the generic values of the client contexts
  (\<open>include/decof/conversion.h\<close>). A template specialization is a case on a description
  \<open>ctype\<close> of the C++ type; the values of those types live in the universe \<open>cval\<close>.
  \<open>big\<close> is the byte order of the host. Types the header rejects at compile time (a nested
  container, \<open>long double\<close>, \<open>const char*\<close> as a target) are excluded by \<open>type_ok\<close>.
\<close>

subsection \<open>Byte order and object representations\<close>

fun le_bytes :: "nat \<Rightarrow> nat \<Rightarrow> string" where
  "le_bytes 0 n = []"
| "le_bytes (Suc k) n = char_of (n mod 256) # le_bytes k (n div 256)"

fun of_le :: "string \<Rightarrow> nat" where
  "of_le [] = 0"
| "of_le (c # cs) = of_char c + 256 * of_le cs"

definition native_bytes :: "bool \<Rightarrow> nat \<Rightarrow> nat \<Rightarrow> string" where
  "native_bytes big k n = (if big then rev (le_bytes k n) else le_bytes k n)"

definition of_native :: "bool \<Rightarrow> string \<Rightarrow> nat" where
  "of_native big s = of_le (if big then rev s else s)"

lemma length_le_bytes [simp]: "length (le_bytes k n) = k"
  by (induction k arbitrary: n) auto

lemma length_native_bytes [simp]: "length (native_bytes big k n) = k"
  by (simp add: native_bytes_def)

lemma of_le_bytes: "of_le (le_bytes k n) = n mod 256 ^ k"
  by (induction k arbitrary: n) (simp_all add: of_char_of mod_mult2_eq)

lemma of_native_bytes: "of_native big (native_bytes big k n) = n mod 256 ^ k"
  by (simp add: of_native_def native_bytes_def of_le_bytes)

lemma le_bytes_of_le: "le_bytes (length s) (of_le s) = s"
proof (induction s)
  case (Cons c s)
  have "(of_char c + 256 * of_le s) div 256 = of_le s" using byte_lt [of c] by linarith
  then show ?case using Cons by simp
qed simp

lemma native_bytes_of_native: "native_bytes big (length s) (of_native big s) = s"
  using le_bytes_of_le [of s] le_bytes_of_le [of "rev s"]
  by (simp add: of_native_def native_bytes_def)

subsection \<open>C++ types and values\<close>

text \<open>
  \<open>CInt s b\<close> is the integral type of \<open>b\<close> bits, signed or not; \<open>COther n\<close> any other type
  of \<open>n\<close> bytes, which only the primary template handles.
\<close>

datatype ctype =
    CBool | CInt bool nat | CFloat | CDouble | CString | CCharPtr | COther nat
  | CArray ctype nat | CSequence ctype | CTuple "ctype list"

datatype cval =
    VBool bool | VInt int | VFloat "32 word" | VDouble "64 word" | VString string | VOther string
  | VList "cval list"

definition int_min :: "bool \<Rightarrow> nat \<Rightarrow> int" where
  "int_min s b = (if s then - (2 ^ (b - 1)) else 0)"

definition int_max :: "bool \<Rightarrow> nat \<Rightarrow> int" where
  "int_max s b = (if s then 2 ^ (b - 1) - 1 else 2 ^ b - 1)"

definition width_ok :: "nat \<Rightarrow> bool" where
  "width_ok b \<longleftrightarrow> b = 8 \<or> b = 16 \<or> b = 32 \<or> b = 64"

fun scalar_ok :: "ctype \<Rightarrow> bool" where
  "scalar_ok (CInt s b) = width_ok b"
| "scalar_ok (CArray t n) = False"
| "scalar_ok (CSequence t) = False"
| "scalar_ok (CTuple ts) = False"
| "scalar_ok t = True"

fun type_ok :: "ctype \<Rightarrow> bool" where
  "type_ok (CArray t n) = scalar_ok t"
| "type_ok (CSequence t) = scalar_ok t"
| "type_ok (CTuple ts) = (ts \<noteq> [] \<and> list_all scalar_ok ts)"
| "type_ok t = scalar_ok t"

fun has_type :: "ctype \<Rightarrow> cval \<Rightarrow> bool" where
  "has_type CBool v = (case v of VBool b \<Rightarrow> True | _ \<Rightarrow> False)"
| "has_type (CInt s b) v = (case v of VInt i \<Rightarrow> int_min s b \<le> i \<and> i \<le> int_max s b | _ \<Rightarrow> False)"
| "has_type CFloat v = (case v of VFloat w \<Rightarrow> True | _ \<Rightarrow> False)"
| "has_type CDouble v = (case v of VDouble w \<Rightarrow> True | _ \<Rightarrow> False)"
| "has_type CString v = (case v of VString s \<Rightarrow> True | _ \<Rightarrow> False)"
| "has_type CCharPtr v = (case v of VString s \<Rightarrow> CHR 0x00 \<notin> set s | _ \<Rightarrow> False)"
| "has_type (COther n) v = (case v of VOther s \<Rightarrow> length s = n | _ \<Rightarrow> False)"
| "has_type (CArray t n) v = (case v of VList vs \<Rightarrow> length vs = n \<and> list_all (has_type t) vs | _ \<Rightarrow> False)"
| "has_type (CSequence t) v = (case v of VList vs \<Rightarrow> list_all (has_type t) vs | _ \<Rightarrow> False)"
| "has_type (CTuple ts) v = (case v of VList vs \<Rightarrow> list_all2 has_type ts vs | _ \<Rightarrow> False)"

fun size_of :: "ctype \<Rightarrow> nat" where
  "size_of CBool = 1"
| "size_of (CInt s b) = b div 8"
| "size_of CFloat = 4"
| "size_of CDouble = 8"
| "size_of (COther n) = n"
| "size_of _ = 0"

text \<open>Types whose object representation is the value: those a binary encoding may contain.\<close>

fun flat :: "ctype \<Rightarrow> bool" where
  "flat CBool = True"
| "flat (CInt s b) = width_ok b"
| "flat CFloat = True"
| "flat CDouble = True"
| "flat (COther n) = (0 < n)"
| "flat _ = False"

fun object_bytes :: "bool \<Rightarrow> ctype \<Rightarrow> cval \<Rightarrow> string" where
  "object_bytes big t (VBool b) = [if b then CHR 0x01 else CHR 0x00]"
| "object_bytes big t (VInt i) = native_bytes big (size_of t) (nat (i mod 2 ^ (8 * size_of t)))"
| "object_bytes big t (VFloat w) = native_bytes big 4 (unat w)"
| "object_bytes big t (VDouble w) = native_bytes big 8 (unat w)"
| "object_bytes big t (VOther s) = s"
| "object_bytes big t (VString s) = []"
| "object_bytes big t (VList vs) = []"

text \<open>Reading an object from its bytes; a \<open>bool\<close> other than 0 or 1 has no defined value.\<close>

definition object_of :: "bool \<Rightarrow> ctype \<Rightarrow> string \<Rightarrow> error + cval" where
  "object_of big t bs =
     (case t of
        CBool \<Rightarrow>
          (if bs = [CHR 0x00] then Inr (VBool False) else if bs = [CHR 0x01] then Inr (VBool True)
           else Inl Undefined)
      | CInt s b \<Rightarrow>
          (let n = int (of_native big bs)
           in Inr (VInt (if s \<and> n \<ge> 2 ^ (b - 1) then n - 2 ^ b else n)))
      | CFloat \<Rightarrow> Inr (VFloat (word_of_nat (of_native big bs)))
      | CDouble \<Rightarrow> Inr (VDouble (word_of_nat (of_native big bs)))
      | COther n \<Rightarrow> Inr (VOther bs)
      | _ \<Rightarrow> Inl Undefined)"

subsection \<open>Numeric conversions\<close>

definition convert_lossless_to_floating_point :: "nat \<Rightarrow> integer_t \<Rightarrow> error + integer_t" where
  "convert_lossless_to_floating_point fdigits i =
     (let limit = 2 ^ fdigits
      in if sint i > limit \<or> sint i < - limit then Inl (Runtime invalid_value_error) else Inr i)"

text \<open>
  \<open>numeric_limits<T>::max()\<close> is converted to \<open>double\<close> by the comparison; the cast of a
  number \<open>T\<close> cannot hold is undefined.
\<close>

definition as_double :: "int \<Rightarrow> int" where
  "as_double k = int_value (decode_fp 52 11 (double_bits k))"

definition convert_lossless_to_integral :: "bool \<Rightarrow> nat \<Rightarrow> real_t \<Rightarrow> error + int" where
  "convert_lossless_to_integral s b r =
     (let x = decode_double r
      in if has_fraction x \<or> fp_less_int x (as_double (int_min s b)) \<or>
            fp_greater_int x (as_double (int_max s b))
         then Inl (Runtime invalid_value_error)
         else if int_min s b \<le> int_value x \<and> int_value x \<le> int_max s b then Inr (int_value x)
         else Inl Undefined)"

text \<open>\<open>To\<close> and \<open>From\<close> are given by their signedness and width.\<close>

definition convert_lossless_integer :: "bool \<Rightarrow> nat \<Rightarrow> bool \<Rightarrow> nat \<Rightarrow> int \<Rightarrow> error + int" where
  "convert_lossless_integer to_s to_b from_s from_b i =
     (let lowest = int_min to_s to_b; greatest = int_max to_s to_b in
      if \<not> to_s \<and> from_s then
        (if i < 0 \<or> i mod 2 ^ from_b > greatest then Inl (Runtime invalid_value_error) else Inr i)
      else if to_s \<and> \<not> from_s then
        (if i > greatest mod 2 ^ to_b then Inl (Runtime invalid_value_error) else Inr i)
      else (if i < lowest \<or> i > greatest then Inl (Runtime invalid_value_error) else Inr i))"

text \<open>
  Widening and narrowing of floating point numbers: rounding to nearest, one quiet NaN per sign.
\<close>

definition round_to :: "nat \<Rightarrow> nat \<Rightarrow> fp \<Rightarrow> nat" where
  "round_to fbits ebits x =
     (let bits = fbits + ebits + 1; inf = (2 ^ ebits - 1) * 2 ^ fbits in
      case x of
        Nan s \<Rightarrow> with_sign bits s (inf + 2 ^ (fbits - 1))
      | Inf s \<Rightarrow> with_sign bits s inf
      | Fin s m e \<Rightarrow> with_sign bits s
          (case round_fp fbits ebits (m * 2 ^ nat e) (2 ^ nat (- e)) of Some n \<Rightarrow> n | None \<Rightarrow> inf))"

definition double_of_float :: "32 word \<Rightarrow> 64 word" where
  "double_of_float w = word_of_nat (round_to 52 11 (decode_float w))"

definition float_of_double :: "64 word \<Rightarrow> 32 word" where
  "float_of_double w = word_of_nat (round_to 23 8 (decode_double w))"

text \<open>The largest finite number of a format.\<close>

definition fp_max :: "nat \<Rightarrow> nat \<Rightarrow> int" where
  "fp_max fbits ebits = (2 ^ (fbits + 1) - 1) * 2 ^ (2 ^ (ebits - 1) - 1 - fbits)"

definition in_fp_range :: "nat \<Rightarrow> nat \<Rightarrow> fp \<Rightarrow> bool" where
  "in_fp_range fbits ebits x \<longleftrightarrow>
     \<not> (fp_less_int x (- fp_max fbits ebits) \<or> fp_greater_int x (fp_max fbits ebits))"

definition real_to_double :: "real_t \<Rightarrow> error + 64 word" where
  "real_to_double r =
     (if in_fp_range 52 11 (decode_double r) then Inr r else Inl (Runtime invalid_value_error))"

definition real_to_float :: "real_t \<Rightarrow> error + 32 word" where
  "real_to_float r =
     (if in_fp_range 23 8 (decode_double r) then Inr (float_of_double r)
      else Inl (Runtime invalid_value_error))"

definition float_to_real :: "32 word \<Rightarrow> error + real_t" where
  "float_to_real w =
     (if in_fp_range 52 11 (decode_float w) then Inr (double_of_float w)
      else Inl (Runtime invalid_value_error))"

subsection \<open>Scalars\<close>

definition wrong_type :: "error + 'a" where "wrong_type = Inl (Runtime wrong_type_error)"
definition invalid_value :: "error + 'a" where "invalid_value = Inl (Runtime invalid_value_error)"

definition as_binary :: "scalar_t \<Rightarrow> error + string" where
  "as_binary x = (case x of Binary_t s \<Rightarrow> Inr s | _ \<Rightarrow> wrong_type)"

text \<open>
  The primary template: \<open>copy_n\<close> writes \<open>sizeof(T)\<close> objects of type \<open>T\<close> (not bytes) from as
  many bytes, whatever the number of bytes received; only a one byte type stays in bounds.
\<close>

definition other_from_generic :: "ctype \<Rightarrow> scalar_t \<Rightarrow> error + cval" where
  "other_from_generic t x =
     and_then (as_binary x) (\<lambda>s.
       if size_of t \<noteq> 1 \<or> s = [] then Inl Undefined
       else case t of CBool \<Rightarrow> Inr (VBool (hd s \<noteq> CHR 0x00)) | _ \<Rightarrow> object_of False t [hd s])"

definition bool_from_generic :: "scalar_t \<Rightarrow> error + cval" where
  "bool_from_generic x = (case x of Boolean_t b \<Rightarrow> Inr (VBool b) | _ \<Rightarrow> wrong_type)"

definition integral_from_generic :: "bool \<Rightarrow> nat \<Rightarrow> scalar_t \<Rightarrow> error + cval" where
  "integral_from_generic s b x =
     (case x of
        Real_t r \<Rightarrow> map_sum id VInt (convert_lossless_to_integral s b r)
      | Integer_t i \<Rightarrow> map_sum id VInt (convert_lossless_integer s b True 64 (sint i))
      | _ \<Rightarrow> wrong_type)"

definition double_from_generic :: "scalar_t \<Rightarrow> error + cval" where
  "double_from_generic x =
     (case x of
        Integer_t i \<Rightarrow> map_sum id (\<lambda>k. VDouble (double_of_int (sint k))) (convert_lossless_to_floating_point 53 i)
      | Real_t r \<Rightarrow> map_sum id VDouble (real_to_double r)
      | _ \<Rightarrow> wrong_type)"

definition float_from_generic :: "scalar_t \<Rightarrow> error + cval" where
  "float_from_generic x =
     (case x of
        Integer_t i \<Rightarrow> map_sum id (\<lambda>k. VFloat (float_of_int (sint k))) (convert_lossless_to_floating_point 24 i)
      | Real_t r \<Rightarrow> map_sum id VFloat (real_to_float r)
      | _ \<Rightarrow> wrong_type)"

definition string_from_generic :: "encoding_hint \<Rightarrow> scalar_t \<Rightarrow> error + cval" where
  "string_from_generic hint x =
     (case x of
        String_t s \<Rightarrow> Inr (VString s)
      | Binary_t s \<Rightarrow> (if hint = binary then Inr (VString s) else wrong_type)
      | _ \<Rightarrow> wrong_type)"

text \<open>The elements of a binary encoded array or sequence container, in pieces of \<open>sizeof(T)\<close>.\<close>

function chunks :: "nat \<Rightarrow> string \<Rightarrow> string list" where
  "chunks k s = (if k = 0 \<or> s = [] then [] else take k s # chunks k (drop k s))"
  by pat_completeness auto
termination by (relation "measure (\<lambda>(k, s). length s)") auto

declare chunks.simps [simp del]

definition array_from_binary :: "bool \<Rightarrow> ctype \<Rightarrow> nat \<Rightarrow> scalar_t \<Rightarrow> error + cval" where
  "array_from_binary big t n x =
     and_then (as_binary x) (\<lambda>s.
       if length s \<noteq> n * size_of t then invalid_value
       else map_sum id VList (map_result (object_of big t) (chunks (size_of t) s)))"

definition container_from_binary :: "bool \<Rightarrow> ctype \<Rightarrow> scalar_t \<Rightarrow> error + cval" where
  "container_from_binary big t x =
     and_then (as_binary x) (\<lambda>s.
       if length s mod size_of t \<noteq> 0 then invalid_value
       else map_sum id VList (map_result (object_of big t) (chunks (size_of t) s)))"

definition scalar_from_generic :: "bool \<Rightarrow> encoding_hint \<Rightarrow> ctype \<Rightarrow> scalar_t \<Rightarrow> error + cval" where
  "scalar_from_generic big hint t x =
     (case hint of
        none \<Rightarrow>
          (case t of
             CBool \<Rightarrow> bool_from_generic x
           | CInt s b \<Rightarrow> integral_from_generic s b x
           | CFloat \<Rightarrow> float_from_generic x
           | CDouble \<Rightarrow> double_from_generic x
           | CString \<Rightarrow> string_from_generic none x
           | _ \<Rightarrow> other_from_generic t x)
      | binary \<Rightarrow>
          (case t of
             CString \<Rightarrow> string_from_generic binary x
           | CArray u n \<Rightarrow> array_from_binary big u n x
           | CSequence u \<Rightarrow> container_from_binary big u x
           | _ \<Rightarrow> other_from_generic t x))"

fun elements_bytes :: "bool \<Rightarrow> ctype \<Rightarrow> cval \<Rightarrow> string" where
  "elements_bytes big t (VList vs) = concat (map (object_bytes big t) vs)"
| "elements_bytes big t _ = []"

fun string_of :: "cval \<Rightarrow> string" where
  "string_of (VString s) = s"
| "string_of _ = []"

fun integral_to_generic :: "bool \<Rightarrow> nat \<Rightarrow> cval \<Rightarrow> error + scalar_t" where
  "integral_to_generic s b (VInt i) =
     map_sum id (\<lambda>k. Integer_t (word_of_int k)) (convert_lossless_integer True 64 s b i)"
| "integral_to_generic s b _ = Inl Undefined"

fun real_to_generic :: "cval \<Rightarrow> error + scalar_t" where
  "real_to_generic (VFloat w) = map_sum id Real_t (float_to_real w)"
| "real_to_generic (VDouble w) = map_sum id Real_t (real_to_double w)"
| "real_to_generic _ = Inl Undefined"

definition scalar_to_generic :: "bool \<Rightarrow> encoding_hint \<Rightarrow> ctype \<Rightarrow> cval \<Rightarrow> error + scalar_t" where
  "scalar_to_generic big hint t v =
     (case hint of
        none \<Rightarrow>
          (case t of
             CBool \<Rightarrow> Inr (Boolean_t (v = VBool True))
           | CInt s b \<Rightarrow> integral_to_generic s b v
           | CFloat \<Rightarrow> real_to_generic v
           | CDouble \<Rightarrow> real_to_generic v
           | CString \<Rightarrow> Inr (String_t (string_of v))
           | CCharPtr \<Rightarrow> Inr (String_t (string_of v))
           | _ \<Rightarrow> Inr (Binary_t (object_bytes big t v)))
      | binary \<Rightarrow> Inr (Binary_t
          (case t of
             CString \<Rightarrow> string_of v
           | CCharPtr \<Rightarrow> string_of v
           | CArray u n \<Rightarrow> elements_bytes big u v
           | CSequence u \<Rightarrow> elements_bytes big u v
           | _ \<Rightarrow> object_bytes big t v)))"

subsection \<open>Values\<close>

text \<open>
  The tuple helper reads \<open>from[i]\<close> without looking at the size of the generic tuple: missing
  elements are read past the end, further elements are ignored.
\<close>

fun tuple_from_generic :: "bool \<Rightarrow> ctype list \<Rightarrow> scalar_t list \<Rightarrow> error + cval list" where
  "tuple_from_generic big [] xs = Inr []"
| "tuple_from_generic big (t # ts) [] = Inl Undefined"
| "tuple_from_generic big (t # ts) (x # xs) =
     and_then (scalar_from_generic big none t x) (\<lambda>v.
       and_then (tuple_from_generic big ts xs) (\<lambda>vs. Inr (v # vs)))"

fun tuple_to_generic :: "bool \<Rightarrow> ctype list \<Rightarrow> cval list \<Rightarrow> error + scalar_t list" where
  "tuple_to_generic big (t # ts) (v # vs) =
     and_then (scalar_to_generic big none t v) (\<lambda>x.
       and_then (tuple_to_generic big ts vs) (\<lambda>xs. Inr (x # xs)))"
| "tuple_to_generic big _ _ = Inr []"

definition as_sequence :: "value_t \<Rightarrow> error + scalar_t list" where
  "as_sequence x = (case x of Sequence_t xs \<Rightarrow> Inr xs | _ \<Rightarrow> wrong_type)"

definition array_from_generic :: "bool \<Rightarrow> ctype \<Rightarrow> nat \<Rightarrow> value_t \<Rightarrow> error + cval" where
  "array_from_generic big t n x =
     and_then (as_sequence x) (\<lambda>xs.
       if length xs \<noteq> n then invalid_value
       else map_sum id VList (map_result (scalar_from_generic big none t) xs))"

definition sequence_from_generic :: "bool \<Rightarrow> ctype \<Rightarrow> value_t \<Rightarrow> error + cval" where
  "sequence_from_generic big t x =
     and_then (as_sequence x) (\<lambda>xs.
       map_sum id VList (map_result (scalar_from_generic big none t) xs))"

definition plain_from_generic :: "bool \<Rightarrow> encoding_hint \<Rightarrow> ctype \<Rightarrow> value_t \<Rightarrow> error + cval" where
  "plain_from_generic big hint t x =
     (case x of Scalar_t s \<Rightarrow> scalar_from_generic big hint t s | _ \<Rightarrow> wrong_type)"

definition tuple_of_generic :: "bool \<Rightarrow> ctype list \<Rightarrow> value_t \<Rightarrow> error + cval" where
  "tuple_of_generic big ts x =
     (case x of Tuple_t xs \<Rightarrow> map_sum id VList (tuple_from_generic big ts xs) | _ \<Rightarrow> wrong_type)"

definition from_generic :: "bool \<Rightarrow> encoding_hint \<Rightarrow> ctype \<Rightarrow> value_t \<Rightarrow> error + cval" where
  "from_generic big hint t x =
     (case hint of
        none \<Rightarrow>
          (case t of
             CArray u n \<Rightarrow> array_from_generic big u n x
           | CSequence u \<Rightarrow> sequence_from_generic big u x
           | CTuple ts \<Rightarrow> tuple_of_generic big ts x
           | _ \<Rightarrow> plain_from_generic big none t x)
      | binary \<Rightarrow> plain_from_generic big binary t x)"

fun list_of :: "cval \<Rightarrow> cval list" where
  "list_of (VList vs) = vs"
| "list_of _ = []"

definition to_generic :: "bool \<Rightarrow> encoding_hint \<Rightarrow> ctype \<Rightarrow> cval \<Rightarrow> error + value_t" where
  "to_generic big hint t v =
     (case hint of
        none \<Rightarrow>
          (case t of
             CArray u n \<Rightarrow> map_sum id Sequence_t (map_result (scalar_to_generic big none u) (list_of v))
           | CSequence u \<Rightarrow> map_sum id Sequence_t (map_result (scalar_to_generic big none u) (list_of v))
           | CTuple ts \<Rightarrow> map_sum id Tuple_t (tuple_to_generic big ts (list_of v))
           | _ \<Rightarrow> map_sum id Scalar_t (scalar_to_generic big none t v))
      | binary \<Rightarrow> map_sum id Scalar_t (scalar_to_generic big binary t v))"

definition scalar_type_tag :: "encoding_hint \<Rightarrow> ctype \<Rightarrow> type_tag" where
  "scalar_type_tag hint t =
     (case hint of
        none \<Rightarrow>
          (case t of
             CBool \<Rightarrow> boolean_tag | CInt s b \<Rightarrow> integer_tag | CFloat \<Rightarrow> real_tag | CDouble \<Rightarrow> real_tag
           | CString \<Rightarrow> string_tag | CCharPtr \<Rightarrow> string_tag | _ \<Rightarrow> binary_tag)
      | binary \<Rightarrow> binary_tag)"

definition type_tag_of :: "encoding_hint \<Rightarrow> ctype \<Rightarrow> type_tag" where
  "type_tag_of hint t =
     (case hint of
        none \<Rightarrow>
          (case t of
             CArray u n \<Rightarrow> sequence_tag (scalar_type_tag none u)
           | CSequence u \<Rightarrow> sequence_tag (scalar_type_tag none u)
           | CTuple ts \<Rightarrow> tuple_tag
           | _ \<Rightarrow> scalar_type_tag none t)
      | binary \<Rightarrow> scalar_type_tag binary t)"


subsection \<open>Integers convert exactly\<close>

lemma width_bounds: "width_ok b \<Longrightarrow> 8 \<le> b \<and> b \<le> 64"
  by (auto simp: width_ok_def)

lemma power_le_64: "b \<le> 64 \<Longrightarrow> (2 :: int) ^ b \<le> 2 ^ 64"
  by (rule power_increasing) auto

lemma sint_bounds: "int_min True 64 \<le> sint (w :: 64 word)" "sint (w :: 64 word) \<le> int_max True 64"
  using sint_range_size [of w] by (simp_all add: int_min_def int_max_def word_size)

lemma int_max_lt: "0 < b \<Longrightarrow> int_max s b < 2 ^ b"
  using power_strict_increasing [of "b - 1" b "2 :: int"]
  by (auto simp: int_max_def intro: less_trans [of _ "2 ^ (b - 1)"])

lemma convert_integer_exact:
  assumes "0 < to_b" "0 < from_b" "int_min from_s from_b \<le> i" "i \<le> int_max from_s from_b"
  shows "convert_lossless_integer to_s to_b from_s from_b i =
    (if int_min to_s to_b \<le> i \<and> i \<le> int_max to_s to_b then Inr i else Inl (Runtime invalid_value_error))"
proof -
  have max: "0 \<le> int_max to_s to_b" "int_max to_s to_b < 2 ^ to_b"
    using int_max_lt [OF assms(1)] by (auto simp: int_max_def)
  consider (neg) "i < 0" "from_s" | (pos) "0 \<le> i"
    using assms(3) by (cases "i < 0"; cases from_s) (auto simp: int_min_def)
  then show ?thesis
  proof cases
    case neg
    then show ?thesis
      using max by (auto simp: convert_lossless_integer_def Let_def int_min_def)
  next
    case pos
    have "i < 2 ^ from_b"
      using int_max_lt [OF assms(2)] assms(4) by (rule le_less_trans [rotated])
    with pos have "i mod 2 ^ from_b = i" by simp
    moreover have "int_max to_s to_b mod 2 ^ to_b = int_max to_s to_b" using max by simp
    moreover have "int_min to_s to_b \<le> i" using pos by (auto simp: int_min_def intro: order_trans [of _ 0])
    ultimately show ?thesis using pos by (auto simp: convert_lossless_integer_def Let_def)
  qed
qed

lemma fin_scaled:
  assumes "\<not> has_fraction (Fin s m e)"
  shows "fst (scaled s m e k) = int_value (Fin s m e) * 2 ^ nat (- e)"
proof (cases "e < 0")
  case True
  with assms have "m mod 2 ^ nat (- e) = 0" by simp
  then have "int m = int (m div 2 ^ nat (- e)) * 2 ^ nat (- e)"
    by (metis add.right_neutral div_mult_mod_eq of_nat_mult of_nat_numeral of_nat_power)
  with True show ?thesis by simp
qed simp

lemma integral_in_range:
  assumes "\<not> has_fraction x" "\<not> fp_less_int x lo" "\<not> fp_greater_int x hi"
  shows "lo \<le> int_value x \<and> int_value x \<le> hi"
proof (cases x)
  case (Fin s m e)
  have f: "fst (scaled s m e k) = int_value x * 2 ^ nat (- e)" for k
    using fin_scaled assms(1) unfolding Fin by blast
  have "lo * 2 ^ nat (- e) \<le> int_value x * 2 ^ nat (- e)"
    using assms(2) f [of lo] unfolding Fin by (simp add: Let_def)
  moreover have "int_value x * 2 ^ nat (- e) \<le> hi * 2 ^ nat (- e)"
    using assms(3) f [of hi] unfolding Fin by (simp add: Let_def)
  ultimately show ?thesis by simp
next
  case (Inf s)
  with assms show ?thesis by (cases s) auto
qed (use assms in auto)

lemmas fp_eval = as_double_def double_bits_def round_fp_def Let_def floor_log_def ilog.simps
  round_half_even_def with_sign_def decode_fp_def

lemma as_double_min: "width_ok b \<Longrightarrow> as_double (int_min s b) = int_min s b"
proof -
  have "as_double 0 = 0" "as_double (-128) = -128" "as_double (-32768) = -32768"
    "as_double (-2147483648) = -2147483648" "as_double (-9223372036854775808) = -9223372036854775808"
    by (simp_all add: fp_eval)
  then show "width_ok b \<Longrightarrow> as_double (int_min s b) = int_min s b"
    by (auto simp: width_ok_def int_min_def)
qed

lemma as_double_max:
  "width_ok b \<Longrightarrow> as_double (int_max s b) = (if b = 64 then int_max s b + 1 else int_max s b)"
proof -
  have "as_double 127 = 127" "as_double 255 = 255" "as_double 32767 = 32767" "as_double 65535 = 65535"
    "as_double 2147483647 = 2147483647" "as_double 4294967295 = 4294967295"
    "as_double 9223372036854775807 = 9223372036854775808"
    "as_double 18446744073709551615 = 18446744073709551616"
    by (simp_all add: fp_eval)
  then show "width_ok b \<Longrightarrow> as_double (int_max s b) = (if b = 64 then int_max s b + 1 else int_max s b)"
    by (auto simp: width_ok_def int_max_def)
qed

lemma to_integral_cases:
  assumes "width_ok b"
  shows "convert_lossless_to_integral s b r = Inl (Runtime invalid_value_error) \<or>
    \<not> has_fraction (decode_double r) \<and>
    (let i = int_value (decode_double r) in
     (convert_lossless_to_integral s b r = Inr i \<and> int_min s b \<le> i \<and> i \<le> int_max s b) \<or>
     (convert_lossless_to_integral s b r = Inl Undefined \<and> b = 64 \<and> i = int_max s b + 1))"
proof -
  let ?x = "decode_double r"
  have "lo \<le> int_value ?x \<and> int_value ?x \<le> hi"
    if "\<not> (has_fraction ?x \<or> fp_less_int ?x lo \<or> fp_greater_int ?x hi)" for lo hi
    using integral_in_range that by blast
  from this [of "int_min s b" "as_double (int_max s b)"] show ?thesis
    unfolding convert_lossless_to_integral_def as_double_min [OF assms] as_double_max [OF assms]
    by (cases "b = 64") (auto simp: Let_def split: if_splits)
qed

lemma integral_conversion_exact_parts:
  assumes "width_ok b"
  shows "from_generic big none (CInt s b) (Scalar_t (Integer_t w)) =
      (if int_min s b \<le> sint w \<and> sint w \<le> int_max s b then Inr (VInt (sint w)) else invalid_value)"
    and "from_generic big none (CInt s b) (Scalar_t (Real_t r)) = Inr v \<longrightarrow>
      \<not> has_fraction (decode_double r) \<and> v = VInt (int_value (decode_double r)) \<and> has_type (CInt s b) v"
    and "from_generic big none (CInt s b) (Scalar_t (Real_t r)) = Inl err \<longrightarrow>
      err = Runtime invalid_value_error \<or>
      err = Undefined \<and> b = 64 \<and> int_value (decode_double r) = int_max s b + 1"
    and "from_generic big none (CInt s b) (Scalar_t (String_t t)) = wrong_type"
    and "from_generic big none (CInt s b) (Sequence_t xs) = wrong_type"
proof -
  show "from_generic big none (CInt s b) (Scalar_t (Integer_t w)) =
      (if int_min s b \<le> sint w \<and> sint w \<le> int_max s b then Inr (VInt (sint w)) else invalid_value)"
    using convert_integer_exact [of b 64 True "sint w" s] width_bounds [OF assms] sint_bounds [of w]
    by (auto simp: from_generic_def plain_from_generic_def scalar_from_generic_def
        integral_from_generic_def invalid_value_def)
  show "from_generic big none (CInt s b) (Scalar_t (Real_t r)) = Inr v \<longrightarrow>
      \<not> has_fraction (decode_double r) \<and> v = VInt (int_value (decode_double r)) \<and> has_type (CInt s b) v"
    using to_integral_cases [OF assms, of s r]
    by (auto simp: from_generic_def plain_from_generic_def scalar_from_generic_def
        integral_from_generic_def Let_def)
  show "from_generic big none (CInt s b) (Scalar_t (Real_t r)) = Inl err \<longrightarrow>
      err = Runtime invalid_value_error \<or>
      err = Undefined \<and> b = 64 \<and> int_value (decode_double r) = int_max s b + 1"
    using to_integral_cases [OF assms, of s r]
    by (auto simp: from_generic_def plain_from_generic_def scalar_from_generic_def
        integral_from_generic_def Let_def)
qed (simp_all add: from_generic_def plain_from_generic_def scalar_from_generic_def
    integral_from_generic_def sequence_from_generic_def)



lemma to_integral_overflow_undefined:
  "from_generic big none (CInt True 64) (Scalar_t (Real_t 0x43E0000000000000)) = Inl Undefined"
proof -
  have "convert_lossless_to_integral True 64 0x43E0000000000000 = Inl Undefined"
    unfolding convert_lossless_to_integral_def as_double_min [of 64, unfolded width_ok_def, simplified]
      as_double_max [of 64, unfolded width_ok_def, simplified]
    by (simp add: decode_double_def decode_fp_def Let_def int_min_def int_max_def)
  then show ?thesis
    by (simp add: from_generic_def plain_from_generic_def scalar_from_generic_def integral_from_generic_def)
qed


subsection \<open>Type soundness and round trips\<close>

lemma chunks_lengths: "0 < k \<Longrightarrow> length s = n * k \<Longrightarrow> list_all (\<lambda>c. length c = k) (chunks k s) \<and> length (chunks k s) = n"
proof (induction k s arbitrary: n rule: chunks.induct)
  case (1 k s)
  show ?case
  proof (cases n)
    case 0
    with 1 show ?thesis by (simp add: chunks.simps)
  next
    case (Suc m)
    with 1(3) have "length s = k + m * k" by simp
    moreover from this 1(2) have "s \<noteq> []" by auto
    ultimately show ?thesis
      using 1(1) [of m] 1(2) Suc by (simp add: chunks.simps [of k s])
  qed
qed

lemma chunks_concat: "0 < k \<Longrightarrow> list_all (\<lambda>c. length c = k) cs \<Longrightarrow> chunks k (concat cs) = cs"
proof (induction cs)
  case Nil
  show ?case by (simp add: chunks.simps)
next
  case (Cons c cs)
  then have "c @ concat cs \<noteq> []" by auto
  with Cons show ?case by (simp add: chunks.simps [of k "c @ concat cs"])
qed

lemma flat_size: "flat t \<Longrightarrow> 0 < size_of t"
  by (cases t) (auto simp: width_ok_def)

lemma of_native_less: "of_native big s < 256 ^ length s"
proof -
  have "of_le t < 256 ^ length t" for t
  proof (induction t)
    case (Cons c t)
    have "of_char c + 256 * of_le t < 256 + 256 * of_le t" by simp
    also have "\<dots> \<le> 256 * 256 ^ length t" using Cons by (simp flip: mult_Suc_right)
    finally show ?case by simp
  qed simp
  from this [of "if big then rev s else s"] show ?thesis by (simp add: of_native_def split: if_splits)
qed

lemma width_bytes: "width_ok b \<Longrightarrow> 8 * (b div 8) = b \<and> (256 :: nat) ^ (b div 8) = 2 ^ b"
  by (auto simp: width_ok_def)

lemma object_of_type:
  assumes "flat t" "length bs = size_of t" "object_of big t bs = Inr v"
  shows "has_type t v"
proof (cases t)
  case (CInt s b)
  with assms have w: "width_ok b" and v: "v = VInt (let n = int (of_native big bs) in if s \<and> n \<ge> 2 ^ (b - 1) then n - 2 ^ b else n)"
    by (simp_all add: object_of_def Let_def)
  have n: "int (of_native big bs) < 2 ^ b"
    using of_native_less [of big bs] assms(2) CInt width_bytes [OF w] by simp
  have "(2 :: int) ^ b = 2 * 2 ^ (b - 1)" using width_bounds [OF w] by (cases b) auto
  with n show ?thesis by (auto simp: CInt v Let_def int_min_def int_max_def)
qed (use assms in \<open>auto simp: object_of_def split: if_splits\<close>)

lemma length_object_bytes: "flat t \<Longrightarrow> has_type t v \<Longrightarrow> length (object_bytes big t v) = size_of t"
  by (cases t; cases v) auto

lemma object_of_bytes:
  assumes "flat t" "has_type t v"
  shows "object_of big t (object_bytes big t v) = Inr v"
proof (cases t)
  case (CInt s b)
  with assms obtain i where v: "v = VInt i" and i: "int_min s b \<le> i" "i \<le> int_max s b" and w: "width_ok b"
    by (auto split: cval.splits)
  have b: "(2 :: int) ^ b = 2 * 2 ^ (b - 1)" using width_bounds [OF w] by (cases b) auto
  have nn: "0 \<le> i mod 2 ^ b" "i mod 2 ^ b < 2 ^ b" by simp_all
  then have "nat (i mod 2 ^ b) < 2 ^ b" by (simp add: nat_less_iff)
  then have "of_native big (object_bytes big t v) = nat (i mod 2 ^ b)"
    using width_bytes [OF w] by (simp add: CInt v of_native_bytes)
  then have n: "int (of_native big (object_bytes big (CInt s b) v)) = i mod 2 ^ b" by (simp add: CInt)
  have m: "i mod 2 ^ b = (if i < 0 then i + 2 ^ b else i)"
  proof (cases "i < 0")
    case True
    then have "(i + 2 ^ b) mod 2 ^ b = i + 2 ^ b"
      using i(1) b by (intro mod_pos_pos_trivial) (cases s; simp add: int_min_def)+
    with True show ?thesis by simp
  next
    case False
    then show ?thesis using i(2) int_max_lt [of b s] width_bounds [OF w] by simp
  qed
  have "(if s \<and> i mod 2 ^ b \<ge> 2 ^ (b - 1) then i mod 2 ^ b - 2 ^ b else i mod 2 ^ b) = i"
    unfolding m using i b by (cases s) (auto simp: int_min_def int_max_def)
  then show ?thesis
    unfolding object_of_def CInt ctype.case Let_def n by (simp only: v)
next
  case CFloat
  with assms obtain w where v: "v = VFloat w" by (auto split: cval.splits)
  have "unat w < 2 ^ 32" using unsigned_less [of w] by simp
  then show ?thesis by (simp add: CFloat v object_of_def of_native_bytes)
next
  case CDouble
  with assms obtain w where v: "v = VDouble w" by (auto split: cval.splits)
  have "unat w < 2 ^ 64" using unsigned_less [of w] by simp
  then show ?thesis by (simp add: CDouble v object_of_def of_native_bytes)
qed (use assms in \<open>auto simp: object_of_def split: cval.splits\<close>)

lemma map_result_all:
  assumes "map_result f xs = Inr ys" "\<forall>x \<in> set xs. \<forall>y. f x = Inr y \<longrightarrow> P y"
  shows "list_all P ys"
  using assms by (induction xs arbitrary: ys) (auto simp: and_then_eq_Inr)

lemma map_sum_Inr: "map_sum id f x = Inr y \<longleftrightarrow> (\<exists>z. x = Inr z \<and> y = f z)"
  by (cases x) auto

text \<open>The types and hints for which \<open>from_generic\<close> and \<open>to_generic\<close> are inverse to each other.\<close>

fun plain :: "ctype \<Rightarrow> bool" where
  "plain CBool = True"
| "plain (CInt s b) = width_ok b"
| "plain CDouble = True"
| "plain CString = True"
| "plain _ = False"

definition round_trips :: "encoding_hint \<Rightarrow> ctype \<Rightarrow> bool" where
  "round_trips hint t =
     (case hint of
        none \<Rightarrow> (case t of CArray u n \<Rightarrow> plain u | CSequence u \<Rightarrow> plain u | CTuple ts \<Rightarrow> list_all plain ts | _ \<Rightarrow> plain t)
      | binary \<Rightarrow> (case t of CString \<Rightarrow> True | CArray u n \<Rightarrow> flat u | CSequence u \<Rightarrow> flat u | _ \<Rightarrow> False))"

lemma scalar_round_trip:
  assumes "plain t" "has_type t v" "scalar_to_generic big none t v = Inr x"
  shows "scalar_from_generic big none t x = Inr v"
proof (cases t)
  case (CInt s b)
  with assms obtain i where v: "v = VInt i" and i: "int_min s b \<le> i" "i \<le> int_max s b" and w: "width_ok b"
    by (auto split: cval.splits)
  have "convert_lossless_integer True 64 s b i =
      (if int_min True 64 \<le> i \<and> i \<le> int_max True 64 then Inr i else Inl (Runtime invalid_value_error))"
    using i width_bounds [OF w] by (intro convert_integer_exact) auto
  with assms(3) have x: "x = Integer_t (word_of_int i)" and r: "int_min True 64 \<le> i" "i \<le> int_max True 64"
    by (auto simp: CInt v scalar_to_generic_def split: if_splits)
  have si: "sint (word_of_int i :: 64 word) = i"
    using r by (simp add: signed_of_int signed_take_bit_int_eq_self int_min_def int_max_def)
  have "convert_lossless_integer s b True 64 i = Inr i"
    using i r width_bounds [OF w] by (subst convert_integer_exact) auto
  then show ?thesis by (simp add: CInt v x si scalar_from_generic_def integral_from_generic_def)
next
  case CDouble
  with assms show ?thesis
    by (auto simp: scalar_to_generic_def scalar_from_generic_def double_from_generic_def real_to_double_def
        split: cval.splits if_splits)
qed (use assms in \<open>auto simp: scalar_to_generic_def scalar_from_generic_def bool_from_generic_def
      string_from_generic_def split: cval.splits\<close>)

lemma elements_round_trip:
  assumes "flat t" "list_all (has_type t) vs"
  shows "map_result (object_of big t) (chunks (size_of t) (elements_bytes big t (VList vs))) = Inr vs"
    and "length (elements_bytes big t (VList vs)) = length vs * size_of t"
proof -
  have "list_all (\<lambda>c. length c = size_of t) (map (object_bytes big t) vs)"
    using assms length_object_bytes by (auto simp: list_all_iff)
  then have "chunks (size_of t) (elements_bytes big t (VList vs)) = map (object_bytes big t) vs"
    using flat_size [OF assms(1)] by (simp add: chunks_concat)
  moreover have "map_result (object_of big t) (map (object_bytes big t) vs) = Inr vs"
    using assms object_of_bytes by (intro map_result_inverse) (auto simp: list_all_iff)
  ultimately show "map_result (object_of big t) (chunks (size_of t) (elements_bytes big t (VList vs))) = Inr vs"
    by simp
  show "length (elements_bytes big t (VList vs)) = length vs * size_of t"
    using assms length_object_bytes by (induction vs) auto
qed

lemma tuple_round_trip:
  assumes "list_all plain ts" "list_all2 has_type ts vs" "tuple_to_generic big ts vs = Inr xs"
  shows "tuple_from_generic big ts xs = Inr vs"
  using assms(2,1,3)
proof (induction ts vs arbitrary: xs rule: list_all2_induct)
  case (Cons t ts v vs)
  then show ?case by (auto simp: and_then_eq_Inr scalar_round_trip)
qed simp


fun scalar_has_tag :: "type_tag \<Rightarrow> scalar_t \<Rightarrow> bool" where
  "scalar_has_tag t (Boolean_t b) = (t = boolean_tag)"
| "scalar_has_tag t (Integer_t i) = (t = integer_tag)"
| "scalar_has_tag t (Real_t r) = (t = real_tag)"
| "scalar_has_tag t (String_t s) = (t = string_tag)"
| "scalar_has_tag t (Binary_t s) = (t = binary_tag)"

fun value_has_tag :: "type_tag \<Rightarrow> value_t \<Rightarrow> bool" where
  "value_has_tag t (Scalar_t x) = scalar_has_tag t x"
| "value_has_tag t (Sequence_t xs) = (\<exists>u. t = sequence_tag u \<and> list_all (scalar_has_tag u) xs)"
| "value_has_tag t (Tuple_t xs) = (t = tuple_tag)"

lemma scalar_to_generic_tag:
  assumes "plain t \<or> t = CFloat" "has_type t v" "scalar_to_generic big none t v = Inr x"
  shows "scalar_has_tag (scalar_type_tag none t) x"
  using assms
  by (cases t) (auto simp: scalar_to_generic_def scalar_type_tag_def map_sum_Inr split: cval.splits)

lemma scalar_from_generic_type:
  assumes "plain t \<or> t = CFloat" "scalar_from_generic big none t x = Inr v"
  shows "has_type t v"
proof (cases t)
  case (CInt s b)
  with assms have w: "width_ok b" and f: "integral_from_generic s b x = Inr v"
    by (simp_all add: scalar_from_generic_def)
  show ?thesis
  proof (cases x)
    case (Integer_t i)
    with f convert_integer_exact [of b 64 True "sint i" s] width_bounds [OF w] sint_bounds [of i] show ?thesis
      by (auto simp: CInt integral_from_generic_def split: if_splits)
  next
    case (Real_t r)
    with f to_integral_cases [OF w, of s r] show ?thesis
      by (auto simp: CInt integral_from_generic_def Let_def)
  qed (use f in \<open>simp_all add: integral_from_generic_def wrong_type_def\<close>)
qed (use assms in \<open>auto simp: scalar_from_generic_def bool_from_generic_def string_from_generic_def
      double_from_generic_def float_from_generic_def wrong_type_def map_sum_Inr split: scalar_t.splits if_splits\<close>)

lemma tuple_from_generic_type:
  "list_all (\<lambda>t. plain t \<or> t = CFloat) ts \<Longrightarrow> tuple_from_generic big ts xs = Inr vs \<Longrightarrow> list_all2 has_type ts vs"
proof (induction big ts xs arbitrary: vs rule: tuple_from_generic.induct)
  case (3 big t ts x xs)
  then show ?case by (auto simp: and_then_eq_Inr intro: scalar_from_generic_type)
qed simp_all

text \<open>The types of parameters that can be both read and written.\<close>

definition supported :: "encoding_hint \<Rightarrow> ctype \<Rightarrow> bool" where
  "supported hint t =
     (let ok = (\<lambda>u. plain u \<or> u = CFloat) in
      case hint of
        none \<Rightarrow> (case t of CArray u n \<Rightarrow> ok u | CSequence u \<Rightarrow> ok u | CTuple ts \<Rightarrow> list_all ok ts | _ \<Rightarrow> ok t)
      | binary \<Rightarrow> (case t of CString \<Rightarrow> True | CArray u n \<Rightarrow> flat u | CSequence u \<Rightarrow> flat u | _ \<Rightarrow> False))"

lemma binary_elements_type:
  assumes "flat t" "length s = n * size_of t" "map_result (object_of big t) (chunks (size_of t) s) = Inr vs"
  shows "list_all (has_type t) vs \<and> length vs = n"
proof -
  have c: "list_all (\<lambda>c. length c = size_of t) (chunks (size_of t) s)" "length (chunks (size_of t) s) = n"
    using chunks_lengths [OF flat_size [OF assms(1)] assms(2)] by auto
  have "list_all (has_type t) vs"
    by (rule map_result_all [OF assms(3)]) (use c(1) object_of_type [OF assms(1)] in \<open>auto simp: list_all_iff\<close>)
  then show ?thesis using map_result_Inr_length [OF assms(3)] c(2) by simp
qed

lemma plain_value_type:
  assumes "plain t \<or> t = CFloat" "plain_from_generic big none t g = Inr v"
  shows "has_type t v"
  using assms scalar_from_generic_type [of t big _ v]
  by (auto simp: plain_from_generic_def wrong_type_def split: value_t.splits)

lemma map_sum_Inl: "map_sum id f x = Inl e \<longleftrightarrow> x = Inl e"
  by (cases x) auto

lemma plain_generic:
  assumes "plain t"
  shows "from_generic big none t g = plain_from_generic big none t g"
    and "to_generic big none t v = map_sum id Scalar_t (scalar_to_generic big none t v)"
    and "type_tag_of none t = scalar_type_tag none t"
  using assms by (cases t; simp add: from_generic_def to_generic_def type_tag_of_def)+

lemma elements_generic:
  assumes "plain u" "list_all (has_type u) vs" "map_result (scalar_to_generic big none u) vs = Inr xs"
  shows "map_result (scalar_from_generic big none u) xs = Inr vs"
    and "list_all (scalar_has_tag (scalar_type_tag none u)) xs"
proof -
  show "map_result (scalar_from_generic big none u) xs = Inr vs"
    using assms(1,2) scalar_round_trip by (intro map_result_compose [OF assms(3)]) (auto simp: list_all_iff)
  show "list_all (scalar_has_tag (scalar_type_tag none u)) xs"
    using assms(1,2) scalar_to_generic_tag by (intro map_result_all [OF assms(3)]) (auto simp: list_all_iff)
qed

lemma conversion_round_trip_parts:
  assumes "round_trips hint t" and "has_type t v" and "to_generic big hint t v = Inr g"
  shows "from_generic big hint t g = Inr v" and "value_has_tag (type_tag_of hint t) g"
proof -
  have "from_generic big hint t g = Inr v \<and> value_has_tag (type_tag_of hint t) g"
  proof (cases hint)
    case hint: none
    show ?thesis
    proof (cases "plain t")
      case True
      obtain x where "g = Scalar_t x" "scalar_to_generic big none t v = Inr x"
        using assms(3) plain_generic(2) [OF True] by (auto simp: hint map_sum_Inr)
      then show ?thesis
        using scalar_round_trip [OF True assms(2)] scalar_to_generic_tag [OF _ assms(2)] True
        by (simp add: hint plain_generic plain_from_generic_def)
    next
      case False
      show ?thesis
        using assms hint False elements_generic tuple_round_trip
        by (cases t) (auto simp: round_trips_def to_generic_def from_generic_def array_from_generic_def
            sequence_from_generic_def tuple_of_generic_def as_sequence_def type_tag_of_def map_sum_Inr
            split: cval.splits dest: map_result_Inr_length)
    qed
  next
    case hint: binary
    show ?thesis
      using assms hint elements_round_trip
      by (cases t) (auto simp: round_trips_def to_generic_def from_generic_def plain_from_generic_def
          scalar_from_generic_def scalar_to_generic_def string_from_generic_def array_from_binary_def
          container_from_binary_def as_binary_def type_tag_of_def scalar_type_tag_def split: cval.splits)
  qed
  then show "from_generic big hint t g = Inr v" "value_has_tag (type_tag_of hint t) g" by auto
qed



lemma scalar_list_type:
  assumes "plain u \<or> u = CFloat" "map_result (scalar_from_generic big none u) xs = Inr vs"
  shows "list_all (has_type u) vs \<and> length vs = length xs"
  using map_result_all [OF assms(2)] scalar_from_generic_type [OF assms(1)] map_result_Inr_length [OF assms(2)]
  by auto

lemma from_binary_type:
  assumes "supported binary t" and "from_generic big binary t g = Inr v"
  shows "has_type t v"
proof -
  have len: "length s = (length s div k) * k" if "k dvd length s" for s :: string and k :: nat
    using that by simp
  show ?thesis
  proof (cases t)
    case (CSequence u)
    with assms obtain s vs where "flat u" "size_of u dvd length s" "v = VList vs"
      "map_result (object_of big u) (chunks (size_of u) s) = Inr vs"
      by (auto simp: supported_def from_generic_def plain_from_generic_def scalar_from_generic_def
          container_from_binary_def wrong_type_def invalid_value_def map_sum_Inr and_then_eq_Inr
          split: value_t.splits if_splits)
    with binary_elements_type [of u s "length s div size_of u" big vs] len show ?thesis
      by (simp add: CSequence)
  next
    case (CArray u n)
    with assms obtain s vs where "flat u" "length s = n * size_of u" "v = VList vs"
      "map_result (object_of big u) (chunks (size_of u) s) = Inr vs"
      by (auto simp: supported_def from_generic_def plain_from_generic_def scalar_from_generic_def
          array_from_binary_def wrong_type_def invalid_value_def map_sum_Inr and_then_eq_Inr
          split: value_t.splits if_splits)
    with binary_elements_type [of u s n big vs] show ?thesis by (simp add: CArray)
  qed (use assms in \<open>auto simp: supported_def from_generic_def plain_from_generic_def
      scalar_from_generic_def string_from_generic_def wrong_type_def split: value_t.splits scalar_t.splits\<close>)
qed

text \<open>
  C25. Only values of the parameter's type get through: whatever generic value a client sends,
  if \<open>from_generic\<close> accepts it then the result is a value of the parameter's type - an integer
  in range, an array of the right length, a tuple of the right types.
\<close>

theorem from_generic_sound:
  assumes "supported hint t" and "from_generic big hint t g = Inr v"
  shows "has_type t v"
proof (cases hint)
  case hint: none
  show ?thesis
  proof (cases "plain t \<or> t = CFloat")
    case True
    then have "from_generic big none t g = plain_from_generic big none t g"
      by (cases t) (auto simp: from_generic_def)
    with plain_value_type [OF True] assms(2) hint show ?thesis by simp
  next
    case False
    show ?thesis
      using assms hint False scalar_list_type tuple_from_generic_type
      by (cases t) (auto simp: supported_def from_generic_def array_from_generic_def sequence_from_generic_def
          tuple_of_generic_def as_sequence_def wrong_type_def invalid_value_def map_sum_Inr and_then_eq_Inr
          split: value_t.splits if_splits dest: map_result_Inr_length)
  qed
qed (use from_binary_type assms in simp)

theorem from_generic_sound_witness:
  "has_type (CTuple [CInt False 8, CString]) (VList [VInt 200, VString ''x''])"
  by (rule from_generic_sound [of none _ False "Tuple_t [Integer_t 200, String_t ''x'', Boolean_t True]"])
    (simp_all add: supported_def width_ok_def from_generic_def tuple_of_generic_def scalar_from_generic_def
      integral_from_generic_def string_from_generic_def convert_lossless_integer_def int_max_def int_min_def)

fun no_int64 :: "ctype \<Rightarrow> bool" where
  "no_int64 (CInt s b) = (b \<noteq> 64)"
| "no_int64 (CArray t n) = no_int64 t"
| "no_int64 (CSequence t) = no_int64 t"
| "no_int64 (CTuple ts) = list_all no_int64 ts"
| "no_int64 t = True"

lemma scalar_errors:
  assumes "plain t \<or> t = CFloat" "no_int64 t" "scalar_from_generic big none t x = Inl e"
  shows "e = Runtime wrong_type_error \<or> e = Runtime invalid_value_error"
proof (cases t)
  case (CInt s b)
  with assms have w: "width_ok b" and n: "b \<noteq> 64" and f: "integral_from_generic s b x = Inl e"
    by (simp_all add: scalar_from_generic_def)
  show ?thesis
  proof (cases x)
    case (Real_t r)
    with f to_integral_cases [OF w, of s r] n show ?thesis
      by (auto simp: CInt integral_from_generic_def Let_def)
  qed (use f in \<open>auto simp: integral_from_generic_def wrong_type_def convert_lossless_integer_def Let_def
      split: if_splits\<close>)
qed (use assms in \<open>auto simp: scalar_from_generic_def bool_from_generic_def string_from_generic_def
      double_from_generic_def float_from_generic_def real_to_double_def real_to_float_def
      convert_lossless_to_floating_point_def Let_def wrong_type_def split: scalar_t.splits if_splits\<close>)

lemma map_result_Inl: "map_result f xs = Inl e \<Longrightarrow> \<exists>x \<in> set xs. f x = Inl e"
proof (induction xs)
  case (Cons x xs)
  then show ?case by (cases "f x"; cases "map_result f xs") auto
qed simp

lemma tuple_errors:
  assumes "list_all (\<lambda>t. (plain t \<or> t = CFloat) \<and> no_int64 t) ts" "length ts \<le> length xs"
    "tuple_from_generic big ts xs = Inl e"
  shows "e = Runtime wrong_type_error \<or> e = Runtime invalid_value_error"
  using assms
proof (induction big ts xs rule: tuple_from_generic.induct)
  case (3 big t ts x xs)
  show ?case
  proof (cases "scalar_from_generic big none t x")
    case (Inl e')
    with 3 scalar_errors [of t big x e'] show ?thesis by auto
  next
    case (Inr v)
    with 3 show ?thesis by (cases "tuple_from_generic big ts xs") auto
  qed
qed simp_all

lemma short_tuple:
  "length xs < length ts \<Longrightarrow> (\<forall>i < length xs. \<exists>v. scalar_from_generic big none (ts ! i) (xs ! i) = Inr v) \<Longrightarrow>
   tuple_from_generic big ts xs = Inl Undefined"
proof (induction big ts xs rule: tuple_from_generic.induct)
  case (3 big t ts x xs)
  from 3(3) obtain v where v: "scalar_from_generic big none t x = Inr v" by force
  have "\<forall>i < length xs. \<exists>v. scalar_from_generic big none (ts ! i) (xs ! i) = Inr v"
  proof (intro allI impI)
    fix i assume "i < length xs"
    then show "\<exists>v. scalar_from_generic big none (ts ! i) (xs ! i) = Inr v" using 3(3) [rule_format, of "Suc i"] by simp
  qed
  with 3 v show ?case by simp
qed simp_all

text \<open>The generic values a plainly encoded parameter of type \<open>t\<close> can be given without undefined behaviour.\<close>

fun enough_elements :: "ctype \<Rightarrow> value_t \<Rightarrow> bool" where
  "enough_elements (CTuple ts) (Tuple_t xs) = (length ts \<le> length xs)"
| "enough_elements t g = True"

lemma from_generic_errors_parts:
  assumes "supported none t" and "no_int64 t"
  shows "enough_elements t g \<and> from_generic big none t g = Inl e \<longrightarrow>
      e = Runtime wrong_type_error \<or> e = Runtime invalid_value_error"
    and "t = CTuple ts \<and> length xs < length ts \<and>
      (\<forall>i < length xs. \<exists>v. scalar_from_generic big none (ts ! i) (xs ! i) = Inr v) \<longrightarrow>
      from_generic big none t (Tuple_t xs) = Inl Undefined"
proof -
  have elems: "e = Runtime wrong_type_error \<or> e = Runtime invalid_value_error"
    if "plain u \<or> u = CFloat" "no_int64 u" "map_result (scalar_from_generic big none u) xs = Inl e" for u xs
    using map_result_Inl [OF that(3)] scalar_errors [OF that(1)] that(2) by auto
  have tuples: "e = Runtime wrong_type_error \<or> e = Runtime invalid_value_error"
    if "t = CTuple ts" "length ts \<le> length xs" "tuple_from_generic big ts xs = Inl e" for ts xs
  proof (rule tuple_errors [OF _ that(2,3)])
    show "list_all (\<lambda>t. (plain t \<or> t = CFloat) \<and> no_int64 t) ts"
      using assms that(1) unfolding list_all_iff supported_def by (auto simp: list_all_iff)
  qed
  show "enough_elements t g \<and> from_generic big none t g = Inl e \<longrightarrow>
      e = Runtime wrong_type_error \<or> e = Runtime invalid_value_error"
  proof (cases "plain t \<or> t = CFloat")
    case True
    then have "from_generic big none t g = plain_from_generic big none t g"
      by (cases t) (auto simp: from_generic_def)
    then show ?thesis
      using scalar_errors [OF True assms(2)]
      by (auto simp: plain_from_generic_def wrong_type_def split: value_t.splits)
  next
    case False
    with assms show ?thesis
      using elems tuples
      by (cases t; cases g) (auto simp: supported_def from_generic_def array_from_generic_def
          sequence_from_generic_def tuple_of_generic_def as_sequence_def wrong_type_def invalid_value_def
          map_sum_Inl split: if_splits)
  qed
  show "t = CTuple ts \<and> length xs < length ts \<and>
      (\<forall>i < length xs. \<exists>v. scalar_from_generic big none (ts ! i) (xs ! i) = Inr v) \<longrightarrow>
      from_generic big none t (Tuple_t xs) = Inl Undefined"
    using short_tuple by (auto simp: from_generic_def tuple_of_generic_def)
qed

text \<open>
  A refused value is refused with \<open>wrong_type_error\<close> or \<open>invalid_value_error\<close> and nothing
  else happens, for every parameter type without 64 bit integers and every generic value, provided
  a tuple brings at least as many elements as the parameter's type has. A shorter tuple is read
  past its end.
\<close>

theorem from_generic_errors:
  assumes "supported none t" and "no_int64 t"
  shows "(enough_elements t g \<and> from_generic big none t g = Inl e \<longrightarrow>
      e = Runtime wrong_type_error \<or> e = Runtime invalid_value_error) \<and>
      (t = CTuple ts \<and> length xs < length ts \<and>
      (\<forall>i < length xs. \<exists>v. scalar_from_generic big none (ts ! i) (xs ! i) = Inr v) \<longrightarrow>
      from_generic big none t (Tuple_t xs) = Inl Undefined)"
  by (intro conjI; rule from_generic_errors_parts [OF assms])

theorem from_generic_errors_witness:
  "from_generic False none (CTuple [CBool, CBool]) (Tuple_t [Boolean_t True]) = Inl Undefined"
  using from_generic_errors [where t = "CTuple [CBool, CBool]" and ts = "[CBool, CBool]" and xs = "[Boolean_t True]"
      and big = False, THEN conjunct2]
  by (simp add: supported_def scalar_from_generic_def bool_from_generic_def)

end
