(* ===== verification/Parameter.thy ===== *)
theory Parameter
  imports Object_Tree Conversion
begin

text \<open>
  The parameters and events that hang in the object tree, with everything user code can plug
  into them: the class templates \<open>managed_*_parameter\<close>, \<open>external_*_parameter\<close>,
  \<open>writeonly_parameter\<close> and their handler variants, \<open>observable_parameter\<close>, \<open>event\<close> and
  \<open>handler_event\<close> (\<open>include/decof\<close>).

  A user supplied handler (or an overridden virtual function) is a function on the application
  state \<open>'e\<close> that may throw; it does not call back into the object tree. Boost's signal, one in
  every observable parameter, is the type \<open>'g\<close> with the operations of \<open>'g signals\<close>. Calling a
  slot appends to the log of deliveries.
\<close>

subsection \<open>Handlers, signals and the world\<close>

type_synonym ('e, 'a) handler = "'e \<Rightarrow> (error + 'a) \<times> 'e"

text \<open>A slot is the client context bound to it; a connection is a number unique within its signal.\<close>

type_synonym slot = nat
type_synonym connection = nat

record 'g signals =
  sig_new :: 'g
  sig_connect :: "slot \<Rightarrow> 'g \<Rightarrow> connection \<times> 'g"
  sig_disconnect :: "connection \<Rightarrow> 'g \<Rightarrow> 'g"
  sig_slots :: "'g \<Rightarrow> (connection \<times> slot) list"

datatype 'e kind =
    Managed_readonly cval
  | Managed_readwrite cval "(cval \<Rightarrow> ('e, unit) handler) option"
  | External_readonly "('e, cval) handler option" "64 word" "cval option"
  | External_readwrite "(cval \<Rightarrow> ('e, bool) handler) option" "('e, cval) handler option"
  | Writeonly "(cval \<Rightarrow> ('e, unit) handler) option"
  | Event "('e, unit) handler option"

record ('e, 'g) leaf =
  ltype :: ctype
  lhint :: encoding_hint
  kind :: "'e kind"
  value_signal :: 'g

type_synonym delivery = "slot \<times> string \<times> value_t"

record ('e, 'g) world =
  tree :: "('e, 'g) leaf heap"
  app :: 'e
  deliveries :: "delivery list"

type_synonym ('w, 'a) act = "'w \<Rightarrow> (error + 'a) \<times> 'w"

definition ret :: "'a \<Rightarrow> ('w, 'a) act" where "ret x w = (Inr x, w)"
definition throw :: "error \<Rightarrow> ('w, 'a) act" where "throw e w = (Inl e, w)"

definition run_handler :: "('e, 'a) handler \<Rightarrow> (('e, 'g) world, 'a) act" where
  "run_handler f w = (case f (app w) of (r, e) \<Rightarrow> (r, w\<lparr>app := e\<rparr>))"

definition on_tree ::
  "(('e, 'g) leaf heap \<Rightarrow> error + ('e, 'g) leaf heap) \<Rightarrow> (('e, 'g) world, unit) act" where
  "on_tree f w = (case f (tree w) of Inl e \<Rightarrow> (Inl e, w) | Inr h \<Rightarrow> (Inr (), w\<lparr>tree := h\<rparr>))"

definition get_leaf :: "addr \<Rightarrow> (('e, 'g) world, ('e, 'g) leaf) act" where
  "get_leaf a w =
     (case tree w a of
        None \<Rightarrow> (Inl Undefined, w)
      | Some ob \<Rightarrow> (case klass ob of Leaf_k l \<Rightarrow> (Inr l, w) | _ \<Rightarrow> (Inl Undefined, w)))"

text \<open>Assignment to members of a parameter.\<close>

definition upd_leaf :: "addr \<Rightarrow> (('e, 'g) leaf \<Rightarrow> ('e, 'g) leaf) \<Rightarrow> (('e, 'g) world, unit) act" where
  "upd_leaf a f = on_tree (modify a (\<lambda>ob.
     case klass ob of Leaf_k l \<Rightarrow> ob\<lparr>klass := Leaf_k (f l)\<rparr> | _ \<Rightarrow> ob))"

definition upd_kind :: "addr \<Rightarrow> ('e kind \<Rightarrow> 'e kind) \<Rightarrow> (('e, 'g) world, unit) act" where
  "upd_kind a f = upd_leaf a (\<lambda>l. l\<lparr>kind := f (kind l)\<rparr>)"

definition upd_signal :: "addr \<Rightarrow> ('g \<Rightarrow> 'g) \<Rightarrow> (('e, 'g) world, unit) act" where
  "upd_signal a f = upd_leaf a (\<lambda>l. l\<lparr>value_signal := f (value_signal l)\<rparr>)"

fun store_value :: "cval \<Rightarrow> 'e kind \<Rightarrow> 'e kind" where
  "store_value v (Managed_readonly old) = Managed_readonly v"
| "store_value v (Managed_readwrite old f) = Managed_readwrite v f"
| "store_value v k = k"

fun store_observations :: "64 word \<Rightarrow> 'e kind \<Rightarrow> 'e kind" where
  "store_observations n (External_readonly g m v) = External_readonly g n v"
| "store_observations n k = k"

fun store_last_value :: "cval \<Rightarrow> 'e kind \<Rightarrow> 'e kind" where
  "store_last_value v (External_readonly g n u) = External_readonly g n (Some v)"
| "store_last_value v k = k"

subsection \<open>Constructors\<close>

definition new_parameter ::
  "'g signals \<Rightarrow> addr \<Rightarrow> string \<Rightarrow> addr option \<Rightarrow> ctype \<Rightarrow> encoding_hint \<Rightarrow> userlevel \<Rightarrow> userlevel \<Rightarrow> 'e kind \<Rightarrow>
   (('e, 'g) world, unit) act" where
  "new_parameter S a nm parent t hint rl wl k =
     on_tree (new_object a nm parent rl wl
       (Leaf_k \<lparr>ltype = t, lhint = hint, kind = k, value_signal = sig_new S\<rparr>))"

definition new_node :: "addr \<Rightarrow> string \<Rightarrow> addr option \<Rightarrow> userlevel \<Rightarrow> (('e, 'g) world, unit) act" where
  "new_node a nm parent rl = on_tree (new_object a nm parent rl Forbidden (Node_k []))"

definition new_managed_readonly where
  "new_managed_readonly S a nm parent t hint rl v =
     new_parameter S a nm parent t hint rl Forbidden (Managed_readonly v)"

definition new_managed_readwrite where
  "new_managed_readwrite S a nm parent t hint rl wl v =
     new_parameter S a nm parent t hint rl wl (Managed_readwrite v None)"

definition new_external_readonly where
  "new_external_readonly S a nm parent t hint rl =
     new_parameter S a nm parent t hint rl Forbidden (External_readonly None 0 None)"

definition new_external_readwrite where
  "new_external_readwrite S a nm parent t hint rl wl =
     new_parameter S a nm parent t hint rl wl (External_readwrite None None)"

definition new_writeonly where
  "new_writeonly S a nm parent t hint wl =
     new_parameter S a nm parent t hint Forbidden wl (Writeonly None)"

definition new_event where
  "new_event S a nm parent wl f = new_parameter S a nm parent CBool none Forbidden wl (Event f)"

subsection \<open>Comparison of values\<close>

text \<open>
  \<open>operator==\<close>: floating point numbers compare by IEEE 754 (a NaN equals nothing, the two
  zeros are equal), containers element by element.
\<close>

fun fp_eq :: "fp \<Rightarrow> fp \<Rightarrow> bool" where
  "fp_eq (Inf s) (Inf s') = (s = s')"
| "fp_eq (Fin s m e) (Fin s' m' e') = (m = 0 \<and> m' = 0 \<or> s = s' \<and> m = m' \<and> e = e')"
| "fp_eq x y = False"

fun cpp_eq :: "cval \<Rightarrow> cval \<Rightarrow> bool" where
  "cpp_eq (VFloat x) y = (case y of VFloat x' \<Rightarrow> fp_eq (decode_float x) (decode_float x') | _ \<Rightarrow> False)"
| "cpp_eq (VDouble x) y = (case y of VDouble x' \<Rightarrow> fp_eq (decode_double x) (decode_double x') | _ \<Rightarrow> False)"
| "cpp_eq (VList xs) y = (case y of VList ys \<Rightarrow> list_all2 cpp_eq xs ys | _ \<Rightarrow> False)"
| "cpp_eq (VBool b) y = (y = VBool b)"
| "cpp_eq (VInt i) y = (y = VInt i)"
| "cpp_eq (VString s) y = (y = VString s)"
| "cpp_eq (VOther s) y = (y = VOther s)"

subsection \<open>Reading\<close>

definition external_value :: "('e, cval) handler option \<Rightarrow> (('e, 'g) world, cval) act" where
  "external_value handler =
     (case handler of Some f \<Rightarrow> run_handler f | None \<Rightarrow> throw (Runtime not_implemented_error))"

text \<open>The virtual getter \<open>value() const\<close>.\<close>

definition param_value :: "addr \<Rightarrow> (('e, 'g) world, cval) act" where
  "param_value a = st_then (get_leaf a) (\<lambda>l.
     case kind l of
       Managed_readonly v \<Rightarrow> ret v
     | Managed_readwrite v f \<Rightarrow> ret v
     | External_readonly g n v \<Rightarrow> external_value g
     | External_readwrite s g \<Rightarrow> external_value g
     | _ \<Rightarrow> throw Undefined)"

text \<open>\<open>client_read_interface::generic_value\<close>, of a parameter and of a node.\<close>

definition generic_value :: "bool \<Rightarrow> addr \<Rightarrow> (('e, 'g) world, value_t) act" where
  "generic_value big a w =
     (if is_node (tree w) a
      then (case children (tree w) a of
              Inl e \<Rightarrow> (Inl e, w)
            | Inr names \<Rightarrow> (to_generic big none (CSequence CCharPtr) (VList (map VString names)), w))
      else st_then (get_leaf a) (\<lambda>l.
             st_then (param_value a) (\<lambda>v w'. (to_generic big (lhint l) (ltype l) v, w'))) w)"

subsection \<open>Change notification\<close>

definition emit :: "'g signals \<Rightarrow> bool \<Rightarrow> addr \<Rightarrow> cval \<Rightarrow> (('e, 'g) world, unit) act" where
  "emit S big a v = st_then (get_leaf a) (\<lambda>l w.
     case fq_name (tree w) a of
       None \<Rightarrow> (Inl Undefined, w)
     | Some uri \<Rightarrow>
         (case to_generic big (lhint l) (ltype l) v of
            Inl e \<Rightarrow> (Inl e, w)
          | Inr g \<Rightarrow>
              (Inr (), w\<lparr>deliveries := deliveries w @ map (\<lambda>(c, s). (s, uri, g)) (sig_slots S (value_signal l))\<rparr>)))"

text \<open>Destroying a scoped connection; the signal may be gone.\<close>

definition disconnect :: "'g signals \<Rightarrow> addr \<Rightarrow> connection \<Rightarrow> ('e, 'g) world \<Rightarrow> ('e, 'g) world" where
  "disconnect S a c w = snd (upd_signal a (sig_disconnect S c) w)"

definition observable_observe ::
  "'g signals \<Rightarrow> bool \<Rightarrow> slot \<Rightarrow> addr \<Rightarrow> (('e, 'g) world, connection option) act" where
  "observable_observe S big s a = st_then (get_leaf a) (\<lambda>l w.
     case sig_connect S s (value_signal l) of
       (c, g) \<Rightarrow>
         (case st_then (upd_signal a (\<lambda>_. g)) (\<lambda>_. st_then (param_value a) (emit S big a)) w of
            (Inl e, w') \<Rightarrow> (Inl e, disconnect S a c w')
          | (Inr _, w') \<Rightarrow> (Inr (Some c), w')))"

definition external_readonly_observe ::
  "'g signals \<Rightarrow> bool \<Rightarrow> slot \<Rightarrow> addr \<Rightarrow> 64 word \<Rightarrow> (('e, 'g) world, connection option) act" where
  "external_readonly_observe S big s a n w =
     (case get_object_dictionary (tree w) a of
        Inl e \<Rightarrow> (Inl e, w)
      | Inr None \<Rightarrow> (Inr None, w)
      | Inr (Some od) \<Rightarrow>
          st_then (upd_kind a (store_observations (n + 1))) (\<lambda>_.
          st_then (if n = 0 then on_tree (register_for_tick od a) else ret ()) (\<lambda>_.
          observable_observe S big s a)) w)"

definition observe_param ::
  "'g signals \<Rightarrow> bool \<Rightarrow> slot \<Rightarrow> addr \<Rightarrow> (('e, 'g) world, connection option) act" where
  "observe_param S big s a = st_then (get_leaf a) (\<lambda>l.
     case kind l of
       External_readonly g n v \<Rightarrow> external_readonly_observe S big s a n
     | Managed_readonly v \<Rightarrow> observable_observe S big s a
     | Managed_readwrite v f \<Rightarrow> observable_observe S big s a
     | External_readwrite f g \<Rightarrow> observable_observe S big s a
     | _ \<Rightarrow> throw Undefined)"

definition external_readonly_unobserve :: "addr \<Rightarrow> 64 word \<Rightarrow> (('e, 'g) world, unit) act" where
  "external_readonly_unobserve a n =
     st_then (upd_kind a (store_observations (n - 1))) (\<lambda>_ w.
       if n - 1 = 0 then
         (case get_object_dictionary (tree w) a of
            Inl e \<Rightarrow> (Inl e, w)
          | Inr None \<Rightarrow> (Inr (), w)
          | Inr (Some od) \<Rightarrow> on_tree (unregister_for_tick od a) w)
       else (Inr (), w))"

definition unobserve_param :: "addr \<Rightarrow> (('e, 'g) world, unit) act" where
  "unobserve_param a = st_then (get_leaf a) (\<lambda>l.
     case kind l of
       External_readonly g n v \<Rightarrow> external_readonly_unobserve a n
     | _ \<Rightarrow> ret ())"

text \<open>\<open>external_readonly_parameter::notify\<close>, on a tick or when the server says the value changed.\<close>

definition notify_param :: "'g signals \<Rightarrow> bool \<Rightarrow> addr \<Rightarrow> (('e, 'g) world, unit) act" where
  "notify_param S big a = st_then (get_leaf a) (\<lambda>l.
     case kind l of
       External_readonly g n prev \<Rightarrow>
         st_then (external_value g) (\<lambda>cur.
           if (case prev of None \<Rightarrow> True | Some v \<Rightarrow> \<not> cpp_eq v cur) then
             st_then (emit S big a cur) (\<lambda>_. upd_kind a (store_last_value cur))
           else ret ())
     | _ \<Rightarrow> throw Undefined)"

fun tick_list :: "'g signals \<Rightarrow> bool \<Rightarrow> addr list \<Rightarrow> (('e, 'g) world, unit) act" where
  "tick_list S big [] = ret ()"
| "tick_list S big (a # as) = st_then (notify_param S big a) (\<lambda>_. tick_list S big as)"

definition tick :: "'g signals \<Rightarrow> bool \<Rightarrow> addr \<Rightarrow> (('e, 'g) world, unit) act" where
  "tick S big d w = tick_list S big (tick_targets (tree w) d) w"

subsection \<open>Writing\<close>

text \<open>The server side setter of a managed readonly parameter.\<close>

definition managed_readonly_set :: "'g signals \<Rightarrow> bool \<Rightarrow> addr \<Rightarrow> cval \<Rightarrow> (('e, 'g) world, unit) act" where
  "managed_readonly_set S big a v = st_then (get_leaf a) (\<lambda>l.
     case kind l of
       Managed_readonly old \<Rightarrow>
         if cpp_eq old v then ret ()
         else st_then (upd_kind a (store_value v)) (\<lambda>_. emit S big a v)
     | _ \<Rightarrow> throw Undefined)"

definition verify :: "(cval \<Rightarrow> ('e, unit) handler) option \<Rightarrow> cval \<Rightarrow> (('e, 'g) world, unit) act" where
  "verify handler v = (case handler of Some f \<Rightarrow> run_handler (f v) | None \<Rightarrow> ret ())"

definition managed_readwrite_set ::
  "'g signals \<Rightarrow> bool \<Rightarrow> addr \<Rightarrow> cval \<Rightarrow> (cval \<Rightarrow> ('e, unit) handler) option \<Rightarrow> cval \<Rightarrow>
   (('e, 'g) world, unit) act" where
  "managed_readwrite_set S big a old f v =
     (if cpp_eq old v then ret ()
      else st_then (verify f v) (\<lambda>_.
           st_then (upd_kind a (store_value v)) (\<lambda>_. emit S big a v)))"

definition external_readwrite_set ::
  "'g signals \<Rightarrow> bool \<Rightarrow> addr \<Rightarrow> (cval \<Rightarrow> ('e, bool) handler) option \<Rightarrow> cval \<Rightarrow>
   (('e, 'g) world, unit) act" where
  "external_readwrite_set S big a handler v =
     st_then (case handler of Some f \<Rightarrow> run_handler (f v) | None \<Rightarrow> throw (Runtime not_implemented_error))
       (\<lambda>ok. if ok then emit S big a v else ret ())"

definition writeonly_set :: "(cval \<Rightarrow> ('e, unit) handler) option \<Rightarrow> cval \<Rightarrow> (('e, 'g) world, unit) act" where
  "writeonly_set handler v = (case handler of Some f \<Rightarrow> run_handler (f v) | None \<Rightarrow> ret ())"

text \<open>\<open>client_write_interface::generic_value\<close>: conversion, then the virtual setter.\<close>

definition set_generic_value :: "'g signals \<Rightarrow> bool \<Rightarrow> addr \<Rightarrow> value_t \<Rightarrow> (('e, 'g) world, unit) act" where
  "set_generic_value S big a g = st_then (get_leaf a) (\<lambda>l.
     case from_generic big (lhint l) (ltype l) g of
       Inl e \<Rightarrow> throw e
     | Inr v \<Rightarrow>
         (case kind l of
            Managed_readwrite old f \<Rightarrow> managed_readwrite_set S big a old f v
          | External_readwrite s h \<Rightarrow> external_readwrite_set S big a s v
          | Writeonly h \<Rightarrow> writeonly_set h v
          | _ \<Rightarrow> throw Undefined))"

text \<open>\<open>handler_event::signal\<close>: without a handler the event is ignored.\<close>

definition event_signal :: "addr \<Rightarrow> (('e, 'g) world, unit) act" where
  "event_signal a = st_then (get_leaf a) (\<lambda>l.
     case kind l of
       Event h \<Rightarrow> (case h of Some f \<Rightarrow> run_handler f | None \<Rightarrow> ret ())
     | _ \<Rightarrow> throw Undefined)"

text \<open>Registration of handlers.\<close>

definition set_handlers :: "addr \<Rightarrow> ('e kind \<Rightarrow> 'e kind) \<Rightarrow> (('e, 'g) world, unit) act" where
  "set_handlers a f = upd_kind a f"

fun verify_handler :: "(cval \<Rightarrow> ('e, unit) handler) option \<Rightarrow> 'e kind \<Rightarrow> 'e kind" where
  "verify_handler f (Managed_readwrite v g) = Managed_readwrite v f"
| "verify_handler f k = k"

fun external_value_handler :: "('e, cval) handler option \<Rightarrow> 'e kind \<Rightarrow> 'e kind" where
  "external_value_handler f (External_readonly g n v) = External_readonly f n v"
| "external_value_handler f k = k"

fun external_value_set_handler :: "(cval \<Rightarrow> ('e, bool) handler) option \<Rightarrow> 'e kind \<Rightarrow> 'e kind" where
  "external_value_set_handler f (External_readwrite s g) = External_readwrite f g"
| "external_value_set_handler f k = k"

fun external_value_get_handler :: "('e, cval) handler option \<Rightarrow> 'e kind \<Rightarrow> 'e kind" where
  "external_value_get_handler f (External_readwrite s g) = External_readwrite s f"
| "external_value_get_handler f k = k"

fun value_handler :: "(cval \<Rightarrow> ('e, unit) handler) option \<Rightarrow> 'e kind \<Rightarrow> 'e kind" where
  "value_handler f (Writeonly g) = Writeonly f"
| "value_handler f k = k"

fun signal_handler :: "('e, unit) handler option \<Rightarrow> 'e kind \<Rightarrow> 'e kind" where
  "signal_handler f (Event g) = Event f"
| "signal_handler f k = k"

subsection \<open>Interfaces of an object\<close>

text \<open>The \<open>dynamic_cast\<close>s of the client contexts.\<close>

fun readable_kind :: "'e kind \<Rightarrow> bool" where
  "readable_kind (Writeonly h) = False"
| "readable_kind (Event h) = False"
| "readable_kind k = True"

fun writable_kind :: "'e kind \<Rightarrow> bool" where
  "writable_kind (Managed_readwrite v f) = True"
| "writable_kind (External_readwrite s g) = True"
| "writable_kind (Writeonly h) = True"
| "writable_kind k = False"

fun event_kind :: "'e kind \<Rightarrow> bool" where
  "event_kind (Event h) = True"
| "event_kind k = False"

fun leaf_klass :: "('e kind \<Rightarrow> bool) \<Rightarrow> ('e, 'g) leaf klass \<Rightarrow> bool" where
  "leaf_klass P (Leaf_k l) = P (kind l)"
| "leaf_klass P k = False"

definition read_interface :: "('e, 'g) leaf klass \<Rightarrow> bool" where
  "read_interface k \<longleftrightarrow> klass_children k \<noteq> None \<or> leaf_klass readable_kind k"

definition write_interface :: "('e, 'g) leaf klass \<Rightarrow> bool" where
  "write_interface k \<longleftrightarrow> leaf_klass writable_kind k"

definition observe_interface :: "('e, 'g) leaf klass \<Rightarrow> bool" where
  "observe_interface k \<longleftrightarrow> leaf_klass readable_kind k"

definition event_interface :: "('e, 'g) leaf klass \<Rightarrow> bool" where
  "event_interface k \<longleftrightarrow> leaf_klass event_kind k"

text \<open>\<open>accept\<close> calls the visitor with the type tag of the parameter.\<close>

datatype visited = Visit_object | Visit_event | Visit_node | Visit_param type_tag

definition accept_tag :: "('e, 'g) leaf klass \<Rightarrow> visited" where
  "accept_tag k =
     (case k of
        Plain_k \<Rightarrow> Visit_object
      | Leaf_k l \<Rightarrow> (if event_kind (kind l) then Visit_event else Visit_param (type_tag_of (lhint l) (ltype l)))
      | _ \<Rightarrow> Visit_node)"


subsection \<open>What the operations leave alone\<close>

text \<open>
  The outline of a heap: names, levels, links and the kind of every object - all but the values,
  handlers and slots of parameters and the dictionary's current context and tick targets.
\<close>

definition leaf_sig :: "('e, 'g) leaf \<Rightarrow> ctype \<times> encoding_hint \<times> bool \<times> bool \<times> bool" where
  "leaf_sig l = (ltype l, lhint l, readable_kind (kind l), writable_kind (kind l), event_kind (kind l))"

definition klass_shape where
  "klass_shape k = (klass_children k, is_dictionary_klass k, (case k of Leaf_k l \<Rightarrow> Some (leaf_sig l) | _ \<Rightarrow> None))"

definition outline where
  "outline h a = map_option (\<lambda>ob. (oname ob, oparent ob, oreadlevel ob, owritelevel ob, klass_shape (klass ob))) (h a)"

definition keeps :: "(('e, 'g) world, 'a) act \<Rightarrow> bool" where
  "keeps f \<longleftrightarrow> (\<forall>w. outline (tree (snd (f w))) = outline (tree w))"

named_theorems keeps_intros \<open>operations that keep the outline of the tree\<close>

lemma keeps_ret [keeps_intros]: "keeps (ret x)"
  by (simp add: keeps_def ret_def)

lemma keeps_throw [keeps_intros]: "keeps (throw e)"
  by (simp add: keeps_def throw_def)

lemma keeps_then [keeps_intros]: "keeps f \<Longrightarrow> (\<And>x. keeps (g x)) \<Longrightarrow> keeps (st_then f g)"
  unfolding keeps_def st_then_def by (auto split: prod.splits sum.splits) (metis snd_conv)+

lemma keeps_run_handler [keeps_intros]: "keeps (run_handler f)"
  by (simp add: keeps_def run_handler_def split: prod.split)

lemma keeps_get_leaf [keeps_intros]: "keeps (get_leaf a)"
  by (simp add: keeps_def get_leaf_def split: option.split klass.split)

lemma keeps_on_tree: "(\<And>h h'. f h = Inr h' \<Longrightarrow> outline h' = outline h) \<Longrightarrow> keeps (on_tree f)"
  by (auto simp: keeps_def on_tree_def split: sum.split)

lemma outline_upd:
  assumes "\<And>ob. h a = Some ob \<Longrightarrow> (oname (f ob), oparent (f ob), oreadlevel (f ob), owritelevel (f ob), klass_shape (klass (f ob))) =
     (oname ob, oparent ob, oreadlevel ob, owritelevel ob, klass_shape (klass ob))"
    and "modify a f h = Inr h'"
  shows "outline h' = outline h"
proof -
  from assms(2) obtain ob where "h a = Some ob" "h' = h(a \<mapsto> f ob)"
    by (auto simp: modify_def split: option.splits)
  then show ?thesis using assms(1) [of ob] by (auto simp: outline_def fun_eq_iff)
qed

lemma keeps_upd_leaf:
  assumes "\<And>l. leaf_sig (f l) = leaf_sig l"
  shows "keeps (upd_leaf a f)"
  unfolding upd_leaf_def
  by (rule keeps_on_tree, rule outline_upd) (auto simp: klass_shape_def assms split: klass.splits)

lemma keeps_upd_kind:
  assumes "\<And>k. readable_kind (f k) = readable_kind k" "\<And>k. writable_kind (f k) = writable_kind k"
    "\<And>k. event_kind (f k) = event_kind k"
  shows "keeps (upd_kind a f)"
  unfolding upd_kind_def by (rule keeps_upd_leaf) (simp add: leaf_sig_def assms)

lemma kind_store [simp]:
  "readable_kind (store_value v k) = readable_kind k" "writable_kind (store_value v k) = writable_kind k"
  "event_kind (store_value v k) = event_kind k"
  "readable_kind (store_observations n k) = readable_kind k" "writable_kind (store_observations n k) = writable_kind k"
  "event_kind (store_observations n k) = event_kind k"
  "readable_kind (store_last_value v k) = readable_kind k" "writable_kind (store_last_value v k) = writable_kind k"
  "event_kind (store_last_value v k) = event_kind k"
  by (cases k; simp)+

lemma keeps_stores [keeps_intros]:
  "keeps (upd_kind a (store_value v))" "keeps (upd_kind a (store_observations n))" "keeps (upd_kind a (store_last_value v))"
  by (rule keeps_upd_kind; simp)+

lemma keeps_upd_signal [keeps_intros]: "keeps (upd_signal a f)"
  unfolding upd_signal_def by (rule keeps_upd_leaf) (simp add: leaf_sig_def)

lemma klass_shape_upd [simp]:
  "klass_shape (upd_ticks f k) = klass_shape k" "klass_shape (upd_context c k) = klass_shape k"
  by (cases k; simp add: klass_shape_def)+

lemma keeps_ticks [keeps_intros]:
  "keeps (on_tree (register_for_tick d a))" "keeps (on_tree (unregister_for_tick d a))"
  unfolding register_for_tick_def unregister_for_tick_def
  by (rule keeps_on_tree, rule outline_upd; simp)+

lemma keeps_external_value [keeps_intros]: "keeps (external_value g)"
  by (auto simp: external_value_def intro: keeps_intros split: option.split)

lemma keeps_param_value [keeps_intros]: "keeps (param_value a)"
  unfolding param_value_def by (auto intro!: keeps_intros split: kind.split)

lemma keeps_generic_value [keeps_intros]: "keeps (generic_value big a)"
proof -
  have "keeps (st_then (get_leaf a) (\<lambda>l. st_then (param_value a) (\<lambda>v w'. (to_generic big (lhint l) (ltype l) v, w'))))"
    by (intro keeps_intros) (simp add: keeps_def)
  then show ?thesis by (auto simp: keeps_def generic_value_def split: sum.split)
qed

lemma keeps_emit [keeps_intros]: "keeps (emit S big a v)"
  unfolding emit_def by (intro keeps_intros) (simp add: keeps_def split: option.split sum.split)

lemma outline_disconnect [simp]: "outline (tree (disconnect S a c w)) = outline (tree w)"
  by (simp add: disconnect_def keeps_upd_signal [unfolded keeps_def, rule_format])

lemma keeps_observable_observe [keeps_intros]: "keeps (observable_observe S big s a)"
proof -
  have "keeps (st_then (upd_signal a (\<lambda>_. g)) (\<lambda>_. st_then (param_value a) (emit S big a)))" for g
    by (intro keeps_intros)
  note k = this [unfolded keeps_def, rule_format]
  have "keeps (\<lambda>w. case sig_connect S s x of (c, g) \<Rightarrow>
      (case st_then (upd_signal a (\<lambda>_. g)) (\<lambda>_. st_then (param_value a) (emit S big a)) w of
         (Inl e, w') \<Rightarrow> (Inl e, disconnect S a c w') | (Inr _, w') \<Rightarrow> (Inr (Some c), w')))" for x
    unfolding keeps_def
  proof
    fix w
    obtain c g where c: "sig_connect S s x = (c, g)" by fastforce
    obtain r w' where r: "st_then (upd_signal a (\<lambda>_. g)) (\<lambda>_. st_then (param_value a) (emit S big a)) w = (r, w')"
      by fastforce
    show "outline (tree (snd (case sig_connect S s x of (c, g) \<Rightarrow>
      (case st_then (upd_signal a (\<lambda>_. g)) (\<lambda>_. st_then (param_value a) (emit S big a)) w of
         (Inl e, w') \<Rightarrow> (Inl e, disconnect S a c w') | (Inr _, w') \<Rightarrow> (Inr (Some c), w'))))) = outline (tree w)"
      using k [of g w] by (cases r) (simp_all add: c r)
  qed
  then show ?thesis unfolding observable_observe_def by (intro keeps_intros)
qed

lemma keeps_observe_param [keeps_intros]: "keeps (observe_param S big s a)"
proof -
  have "keeps (external_readonly_observe S big s a n)" for n
  proof -
    have "keeps (st_then (upd_kind a (store_observations (n + 1))) (\<lambda>_.
          st_then (if n = 0 then on_tree (register_for_tick od a) else ret ()) (\<lambda>_. observable_observe S big s a)))" for od
      by (auto intro!: keeps_intros)
    then show ?thesis by (auto simp: keeps_def external_readonly_observe_def split: sum.split option.split)
  qed
  then show ?thesis unfolding observe_param_def by (auto intro!: keeps_intros split: kind.split)
qed

lemma keeps_unobserve_param [keeps_intros]: "keeps (unobserve_param a)"
proof -
  have "keeps (\<lambda>w. if (n :: 64 word) - 1 = 0 then
         (case get_object_dictionary (tree w) a of
            Inl e \<Rightarrow> (Inl e, w) | Inr None \<Rightarrow> (Inr (), w) | Inr (Some od) \<Rightarrow> on_tree (unregister_for_tick od a) w)
       else (Inr (), w))" for n
    using keeps_ticks(2) by (auto simp: keeps_def split: sum.split option.split)
  then show ?thesis
    unfolding unobserve_param_def external_readonly_unobserve_def
    by (auto intro!: keeps_intros split: kind.split)
qed

lemma keeps_notify_param [keeps_intros]: "keeps (notify_param S big a)"
  unfolding notify_param_def by (auto intro!: keeps_intros split: kind.split)

lemma keeps_tick_list [keeps_intros]: "keeps (tick_list S big as)"
  by (induction as) (auto intro!: keeps_intros)

lemma keeps_tick [keeps_intros]: "keeps (tick S big d)"
  using keeps_tick_list by (auto simp: keeps_def tick_def)

lemma keeps_set_generic_value [keeps_intros]: "keeps (set_generic_value S big a g)"
  unfolding set_generic_value_def managed_readwrite_set_def external_readwrite_set_def writeonly_set_def verify_def
  by (auto intro!: keeps_intros split: kind.split sum.split option.split)

lemma keeps_managed_readonly_set [keeps_intros]: "keeps (managed_readonly_set S big a v)"
  unfolding managed_readonly_set_def by (auto intro!: keeps_intros split: kind.split)

lemma keeps_event_signal [keeps_intros]: "keeps (event_signal a)"
  unfolding event_signal_def by (auto intro!: keeps_intros split: kind.split option.split)

text \<open>What depends on the outline only.\<close>

lemma outlineD:
  assumes "outline h' = outline h" "h a = Some ob"
  obtains ob' where "h' a = Some ob'" "oname ob' = oname ob" "oparent ob' = oparent ob"
    "oreadlevel ob' = oreadlevel ob" "owritelevel ob' = owritelevel ob" "klass_shape (klass ob') = klass_shape (klass ob)"
  using fun_cong [OF assms(1), of a] assms(2) by (auto simp: outline_def)

lemma outline_None: "outline h' = outline h \<Longrightarrow> h' a = None \<longleftrightarrow> h a = None"
  by (drule fun_cong [of _ _ a]) (auto simp: outline_def)

lemma outline_fields:
  assumes "outline h' = outline h"
  shows "dom h' = dom h" "parent_of h' = parent_of h" "children_of h' = children_of h"
proof -
  show "dom h' = dom h" using outline_None [OF assms] by (auto simp: dom_def)
  have "parent_of h' a = parent_of h a \<and> children_of h' a = children_of h a" for a
  proof (cases "h a")
    case None
    then show ?thesis using outline_None [OF assms, of a] by (simp add: parent_of_def children_of_def)
  next
    case (Some ob)
    obtain ob' where "h' a = Some ob'" "oparent ob' = oparent ob" "klass_shape (klass ob') = klass_shape (klass ob)"
      by (rule outlineD [OF assms Some])
    then show ?thesis by (simp add: Some parent_of_def children_of_def klass_shape_def)
  qed
  then show "parent_of h' = parent_of h" "children_of h' = children_of h" by auto
qed

lemma outline_tree_ok: "outline h' = outline h \<Longrightarrow> tree_ok h' = tree_ok h"
  using outline_fields [of h' h] by (intro tree_ok_cong) auto

lemma outline_fq_name_le:
  assumes "fq_name h a = Some s"
  shows "outline h' = outline h \<longrightarrow> fq_name h' a = Some s"
proof (rule fq_name.raw_induct [where P = "\<lambda>h a s. outline h' = outline h \<longrightarrow> fq_name h' a = Some s", OF _ assms])
  fix f h a s
  assume IH: "\<And>h a s. f h a = Some s \<Longrightarrow> outline h' = outline h \<longrightarrow> fq_name h' a = Some s"
    and step: "(case h a of None \<Rightarrow> None
       | Some ob \<Rightarrow> (case oparent ob of None \<Rightarrow> Some (oname ob)
           | Some p \<Rightarrow> Option.bind (f h p) (\<lambda>s. Some (s @ '':'' @ oname ob)))) = Some s"
  show "outline h' = outline h \<longrightarrow> fq_name h' a = Some s"
  proof
    assume same: "outline h' = outline h"
    from step obtain ob where ob: "h a = Some ob" by (auto split: option.splits)
    obtain ob' where ob': "h' a = Some ob'" "oname ob' = oname ob" "oparent ob' = oparent ob"
      by (rule outlineD [OF same ob])
    show "fq_name h' a = Some s"
    proof (cases "oparent ob")
      case None
      with step ob ob' show ?thesis by (simp add: fq_name.simps [of h' a])
    next
      case (Some p)
      with step ob obtain t where t: "f h p = Some t" "s = t @ '':'' @ oname ob"
        by (auto simp: bind_eq_Some_conv)
      have "outline h' = outline h \<longrightarrow> fq_name h' p = Some t" by (rule IH) (rule t(1))
      with t same Some ob' show ?thesis by (simp add: fq_name.simps [of h' a])
    qed
  qed
qed

lemma outline_fq_name: "outline h' = outline h \<Longrightarrow> fq_name h' a = fq_name h a"
  using outline_fq_name_le [of h a _ h'] outline_fq_name_le [of h' a _ h]
  by (metis option.exhaust)

lemma outline_root_of_le:
  assumes "root_of h a = Some r"
  shows "outline h' = outline h \<longrightarrow> root_of h' a = Some r"
proof (rule root_of.raw_induct [where P = "\<lambda>h a r. outline h' = outline h \<longrightarrow> root_of h' a = Some r", OF _ assms])
  fix f h a r
  assume IH: "\<And>h a r. f h a = Some r \<Longrightarrow> outline h' = outline h \<longrightarrow> root_of h' a = Some r"
    and step: "(case h a of None \<Rightarrow> None
       | Some ob \<Rightarrow> (case oparent ob of None \<Rightarrow> Some a | Some p \<Rightarrow> f h p)) = Some r"
  show "outline h' = outline h \<longrightarrow> root_of h' a = Some r"
  proof
    assume same: "outline h' = outline h"
    from step obtain ob where ob: "h a = Some ob" by (auto split: option.splits)
    obtain ob' where ob': "h' a = Some ob'" "oparent ob' = oparent ob"
      by (rule outlineD [OF same ob])
    show "root_of h' a = Some r"
    proof (cases "oparent ob")
      case None
      with step ob ob' show ?thesis by (subst root_of.simps) simp
    next
      case (Some p)
      with step ob have t: "f h p = Some r" by simp
      have "outline h' = outline h \<longrightarrow> root_of h' p = Some r" by (rule IH) (rule t)
      with same Some ob' show ?thesis by (simp add: root_of.simps [of h' a])
    qed
  qed
qed

lemma outline_root_of: "outline h' = outline h \<Longrightarrow> root_of h' a = root_of h a"
  using outline_root_of_le [of h a _ h'] outline_root_of_le [of h' a _ h]
  by (metis option.exhaust)

lemma outline_dictionary:
  assumes "outline h' = outline h"
  shows "get_object_dictionary h' a = get_object_dictionary h a"
proof (cases "root_of h a")
  case (Some r)
  show ?thesis
  proof (cases "h r")
    case None
    then show ?thesis
      using outline_None [OF assms, of r] Some outline_root_of [OF assms, of a]
      by (simp add: get_object_dictionary_def deref_def)
  next
    case ob: (Some ob)
    obtain ob' where "h' r = Some ob'" "klass_shape (klass ob') = klass_shape (klass ob)"
      by (rule outlineD [OF assms ob])
    then show ?thesis
      using ob Some outline_root_of [OF assms, of a]
      by (simp add: get_object_dictionary_def deref_def klass_shape_def)
  qed
qed (simp add: get_object_dictionary_def outline_root_of [OF assms])

lemma outline_names:
  assumes "outline h' = outline h"
  shows "children h' a = children h a" "is_node h' a = is_node h a"
proof -
  have "deref h' c = Inl Undefined \<and> deref h c = Inl Undefined \<or>
      (\<exists>ob ob'. deref h' c = Inr ob' \<and> deref h c = Inr ob \<and> oname ob' = oname ob)" for c
  proof (cases "h c")
    case None
    then show ?thesis using outline_None [OF assms, of c] by (simp add: deref_def)
  next
    case (Some ob)
    obtain ob' where "h' c = Some ob'" "oname ob' = oname ob" by (rule outlineD [OF assms Some])
    with Some show ?thesis by (simp add: deref_def)
  qed
  then have "and_then (deref h' c) (\<lambda>ob. Inr (oname ob)) = and_then (deref h c) (\<lambda>ob. Inr (oname ob))" for c
    by (metis and_then_simps)
  then have n: "names_of h' cs = names_of h cs" for cs by simp
  show "children h' a = children h a" "is_node h' a = is_node h a"
    using outline_fields(3) [OF assms]
    by (simp_all add: children_def is_node_def n split: option.split del: names_of.simps)
qed

end
