(* ===== verification/Client_Context.thy ===== *)
theory Client_Context
  imports Parameter
begin

text \<open>
  The client contexts (\<open>src/core/basic_client_context.cpp\<close>, \<open>src/core/client_context.cpp\<close>):
  one connection's userlevel and observations, and the checked access to the object tree that
  every protocol goes through. An \<open>object*\<close> argument is an optional address, \<open>None\<close> the null
  pointer. \<open>with_context\<close> is the \<open>context_guard\<close> every operation opens first.
\<close>

record client =
  cid :: addr
  cul :: userlevel
  observables :: "string \<rightharpoonup> (addr \<times> connection) option"

definition new_client :: "addr \<Rightarrow> userlevel \<Rightarrow> client" where
  "new_client a ul = \<lparr>cid = a, cul = ul, observables = Map.empty\<rparr>"

definition effective_userlevel :: "client \<Rightarrow> userlevel" where
  "effective_userlevel c = (if cul c = Readonly then Normal else cul c)"

definition set_userlevel :: "userlevel \<Rightarrow> (client, unit) act" where
  "set_userlevel ul c =
     (if ul < Minimum \<or> ul > Maximum then (Inl (Runtime invalid_userlevel_error), c)
      else (Inr (), c\<lparr>cul := ul\<rparr>))"

definition with_context :: "addr \<Rightarrow> client \<Rightarrow> (('e, 'g) world, 'a) act \<Rightarrow> (('e, 'g) world, 'a) act" where
  "with_context d c f w =
     (case set_current_context d (Some (cid c)) (tree w) of
        Inl e \<Rightarrow> (Inl e, w)
      | Inr h \<Rightarrow>
          (case f (w\<lparr>tree := h\<rparr>) of
             (r, w') \<Rightarrow>
               (case set_current_context d None (tree w') of
                  Inl e \<Rightarrow> (Inl e, w')
                | Inr h' \<Rightarrow> (r, w'\<lparr>tree := h'\<rparr>))))"

definition get_object :: "addr \<Rightarrow> (('e, 'g) world, ('e, 'g) leaf object) act" where
  "get_object a w = (deref (tree w) a, w)"

text \<open>\<open>dynamic_cast\<close> to an interface: null and objects without it are invalid parameters.\<close>

definition cast_object ::
  "(('e, 'g) leaf klass \<Rightarrow> bool) \<Rightarrow> addr option \<Rightarrow> (('e, 'g) world, addr \<times> ('e, 'g) leaf object) act" where
  "cast_object interface obj =
     (case obj of
        None \<Rightarrow> throw (Runtime invalid_parameter_error)
      | Some a \<Rightarrow> st_then (get_object a) (\<lambda>ob.
          if interface (klass ob) then ret (a, ob) else throw (Runtime invalid_parameter_error)))"

definition set_parameter ::
  "'g signals \<Rightarrow> bool \<Rightarrow> addr \<Rightarrow> client \<Rightarrow> addr option \<Rightarrow> value_t \<Rightarrow> (('e, 'g) world, unit) act" where
  "set_parameter S big d c obj g = with_context d c
     (if cul c = Readonly then throw (Runtime access_denied_error)
      else st_then (cast_object write_interface obj) (\<lambda>(a, ob).
           if cul c > owritelevel ob then throw (Runtime access_denied_error)
           else set_generic_value S big a g))"

definition get_parameter :: "bool \<Rightarrow> addr \<Rightarrow> client \<Rightarrow> addr option \<Rightarrow> (('e, 'g) world, value_t) act" where
  "get_parameter big d c obj = with_context d c
     (st_then (cast_object read_interface obj) (\<lambda>(a, ob).
        if effective_userlevel c > oreadlevel ob then throw (Runtime access_denied_error)
        else generic_value big a))"

definition signal_event :: "addr \<Rightarrow> client \<Rightarrow> addr option \<Rightarrow> (('e, 'g) world, unit) act" where
  "signal_event d c obj = with_context d c
     (if cul c = Readonly then throw (Runtime access_denied_error)
      else st_then (cast_object event_interface obj) (\<lambda>(a, ob).
           if cul c > owritelevel ob then throw (Runtime access_denied_error)
           else event_signal a))"

subsection \<open>Browsing\<close>

text \<open>
  The traversal is recursive without a bound; fuel stands for the stack, and running out of it is
  undefined behaviour. The visitor is a function on a state \<open>'s\<close> of its own.
\<close>

fun each :: "('a \<Rightarrow> ('s, unit) act) \<Rightarrow> 'a list \<Rightarrow> ('s, unit) act" where
  "each f [] = ret ()"
| "each f (x # xs) = st_then (f x) (\<lambda>_. each f xs)"

primrec browse ::
  "nat \<Rightarrow> userlevel \<Rightarrow> 'x heap \<Rightarrow> (addr \<Rightarrow> ('s, unit) act) \<Rightarrow> addr option \<Rightarrow> ('s, unit) act" where
  "browse 0 ul h visit obj = throw Undefined"
| "browse (Suc n) ul h visit obj =
     (case obj of
        None \<Rightarrow> throw (Runtime invalid_parameter_error)
      | Some a \<Rightarrow>
          (case h a of
             None \<Rightarrow> throw Undefined
           | Some ob \<Rightarrow> st_then (visit a) (\<lambda>_.
               case klass_children (klass ob) of
                 None \<Rightarrow> ret ()
               | Some cs \<Rightarrow> each (\<lambda>child.
                   case h child of
                     None \<Rightarrow> throw Undefined
                   | Some cob \<Rightarrow>
                       if ul \<le> oreadlevel cob then browse n ul h visit (Some child) else ret ()) cs)))"

definition browse_object ::
  "nat \<Rightarrow> client \<Rightarrow> 'x heap \<Rightarrow> (addr \<Rightarrow> ('s, unit) act) \<Rightarrow> addr option \<Rightarrow> ('s, unit) act" where
  "browse_object n c h visit obj = browse n (effective_userlevel c) h visit obj"

subsection \<open>Observation\<close>

text \<open>The operations of \<open>client_context\<close> also change the context: their state is a pair.\<close>

definition on_world :: "(('e, 'g) world, 'a) act \<Rightarrow> (client \<times> ('e, 'g) world, 'a) act" where
  "on_world f cw = (case cw of (c, w) \<Rightarrow> (case f w of (r, w') \<Rightarrow> (r, (c, w'))))"

definition with_context_cw ::
  "addr \<Rightarrow> (client \<times> ('e, 'g) world, 'a) act \<Rightarrow> (client \<times> ('e, 'g) world, 'a) act" where
  "with_context_cw d f cw =
     (case cw of (c, w) \<Rightarrow>
       (case set_current_context d (Some (cid c)) (tree w) of
          Inl e \<Rightarrow> (Inl e, cw)
        | Inr h \<Rightarrow>
            (case f (c, w\<lparr>tree := h\<rparr>) of
               (r, (c', w')) \<Rightarrow>
                 (case set_current_context d None (tree w') of
                    Inl e \<Rightarrow> (Inl e, (c', w'))
                  | Inr h' \<Rightarrow> (r, (c', w'\<lparr>tree := h'\<rparr>))))))"

definition deliver :: "slot \<Rightarrow> string \<Rightarrow> value_t \<Rightarrow> (('e, 'g) world, unit) act" where
  "deliver s uri g w = (Inr (), w\<lparr>deliveries := deliveries w @ [(s, uri, g)]\<rparr>)"

definition name_of :: "addr \<Rightarrow> (('e, 'g) world, string) act" where
  "name_of a w = (case fq_name (tree w) a of None \<Rightarrow> (Inl Undefined, w) | Some uri \<Rightarrow> (Inr uri, w))"

definition observe ::
  "'g signals \<Rightarrow> bool \<Rightarrow> addr \<Rightarrow> addr option \<Rightarrow> (client \<times> ('e, 'g) world, unit) act" where
  "observe S big d obj = with_context_cw d
     (st_then (on_world (cast_object observe_interface obj)) (\<lambda>(a, ob) (c, w).
        if effective_userlevel c > oreadlevel ob then (Inl (Runtime access_denied_error), (c, w))
        else
          st_then (on_world (name_of a)) (\<lambda>uri (c, w).
            if observables c uri = None then
              st_then (on_world (observe_param S big (cid c) a)) (\<lambda>conn (c, w).
                (Inr (), (c\<lparr>observables := (observables c)(uri \<mapsto> map_option (\<lambda>k. (a, k)) conn)\<rparr>, w))) (c, w)
            else
              st_then (on_world (generic_value big a)) (\<lambda>g. on_world (deliver (cid c) uri g)) (c, w)) (c, w)))"

text \<open>Erasing the map entry destroys the scoped connection it holds.\<close>

definition drop_connection ::
  "'g signals \<Rightarrow> (addr \<times> connection) option \<Rightarrow> ('e, 'g) world \<Rightarrow> ('e, 'g) world" where
  "drop_connection S conn w = (case conn of None \<Rightarrow> w | Some (a, k) \<Rightarrow> disconnect S a k w)"

definition unobserve :: "'g signals \<Rightarrow> addr \<Rightarrow> addr option \<Rightarrow> (client \<times> ('e, 'g) world, unit) act" where
  "unobserve S d obj = with_context_cw d
     (case obj of
        None \<Rightarrow> throw Undefined
      | Some a \<Rightarrow>
          st_then (on_world (name_of a)) (\<lambda>uri (c, w).
            case observables c uri of
              None \<Rightarrow> (Inl (Runtime not_subscribed_error), (c, w))
            | Some conn \<Rightarrow>
                st_then (on_world (cast_object observe_interface (Some a))) (\<lambda>_ (c, w).
                  on_world (unobserve_param a)
                    (c\<lparr>observables := (observables c)(uri := None)\<rparr>, drop_connection S conn w)) (c, w)))"

definition client_tick :: "'g signals \<Rightarrow> bool \<Rightarrow> addr \<Rightarrow> (('e, 'g) world, unit) act" where
  "client_tick S big d = tick S big d"

text \<open>
  The defaulted destructor destroys the map and with it the connections; nobody calls
  \<open>unobserve\<close> on the parameters.
\<close>

definition delete_client :: "'g signals \<Rightarrow> client \<Rightarrow> string list \<Rightarrow> ('e, 'g) world \<Rightarrow> ('e, 'g) world" where
  "delete_client S c uris w =
     fold (\<lambda>uri w. case observables c uri of None \<Rightarrow> w | Some conn \<Rightarrow> drop_connection S conn w) uris w"


subsection \<open>The context guard\<close>

text \<open>The dictionary \<open>d\<close> exists and nobody is being served.\<close>

definition idle :: "addr \<Rightarrow> ('e, 'g) world \<Rightarrow> bool" where
  "idle d w \<longleftrightarrow> (\<exists>ob cs ts. tree w d = Some ob \<and> klass ob = Dictionary_k cs None ts)"

text \<open>The world while client \<open>c\<close> is being served.\<close>

definition serving :: "addr \<Rightarrow> client \<Rightarrow> ('e, 'g) world \<Rightarrow> ('e, 'g) world" where
  "serving d c w = w\<lparr>tree := (tree w)(d := map_option (\<lambda>ob. ob\<lparr>klass := upd_context (Some (cid c)) (klass ob)\<rparr>) (tree w d))\<rparr>"

definition served :: "addr \<Rightarrow> ('e, 'g) world \<Rightarrow> ('e, 'g) world" where
  "served d w = w\<lparr>tree := (tree w)(d := map_option (\<lambda>ob. ob\<lparr>klass := upd_context None (klass ob)\<rparr>) (tree w d))\<rparr>"

lemma serving_outline [simp]: "outline (tree (serving d c w)) = outline (tree w)"
  by (auto simp: serving_def outline_def fun_eq_iff option.map_comp comp_def)

lemma served_outline [simp]: "outline (tree (served d w)) = outline (tree w)"
  by (auto simp: served_def outline_def fun_eq_iff option.map_comp comp_def)

lemma with_context_keeps:
  assumes "keeps f" "d \<in> dom (tree w)"
  shows "with_context d c f w = (case f (serving d c w) of (r, w') \<Rightarrow> (r, served d w'))"
proof -
  obtain ob where ob: "tree w d = Some ob" using assms(2) by blast
  obtain r w' where f: "f (serving d c w) = (r, w')" by fastforce
  have "outline (tree w') = outline (tree (serving d c w))"
    using assms(1) f by (metis keeps_def snd_conv)
  then have "dom (tree w') = dom (tree w)" using outline_fields(1) serving_outline by metis
  then obtain ob' where "tree w' d = Some ob'" using assms(2) by blast
  then show ?thesis
    using f ob by (simp add: with_context_def set_current_context_def modify_def serving_def served_def)
qed

lemma served_serving: "idle d w \<Longrightarrow> served d (serving d c w) = w"
  by (auto simp: idle_def served_def serving_def fun_upd_idem)

lemma idle_dom: "idle d w \<Longrightarrow> d \<in> dom (tree w)"
  by (auto simp: idle_def)

lemma idle_served:
  assumes "idle d w" "outline (tree w') = outline (tree w)"
  shows "idle d (served d w')"
proof -
  obtain ob cs ts where ob: "tree w d = Some ob" "klass ob = Dictionary_k cs None ts"
    using assms(1) by (auto simp: idle_def)
  obtain ob' where ob': "tree w' d = Some ob'" "klass_shape (klass ob') = klass_shape (klass ob)"
    by (rule outlineD [OF assms(2) ob(1)])
  then obtain cs' cc' ts' where "klass ob' = Dictionary_k cs' cc' ts'"
    using ob(2) by (cases "klass ob'") (auto simp: klass_shape_def)
  with ob' show ?thesis by (simp add: idle_def served_def)
qed

lemma with_context_idle:
  assumes "keeps f" "idle d w"
  shows "idle d (snd (with_context d c f w))"
    and "outline (tree (snd (with_context d c f w))) = outline (tree w)"
proof -
  obtain r w' where f: "f (serving d c w) = (r, w')" by fastforce
  have o: "outline (tree w') = outline (tree w)"
    using assms(1) f serving_outline by (metis keeps_def snd_conv)
  then show "idle d (snd (with_context d c f w))" "outline (tree (snd (with_context d c f w))) = outline (tree w)"
    using with_context_keeps [OF assms(1) idle_dom [OF assms(2)]] f idle_served [OF assms(2) o] by simp_all
qed

text \<open>An operation that fails before it changes anything leaves the world as it was.\<close>

lemma with_context_throw:
  assumes "idle d w" "f (serving d c w) = (Inl e, serving d c w)"
  shows "with_context d c f w = (Inl e, w)"
proof -
  obtain ob where "tree w d = Some ob" using assms(1) by (auto simp: idle_def)
  then have "with_context d c f w = (Inl e, served d (serving d c w))"
    using assms(2) by (simp add: with_context_def set_current_context_def modify_def serving_def served_def)
  then show ?thesis by (simp add: served_serving [OF assms(1)])
qed

subsection \<open>Access control\<close>

text \<open>Who is turned away, and with which error.\<close>

definition write_denied ::
  "(('e, 'g) leaf klass \<Rightarrow> bool) \<Rightarrow> client \<Rightarrow> addr option \<Rightarrow> ('e, 'g) world \<Rightarrow> runtime_error option" where
  "write_denied interface c obj w =
     (if cul c = Readonly then Some access_denied_error
      else case obj of
        None \<Rightarrow> Some invalid_parameter_error
      | Some a \<Rightarrow>
          (case tree w a of
             None \<Rightarrow> None
           | Some ob \<Rightarrow>
               if \<not> interface (klass ob) then Some invalid_parameter_error
               else if cul c > owritelevel ob then Some access_denied_error
               else None))"

definition read_denied ::
  "(('e, 'g) leaf klass \<Rightarrow> bool) \<Rightarrow> client \<Rightarrow> addr option \<Rightarrow> ('e, 'g) world \<Rightarrow> runtime_error option" where
  "read_denied interface c obj w =
     (case obj of
        None \<Rightarrow> Some invalid_parameter_error
      | Some a \<Rightarrow>
          (case tree w a of
             None \<Rightarrow> None
           | Some ob \<Rightarrow>
               if \<not> interface (klass ob) then Some invalid_parameter_error
               else if effective_userlevel c > oreadlevel ob then Some access_denied_error
               else None))"

lemma interface_serving:
  assumes "tree w a = Some ob"
  obtains ob' where "tree (serving d c w) a = Some ob'" "oreadlevel ob' = oreadlevel ob"
    "owritelevel ob' = owritelevel ob" "write_interface (klass ob') = write_interface (klass ob)"
    "read_interface (klass ob') = read_interface (klass ob)" "event_interface (klass ob') = event_interface (klass ob)"
    "observe_interface (klass ob') = observe_interface (klass ob)"
proof (cases "a = d")
  case True
  then show ?thesis
    using that [of "ob\<lparr>klass := upd_context (Some (cid c)) (klass ob)\<rparr>"] assms
    by (cases "klass ob") (auto simp: serving_def write_interface_def read_interface_def event_interface_def observe_interface_def)
next
  case False
  then show ?thesis using that [of ob] assms by (simp add: serving_def)
qed

lemma serving_None: "tree w a = None \<Longrightarrow> tree (serving d c w) a = None"
  by (auto simp: serving_def)

lemma cast_denied:
  assumes "idle d w"
  shows "write_denied write_interface c obj w = Some e \<Longrightarrow> set_parameter S big d c obj g w = (Inl (Runtime e), w)"
    and "write_denied event_interface c obj w = Some e \<Longrightarrow> signal_event d c obj w = (Inl (Runtime e), w)"
    and "read_denied read_interface c obj w = Some e \<Longrightarrow> get_parameter big d c obj w = (Inl (Runtime e), w)"
proof -
  have "f (serving d c w) = (Inl (Runtime e), serving d c w)"
    if "write_denied write_interface c obj w = Some e"
      "f = (if cul c = Readonly then throw (Runtime access_denied_error)
        else st_then (cast_object write_interface obj) (\<lambda>(a, ob).
             if cul c > owritelevel ob then throw (Runtime access_denied_error) else set_generic_value S big a g))" for f
    using that
    by (auto simp: write_denied_def cast_object_def get_object_def deref_def throw_def ret_def st_then_def
        split: if_splits option.splits elim!: interface_serving [of w _ _ d c])
  then show "write_denied write_interface c obj w = Some e \<Longrightarrow> set_parameter S big d c obj g w = (Inl (Runtime e), w)"
    unfolding set_parameter_def using with_context_throw [OF assms] by blast
  have "f (serving d c w) = (Inl (Runtime e), serving d c w)"
    if "write_denied event_interface c obj w = Some e"
      "f = (if cul c = Readonly then throw (Runtime access_denied_error)
        else st_then (cast_object event_interface obj) (\<lambda>(a, ob).
             if cul c > owritelevel ob then throw (Runtime access_denied_error) else event_signal a))" for f
    using that
    by (auto simp: write_denied_def cast_object_def get_object_def deref_def throw_def ret_def st_then_def
        split: if_splits option.splits elim!: interface_serving [of w _ _ d c])
  then show "write_denied event_interface c obj w = Some e \<Longrightarrow> signal_event d c obj w = (Inl (Runtime e), w)"
    unfolding signal_event_def using with_context_throw [OF assms] by blast
  have "f (serving d c w) = (Inl (Runtime e), serving d c w)"
    if "read_denied read_interface c obj w = Some e"
      "f = st_then (cast_object read_interface obj) (\<lambda>(a, ob).
        if effective_userlevel c > oreadlevel ob then throw (Runtime access_denied_error) else generic_value big a)" for f
    using that
    by (auto simp: read_denied_def cast_object_def get_object_def deref_def throw_def ret_def st_then_def
        split: if_splits option.splits elim!: interface_serving [of w _ _ d c])
  then show "read_denied read_interface c obj w = Some e \<Longrightarrow> get_parameter big d c obj w = (Inl (Runtime e), w)"
    unfolding get_parameter_def using with_context_throw [OF assms] by blast
qed

lemma keeps_get_object [keeps_intros]: "keeps (get_object a)"
  by (simp add: keeps_def get_object_def)

lemma keeps_cast [keeps_intros]: "keeps (cast_object interface obj)"
  unfolding cast_object_def by (auto intro!: keeps_intros split: option.split)

lemma cast_granted:
  assumes "idle d w" "tree w a = Some ob"
  shows "cul c \<noteq> Readonly \<Longrightarrow> write_interface (klass ob) \<Longrightarrow> cul c \<le> owritelevel ob \<Longrightarrow>
      set_parameter S big d c (Some a) g w =
        (case set_generic_value S big a g (serving d c w) of (r, w') \<Rightarrow> (r, served d w'))"
    and "cul c \<noteq> Readonly \<Longrightarrow> event_interface (klass ob) \<Longrightarrow> cul c \<le> owritelevel ob \<Longrightarrow>
      signal_event d c (Some a) w = (case event_signal a (serving d c w) of (r, w') \<Rightarrow> (r, served d w'))"
    and "read_interface (klass ob) \<Longrightarrow> effective_userlevel c \<le> oreadlevel ob \<Longrightarrow>
      get_parameter big d c (Some a) w =
        (case generic_value big a (serving d c w) of (r, w') \<Rightarrow> (r, served d w'))"
proof -
  obtain ob' where ob': "tree (serving d c w) a = Some ob'" "oreadlevel ob' = oreadlevel ob"
    "owritelevel ob' = owritelevel ob" "write_interface (klass ob') = write_interface (klass ob)"
    "read_interface (klass ob') = read_interface (klass ob)" "event_interface (klass ob') = event_interface (klass ob)"
    using interface_serving [OF assms(2), of d c] by metis
  have cast: "cast_object i (Some a) (serving d c w) = (Inr (a, ob'), serving d c w)" if "i (klass ob')" for i
    using that ob' by (simp add: cast_object_def get_object_def deref_def ret_def)
  show "set_parameter S big d c (Some a) g w =
        (case set_generic_value S big a g (serving d c w) of (r, w') \<Rightarrow> (r, served d w'))"
    if "cul c \<noteq> Readonly" "write_interface (klass ob)" "cul c \<le> owritelevel ob"
    unfolding set_parameter_def using that ob' cast [of write_interface]
    by (subst with_context_keeps [OF _ idle_dom [OF assms(1)]]) (auto intro!: keeps_intros)
  show "signal_event d c (Some a) w = (case event_signal a (serving d c w) of (r, w') \<Rightarrow> (r, served d w'))"
    if "cul c \<noteq> Readonly" "event_interface (klass ob)" "cul c \<le> owritelevel ob"
    unfolding signal_event_def using that ob' cast [of event_interface]
    by (subst with_context_keeps [OF _ idle_dom [OF assms(1)]]) (auto intro!: keeps_intros)
  show "get_parameter big d c (Some a) w =
        (case generic_value big a (serving d c w) of (r, w') \<Rightarrow> (r, served d w'))"
    if "read_interface (klass ob)" "effective_userlevel c \<le> oreadlevel ob"
    unfolding get_parameter_def using that ob' cast [of read_interface]
    by (subst with_context_keeps [OF _ idle_dom [OF assms(1)]]) (auto intro!: keeps_intros)
qed

subsection \<open>One parameter in the world\<close>

definition leaf_at :: "('e, 'g) world \<Rightarrow> addr \<Rightarrow> ('e, 'g) leaf option" where
  "leaf_at w a = (case tree w a of Some ob \<Rightarrow> (case klass ob of Leaf_k l \<Rightarrow> Some l | _ \<Rightarrow> None) | None \<Rightarrow> None)"

definition set_leaf :: "addr \<Rightarrow> ('e, 'g) leaf \<Rightarrow> ('e, 'g) world \<Rightarrow> ('e, 'g) world" where
  "set_leaf a l w = w\<lparr>tree := (tree w)(a := map_option (\<lambda>ob. ob\<lparr>klass := Leaf_k l\<rparr>) (tree w a))\<rparr>"

lemma leaf_at_Some:
  "leaf_at w a = Some l \<longleftrightarrow> (\<exists>ob. tree w a = Some ob \<and> klass ob = Leaf_k l)"
  by (auto simp: leaf_at_def split: option.splits klass.splits)

lemma get_leaf_at: "leaf_at w a = Some l \<Longrightarrow> get_leaf a w = (Inr l, w)"
  by (auto simp: leaf_at_Some get_leaf_def)

lemma upd_leaf_at: "leaf_at w a = Some l \<Longrightarrow> upd_leaf a f w = (Inr (), set_leaf a (f l) w)"
  by (auto simp: leaf_at_Some upd_leaf_def on_tree_def modify_def set_leaf_def)

lemma upd_kind_at: "leaf_at w a = Some l \<Longrightarrow> upd_kind a f w = (Inr (), set_leaf a (l\<lparr>kind := f (kind l)\<rparr>) w)"
  by (simp add: upd_kind_def upd_leaf_at)

lemma upd_signal_at:
  "leaf_at w a = Some l \<Longrightarrow> upd_signal a f w = (Inr (), set_leaf a (l\<lparr>value_signal := f (value_signal l)\<rparr>) w)"
  by (simp add: upd_signal_def upd_leaf_at)

lemma leaf_at_set_leaf [simp]:
  "leaf_at (set_leaf a l w) a = (if tree w a = None then None else Some l)"
  "b \<noteq> a \<Longrightarrow> leaf_at (set_leaf a l w) b = leaf_at w b"
  by (auto simp: leaf_at_def set_leaf_def split: option.split)

lemma leaf_at_upd [simp]:
  "leaf_at (w\<lparr>app := e\<rparr>) a = leaf_at w a" "leaf_at (w\<lparr>deliveries := ds\<rparr>) a = leaf_at w a"
  by (simp_all add: leaf_at_def)

lemma leaf_at_serving [simp]: "leaf_at (serving d c w) a = leaf_at w a"
proof -
  have "(case upd_context x k of Leaf_k l \<Rightarrow> Some l | _ \<Rightarrow> None) = (case k of Leaf_k l \<Rightarrow> Some l | _ \<Rightarrow> None)" for x k
    by (cases k) auto
  then show ?thesis by (auto simp: leaf_at_def serving_def split: option.split)
qed

lemma leaf_at_served [simp]: "leaf_at (served d w) a = leaf_at w a"
proof -
  have "(case upd_context x k of Leaf_k l \<Rightarrow> Some l | _ \<Rightarrow> None) = (case k of Leaf_k l \<Rightarrow> Some l | _ \<Rightarrow> None)" for x k
    by (cases k) auto
  then show ?thesis by (auto simp: leaf_at_def served_def split: option.split)
qed

lemma serving_fields [simp]:
  "app (serving d c w) = app w" "deliveries (serving d c w) = deliveries w"
  "app (served d w) = app w" "deliveries (served d w) = deliveries w"
  "app (set_leaf a l w) = app w" "deliveries (set_leaf a l w) = deliveries w"
  by (simp_all add: serving_def served_def set_leaf_def)

lemma fq_name_serving [simp]: "fq_name (tree (serving d c w)) a = fq_name (tree w) a"
  "fq_name (tree (served d w)) a = fq_name (tree w) a"
  by (rule outline_fq_name; simp)+

lemma set_leaf_outline:
  "leaf_at w a = Some l \<Longrightarrow> leaf_sig l' = leaf_sig l \<Longrightarrow> outline (tree (set_leaf a l' w)) = outline (tree w)"
proof -
  assume "leaf_at w a = Some l" and sig: "leaf_sig l' = leaf_sig l"
  then obtain ob where ob: "tree w a = Some ob" "klass ob = Leaf_k l" by (auto simp: leaf_at_Some)
  then have t: "tree (set_leaf a l' w) = (tree w)(a \<mapsto> ob\<lparr>klass := Leaf_k l'\<rparr>)" by (simp add: set_leaf_def)
  have "klass_shape (Leaf_k l') = klass_shape (klass ob)" by (simp add: klass_shape_def ob(2) sig)
  then show "outline (tree (set_leaf a l' w)) = outline (tree w)"
    unfolding t by (simp add: outline_def fun_eq_iff ob(1))
qed

lemma emit_at:
  assumes "leaf_at w a = Some l" "fq_name (tree w) a = Some uri"
  shows "emit S big a v w =
    (case to_generic big (lhint l) (ltype l) v of
       Inl e \<Rightarrow> (Inl e, w)
     | Inr g \<Rightarrow> (Inr (), w\<lparr>deliveries := deliveries w @ map (\<lambda>(c, s). (s, uri, g)) (sig_slots S (value_signal l))\<rparr>))"
  using assms by (simp add: emit_def get_leaf_at)


lemma served_commutes [simp]:
  "served d (w\<lparr>app := e\<rparr>) = (served d w)\<lparr>app := e\<rparr>"
  "served d (w\<lparr>deliveries := ds\<rparr>) = (served d w)\<lparr>deliveries := ds\<rparr>"
  "a \<noteq> d \<Longrightarrow> served d (set_leaf a l w) = set_leaf a l (served d w)"
  "set_leaf a l (w\<lparr>app := e\<rparr>) = (set_leaf a l w)\<lparr>app := e\<rparr>"
  by (simp_all add: served_def set_leaf_def fun_upd_twist)

lemma idle_leaf: "idle d w \<Longrightarrow> leaf_at w a = Some l \<Longrightarrow> a \<noteq> d"
  by (auto simp: idle_def leaf_at_Some)

definition run_verify :: "(cval \<Rightarrow> ('e, unit) handler) option \<Rightarrow> cval \<Rightarrow> ('e, unit) handler" where
  "run_verify f v e = (case f of Some h \<Rightarrow> h v e | None \<Rightarrow> (Inr (), e))"

lemma verify_run: "verify f v w = (case run_verify f v (app w) of (r, e) \<Rightarrow> (r, w\<lparr>app := e\<rparr>))"
  by (cases f) (simp_all add: verify_def run_verify_def run_handler_def ret_def)

text \<open>\<open>notify_slots\<close>: one delivery to every slot of a signal, in the order of the connections.\<close>

definition notify_slots :: "'g signals \<Rightarrow> ('e, 'g) leaf \<Rightarrow> string \<Rightarrow> value_t \<Rightarrow> delivery list" where
  "notify_slots S l uri g = map (\<lambda>(c, s). (s, uri, g)) (sig_slots S (value_signal l))"

text \<open>The setup of a granted write to a managed parameter.\<close>

definition may_write :: "addr \<Rightarrow> client \<Rightarrow> addr \<Rightarrow> ('e, 'g) world \<Rightarrow> bool" where
  "may_write d c a w \<longleftrightarrow> idle d w \<and> cul c \<noteq> Readonly \<and> (\<exists>ob. tree w a = Some ob \<and> cul c \<le> owritelevel ob)"

lemma managed_write_unfold:
  assumes "may_write d c a w" "leaf_at w a = Some l" "kind l = Managed_readwrite old f"
  shows "set_parameter S big d c (Some a) g w =
    (case from_generic big (lhint l) (ltype l) g of
       Inl e \<Rightarrow> (Inl e, w)
     | Inr v \<Rightarrow> (case managed_readwrite_set S big a old f v (serving d c w) of (r, w') \<Rightarrow> (r, served d w')))"
proof -
  obtain ob where ob: "tree w a = Some ob" "klass ob = Leaf_k l" using assms(2) by (auto simp: leaf_at_Some)
  have "set_parameter S big d c (Some a) g w =
      (case set_generic_value S big a g (serving d c w) of (r, w') \<Rightarrow> (r, served d w'))"
    using assms ob by (intro cast_granted) (auto simp: may_write_def write_interface_def)
  then show ?thesis
    using assms get_leaf_at [of "serving d c w" a l] served_serving [of d w c]
    by (auto simp: set_generic_value_def throw_def may_write_def split: sum.split)
qed

lemma managed_set_unfold:
  assumes "leaf_at w a = Some l" "kind l = Managed_readwrite old f" "fq_name (tree w) a = Some uri"
    "\<not> cpp_eq old v" "run_verify f v (app w) = (r, e)"
  shows "managed_readwrite_set S big a old f v w =
    (case r of
       Inl err \<Rightarrow> (Inl err, w\<lparr>app := e\<rparr>)
     | Inr _ \<Rightarrow>
         (let w1 = set_leaf a (l\<lparr>kind := Managed_readwrite v f\<rparr>) (w\<lparr>app := e\<rparr>) in
          case to_generic big (lhint l) (ltype l) v of
            Inl err \<Rightarrow> (Inl err, w1)
          | Inr gv \<Rightarrow> (Inr (), w1\<lparr>deliveries := deliveries w @ notify_slots S l uri gv\<rparr>)))"
proof (cases r)
  case (Inr u)
  let ?l = "l\<lparr>kind := Managed_readwrite v f\<rparr>"
  let ?w1 = "set_leaf a ?l (w\<lparr>app := e\<rparr>)"
  have "upd_kind a (store_value v) (w\<lparr>app := e\<rparr>) = (Inr (), ?w1)"
    using upd_kind_at [of "w\<lparr>app := e\<rparr>" a l "store_value v"] assms(1,2) by simp
  moreover have "outline (tree ?w1) = outline (tree (w\<lparr>app := e\<rparr>))"
    using assms(1,2) by (intro set_leaf_outline [of _ _ l]) (auto simp: leaf_sig_def)
  then have "fq_name (tree ?w1) a = Some uri" using outline_fq_name assms(3) by fastforce
  moreover have "leaf_at ?w1 a = Some ?l" using assms(1) by (auto simp: leaf_at_Some)
  ultimately show ?thesis
    using assms Inr
    by (simp add: managed_readwrite_set_def verify_run Let_def emit_at notify_slots_def split: sum.split)
qed (use assms in \<open>simp add: managed_readwrite_set_def verify_run\<close>)

lemma managed_write_at:
  assumes "may_write d c a w" and "leaf_at w a = Some l" and "kind l = Managed_readwrite old f"
    and "fq_name (tree w) a = Some uri"
  shows "from_generic big (lhint l) (ltype l) g = Inl e \<Longrightarrow>
      set_parameter S big d c (Some a) g w = (Inl e, w)"
    and "from_generic big (lhint l) (ltype l) g = Inr v \<Longrightarrow> cpp_eq old v \<Longrightarrow>
      set_parameter S big d c (Some a) g w = (Inr (), w)"
    and "from_generic big (lhint l) (ltype l) g = Inr v \<Longrightarrow> \<not> cpp_eq old v \<Longrightarrow>
      run_verify f v (app w) = (Inl e, s) \<Longrightarrow>
      set_parameter S big d c (Some a) g w = (Inl e, w\<lparr>app := s\<rparr>)"
    and "from_generic big (lhint l) (ltype l) g = Inr v \<Longrightarrow> \<not> cpp_eq old v \<Longrightarrow>
      run_verify f v (app w) = (Inr (), s) \<Longrightarrow> to_generic big (lhint l) (ltype l) v = Inr gv \<Longrightarrow>
      set_parameter S big d c (Some a) g w =
        (Inr (), set_leaf a (l\<lparr>kind := Managed_readwrite v f\<rparr>) w
           \<lparr>app := s, deliveries := deliveries w @ notify_slots S l uri gv\<rparr>)"
proof -
  note unfold = managed_write_unfold [OF assms(1-3), of S big g]
  have idle: "idle d w" using assms(1) by (simp add: may_write_def)
  have ne: "a \<noteq> d" by (rule idle_leaf [OF idle assms(2)])
  note restored = served_serving [OF idle, of c]
  have set: "managed_readwrite_set S big a old f v (serving d c w) =
    (case r of
       Inl err \<Rightarrow> (Inl err, (serving d c w)\<lparr>app := e\<rparr>)
     | Inr _ \<Rightarrow>
         (let w1 = set_leaf a (l\<lparr>kind := Managed_readwrite v f\<rparr>) ((serving d c w)\<lparr>app := e\<rparr>) in
          case to_generic big (lhint l) (ltype l) v of
            Inl err \<Rightarrow> (Inl err, w1)
          | Inr gv \<Rightarrow> (Inr (), w1\<lparr>deliveries := deliveries w @ notify_slots S l uri gv\<rparr>)))"
    if "\<not> cpp_eq old v" "run_verify f v (app w) = (r, e)" for v r e
    using managed_set_unfold [of "serving d c w" a l old f uri v r e S big] assms(2-4) that
    unfolding serving_fields leaf_at_serving fq_name_serving by blast
  show "set_parameter S big d c (Some a) g w = (Inl e, w)" if "from_generic big (lhint l) (ltype l) g = Inl e"
    using that unfold by simp
  show "set_parameter S big d c (Some a) g w = (Inr (), w)"
    if "from_generic big (lhint l) (ltype l) g = Inr v" "cpp_eq old v"
    using that unfold restored by (simp add: managed_readwrite_set_def ret_def)
  show "set_parameter S big d c (Some a) g w = (Inl e, w\<lparr>app := s\<rparr>)"
    if "from_generic big (lhint l) (ltype l) g = Inr v" "\<not> cpp_eq old v" "run_verify f v (app w) = (Inl e, s)"
    using that unfold set [OF that(2,3)] restored by simp
  show "set_parameter S big d c (Some a) g w =
        (Inr (), set_leaf a (l\<lparr>kind := Managed_readwrite v f\<rparr>) w
           \<lparr>app := s, deliveries := deliveries w @ notify_slots S l uri gv\<rparr>)"
    if "from_generic big (lhint l) (ltype l) g = Inr v" "\<not> cpp_eq old v" "run_verify f v (app w) = (Inr (), s)"
      "to_generic big (lhint l) (ltype l) v = Inr gv"
    using that unfold set [OF that(2,3)] restored ne by (simp add: Let_def)
qed

subsection \<open>A signal library and a small server\<close>

text \<open>
  Documented behaviour of \<open>boost::signals2\<close>: a new signal has no slots, a new connection is
  called last and is told apart from the others, disconnecting removes exactly that connection.
  \<open>list_signals\<close> is a signal with this behaviour: a list of slots and a counter.
\<close>

definition signals_ok :: "'g signals \<Rightarrow> bool" where
  "signals_ok S \<longleftrightarrow>
     sig_slots S (sig_new S) = [] \<and>
     (\<forall>s g. fst (sig_connect S s g) \<notin> fst ` set (sig_slots S g) \<and>
            sig_slots S (snd (sig_connect S s g)) = sig_slots S g @ [(fst (sig_connect S s g), s)]) \<and>
     (\<forall>c g. sig_slots S (sig_disconnect S c g) = filter (\<lambda>p. fst p \<noteq> c) (sig_slots S g))"

definition fresh_connection :: "(connection \<times> slot) list \<Rightarrow> connection" where
  "fresh_connection xs = foldr max (map (\<lambda>(c, s). Suc c) xs) 0"

definition list_signals :: "(connection \<times> slot) list signals" where
  "list_signals =
     \<lparr>sig_new = [],
      sig_connect = (\<lambda>s xs. (fresh_connection xs, xs @ [(fresh_connection xs, s)])),
      sig_disconnect = (\<lambda>c xs. filter (\<lambda>p. fst p \<noteq> c) xs),
      sig_slots = (\<lambda>xs. xs)\<rparr>"

lemma fresh_connection_new: "fresh_connection xs \<notin> fst ` set xs"
proof -
  have "(c, s) \<in> set xs \<Longrightarrow> c < fresh_connection xs" for c s
    by (induction xs) (auto simp: fresh_connection_def less_max_iff_disj)
  then show ?thesis by fastforce
qed

lemma list_signals_ok: "signals_ok list_signals"
  using fresh_connection_new by (simp add: signals_ok_def list_signals_def)

type_synonym sample_leaf = "(nat, (connection \<times> slot) list) leaf"

definition sample_param :: "nat kind \<Rightarrow> sample_leaf" where
  "sample_param k = \<lparr>ltype = CInt True 32, lhint = none, kind = k, value_signal = [(0, 7)]\<rparr>"

definition sample_world :: "nat kind \<Rightarrow> (nat, (connection \<times> slot) list) world" where
  "sample_world k =
     \<lparr>tree = [0 \<mapsto> \<lparr>oname = ''root'', oparent = None, oreadlevel = Normal, owritelevel = Forbidden,
                    klass = Dictionary_k [1] None []\<rparr>,
              1 \<mapsto> \<lparr>oname = ''p'', oparent = Some 0, oreadlevel = Normal, owritelevel = Maintenance,
                    klass = Leaf_k (sample_param k)\<rparr>],
      app = 0, deliveries = []\<rparr>"

definition sample_client :: client where
  "sample_client = new_client 9 Service"

lemma sample_facts:
  "idle 0 (sample_world k)" "leaf_at (sample_world k) 1 = Some (sample_param k)"
  "fq_name (tree (sample_world k)) 1 = Some ''root:p''" "may_write 0 sample_client 1 (sample_world k)"
proof -
  show i: "idle 0 (sample_world k)" by (simp add: idle_def sample_world_def)
  show "leaf_at (sample_world k) 1 = Some (sample_param k)" by (simp add: leaf_at_def sample_world_def)
  show "fq_name (tree (sample_world k)) 1 = Some ''root:p''" by (simp add: sample_world_def fq_name.simps)
  show "may_write 0 sample_client 1 (sample_world k)"
    using i by (simp add: may_write_def sample_world_def sample_client_def new_client_def userlevel_defs)
qed

lemma managed_write_effect_parts:
  assumes "may_write d c a w" and "leaf_at w a = Some l" and "kind l = Managed_readwrite old f"
    and "fq_name (tree w) a = Some uri"
  shows "from_generic big (lhint l) (ltype l) g = Inl e \<Longrightarrow>
      set_parameter S big d c (Some a) g w = (Inl e, w)"
    and "from_generic big (lhint l) (ltype l) g = Inr v \<Longrightarrow> cpp_eq old v \<Longrightarrow>
      set_parameter S big d c (Some a) g w = (Inr (), w)"
    and "from_generic big (lhint l) (ltype l) g = Inr v \<Longrightarrow> \<not> cpp_eq old v \<Longrightarrow>
      run_verify f v (app w) = (Inl e, s) \<Longrightarrow>
      set_parameter S big d c (Some a) g w = (Inl e, w\<lparr>app := s\<rparr>)"
    and "from_generic big (lhint l) (ltype l) g = Inr v \<Longrightarrow> \<not> cpp_eq old v \<Longrightarrow>
      run_verify f v (app w) = (Inr (), s) \<Longrightarrow> to_generic big (lhint l) (ltype l) v = Inr gv \<Longrightarrow>
      set_parameter S big d c (Some a) g w =
        (Inr (), set_leaf a (l\<lparr>kind := Managed_readwrite v f\<rparr>) w
           \<lparr>app := s, deliveries := deliveries w @ notify_slots S l uri gv\<rparr>)"
  by (fact managed_write_at [OF assms])+



lemma denied_access_no_effect_parts:
  assumes "idle d w"
  shows "write_denied write_interface c obj w = Some e \<Longrightarrow>
      set_parameter S big d c obj g w = (Inl (Runtime e), w)"
    and "write_denied event_interface c obj w = Some e \<Longrightarrow>
      signal_event d c obj w = (Inl (Runtime e), w)"
    and "read_denied read_interface c obj w = Some e \<Longrightarrow>
      get_parameter big d c obj w = (Inl (Runtime e), w)"
    and "write_denied write_interface c (Some a) w = None \<Longrightarrow> a \<in> dom (tree w) \<Longrightarrow>
      set_parameter S big d c (Some a) g w =
        (case set_generic_value S big a g (serving d c w) of (r, w') \<Rightarrow> (r, served d w'))"
    and "read_denied read_interface c (Some a) w = None \<Longrightarrow> a \<in> dom (tree w) \<Longrightarrow>
      get_parameter big d c (Some a) w =
        (case generic_value big a (serving d c w) of (r, w') \<Rightarrow> (r, served d w'))"
proof -
  show "set_parameter S big d c (Some a) g w =
        (case set_generic_value S big a g (serving d c w) of (r, w') \<Rightarrow> (r, served d w'))"
    if "write_denied write_interface c (Some a) w = None" "a \<in> dom (tree w)"
    using that by (auto simp: write_denied_def split: if_splits intro!: cast_granted(1) [OF assms])
  show "get_parameter big d c (Some a) w =
        (case generic_value big a (serving d c w) of (r, w') \<Rightarrow> (r, served d w'))"
    if "read_denied read_interface c (Some a) w = None" "a \<in> dom (tree w)"
    using that by (auto simp: read_denied_def split: if_splits intro!: cast_granted(3) [OF assms])
qed (fact cast_denied [OF assms])+

text \<open>
  C17. A denied operation changes nothing at all - no value, no handler's state, no tick
  registration, no notification - and tells why: a client on the level \<open>Readonly\<close> may not write or
  signal anything, a null pointer or an object without the interface is an invalid parameter, and
  a userlevel number above the object's level is denied; reading counts \<open>Readonly\<close> as \<open>Normal\<close>.
\<close>

theorem denied_access_no_effect:
  assumes "idle d w"
  shows "(write_denied write_interface c obj w = Some e \<longrightarrow>
      set_parameter S big d c obj g w = (Inl (Runtime e), w)) \<and>
      (write_denied event_interface c obj w = Some e \<longrightarrow>
      signal_event d c obj w = (Inl (Runtime e), w)) \<and>
      (read_denied read_interface c obj w = Some e \<longrightarrow>
      get_parameter big d c obj w = (Inl (Runtime e), w)) \<and>
      (write_denied write_interface c (Some a) w = None \<longrightarrow> a \<in> dom (tree w) \<longrightarrow>
      set_parameter S big d c (Some a) g w =
        (case set_generic_value S big a g (serving d c w) of (r, w') \<Rightarrow> (r, served d w'))) \<and>
      (read_denied read_interface c (Some a) w = None \<longrightarrow> a \<in> dom (tree w) \<longrightarrow>
      get_parameter big d c (Some a) w =
        (case generic_value big a (serving d c w) of (r, w') \<Rightarrow> (r, served d w')))"
  by (intro conjI impI; rule denied_access_no_effect_parts [OF assms]; assumption)

theorem denied_access_no_effect_witness:
  "set_parameter list_signals False 0 (new_client 9 Readonly) (Some 1) (Scalar_t (Integer_t 5))
     (sample_world (Managed_readwrite (VInt 3) None)) =
   (Inl (Runtime access_denied_error), sample_world (Managed_readwrite (VInt 3) None))"
  by (rule denied_access_no_effect [OF sample_facts(1), THEN conjunct1, rule_format]) (simp add: write_denied_def new_client_def)


lemma is_node_leaf: "leaf_at w a = Some l \<Longrightarrow> \<not> is_node (tree w) a"
  by (auto simp: leaf_at_Some is_node_def children_of_def)

lemma param_value_managed:
  "leaf_at w a = Some l \<Longrightarrow> kind l = Managed_readwrite v f \<Longrightarrow> param_value a w = (Inr v, w)"
  "leaf_at w a = Some l \<Longrightarrow> kind l = Managed_readonly v \<Longrightarrow> param_value a w = (Inr v, w)"
  by (simp_all add: param_value_def get_leaf_at ret_def)

lemma generic_value_at:
  "leaf_at w a = Some l \<Longrightarrow> param_value a w = (Inr v, w') \<Longrightarrow>
   generic_value big a w = (to_generic big (lhint l) (ltype l) v, w')"
  by (simp add: generic_value_def is_node_leaf get_leaf_at)

lemma get_managed:
  assumes "idle d w" "leaf_at w a = Some l" "kind l = Managed_readwrite v f \<or> kind l = Managed_readonly v"
    "tree w a = Some ob" "effective_userlevel c \<le> oreadlevel ob"
  shows "get_parameter big d c (Some a) w = (to_generic big (lhint l) (ltype l) v, w)"
proof -
  have "klass ob = Leaf_k l" using assms(2,4) by (auto simp: leaf_at_Some)
  then have r: "read_interface (klass ob)" using assms(3) by (auto simp: read_interface_def)
  have "generic_value big a (serving d c w) = (to_generic big (lhint l) (ltype l) v, serving d c w)"
    using assms(2,3) by (intro generic_value_at) (auto simp: param_value_managed)
  then show ?thesis
    using cast_granted(3) [OF assms(1,4) r assms(5), of big] by (simp add: served_serving [OF assms(1)])
qed

text \<open>
  After a successful write to a managed parameter, every client that may read it reads what
  was written: the value the writer's generic value converts to - or the old value, if
  \<open>operator==\<close> says they are the same.
\<close>

theorem set_then_get:
  assumes "may_write d c a w" and "leaf_at w a = Some l" and "kind l = Managed_readwrite old f"
    and "fq_name (tree w) a = Some uri" and "tree w a = Some ob"
    and "set_parameter S big d c (Some a) g w = (Inr (), w')"
    and "effective_userlevel c' \<le> oreadlevel ob"
  shows "\<exists>v stored. from_generic big (lhint l) (ltype l) g = Inr v \<and> (stored = v \<or> stored = old \<and> cpp_eq old v) \<and>
    get_parameter big d c' (Some a) w' = (to_generic big (lhint l) (ltype l) stored, w')"
proof -
  note set = managed_write_at [OF assms(1-4), of big g, where S = S] assms(6)
  have idle: "idle d w" using assms(1) by (simp add: may_write_def)
  obtain v where v: "from_generic big (lhint l) (ltype l) g = Inr v"
    using set(1) set(5) by (cases "from_generic big (lhint l) (ltype l) g") auto
  show ?thesis
  proof (cases "cpp_eq old v")
    case True
    then have "w' = w" using set(2) [OF v] set(5) by simp
    with True v get_managed [OF idle assms(2) _ assms(5,7), of old] assms(3) show ?thesis by auto
  next
    case False
    obtain r s where r: "run_verify f v (app w) = (r, s)" by fastforce
    then have r': "run_verify f v (app w) = (Inr (), s)" using set(3) [OF v False] set(5) by (cases r) auto
    have "managed_readwrite_set S big a old f v (serving d c w) =
      (let w1 = set_leaf a (l\<lparr>kind := Managed_readwrite v f\<rparr>) ((serving d c w)\<lparr>app := s\<rparr>) in
          case to_generic big (lhint l) (ltype l) v of
            Inl err \<Rightarrow> (Inl err, w1)
          | Inr gv \<Rightarrow> (Inr (), w1\<lparr>deliveries := deliveries w @ notify_slots S l uri gv\<rparr>))"
      using managed_set_unfold [of "serving d c w" a l old f uri v "Inr ()" s S big] assms(2-4) False r'
      unfolding serving_fields leaf_at_serving fq_name_serving by simp
    then obtain gv where gv: "to_generic big (lhint l) (ltype l) v = Inr gv"
      using managed_write_unfold [OF assms(1-3), of S big g] v assms(6)
      by (cases "to_generic big (lhint l) (ltype l) v") (auto simp: Let_def)
    have w': "w' = set_leaf a (l\<lparr>kind := Managed_readwrite v f\<rparr>) w
        \<lparr>app := s, deliveries := deliveries w @ notify_slots S l uri gv\<rparr>"
      using set(4) [OF v False r' gv] set(5) by simp
    have ne: "a \<noteq> d" by (rule idle_leaf [OF idle assms(2)])
    have "idle d w'" using idle ne by (simp add: w' idle_def set_leaf_def)
    moreover have "leaf_at w' a = Some (l\<lparr>kind := Managed_readwrite v f\<rparr>)" by (simp add: w' assms(5))
    moreover have "tree w' a = Some (ob\<lparr>klass := Leaf_k (l\<lparr>kind := Managed_readwrite v f\<rparr>)\<rparr>)"
      by (simp add: w' set_leaf_def assms(5))
    ultimately have "get_parameter big d c' (Some a) w' = (to_generic big (lhint l) (ltype l) v, w')"
      using get_managed [of d w' a "l\<lparr>kind := Managed_readwrite v f\<rparr>" v f] assms(7) by simp
    with v show ?thesis by blast
  qed
qed

theorem set_then_get_witness:
  "\<exists>v stored. from_generic False none (CInt True 32) (Scalar_t (Integer_t 5)) = Inr v \<and>
     (stored = v \<or> stored = VInt 5 \<and> cpp_eq (VInt 5) v) \<and>
     get_parameter False 0 (new_client 4 Normal) (Some 1) (sample_world (Managed_readwrite (VInt 5) None)) =
       (to_generic False none (CInt True 32) stored, sample_world (Managed_readwrite (VInt 5) None))"
proof -
  let ?w = "sample_world (Managed_readwrite (VInt 5) None)"
  have conv: "from_generic False none (CInt True 32) (Scalar_t (Integer_t 5)) = Inr (VInt 5)"
    by (simp add: from_generic_def plain_from_generic_def scalar_from_generic_def integral_from_generic_def
        convert_lossless_integer_def int_min_def int_max_def)
  have "set_parameter list_signals False 0 sample_client (Some 1) (Scalar_t (Integer_t 5)) ?w = (Inr (), ?w)"
    by (rule managed_write_at(2) [OF sample_facts(4) sample_facts(2) _ sample_facts(3), of _ "VInt 5" None _ _ "VInt 5"])
      (simp_all add: sample_param_def conv)
  from set_then_get [OF sample_facts(4) sample_facts(2) _ sample_facts(3) _ this, of "VInt 5" None _ "new_client 4 Normal"]
  show ?thesis
    by (auto simp: sample_param_def sample_world_def new_client_def effective_userlevel_def userlevel_defs)
qed


subsection \<open>Observation\<close>

text \<open>What the virtual getter does, as a handler on the application state.\<close>

fun getter :: "'e kind \<Rightarrow> ('e, cval) handler" where
  "getter (Managed_readonly v) e = (Inr v, e)"
| "getter (Managed_readwrite v f) e = (Inr v, e)"
| "getter (External_readonly g n v) e = (case g of Some f \<Rightarrow> f e | None \<Rightarrow> (Inl (Runtime not_implemented_error), e))"
| "getter (External_readwrite s g) e = (case g of Some f \<Rightarrow> f e | None \<Rightarrow> (Inl (Runtime not_implemented_error), e))"
| "getter k e = (Inl Undefined, e)"

lemma world_app_id [simp]: "w\<lparr>app := app w\<rparr> = w" for w :: "('e, 'g) world"
  by simp

lemma param_value_at:
  "leaf_at w a = Some l \<Longrightarrow> param_value a w = (case getter (kind l) (app w) of (r, e) \<Rightarrow> (r, w\<lparr>app := e\<rparr>))"
  by (cases "kind l")
    (auto simp: param_value_def get_leaf_at ret_def throw_def external_value_def run_handler_def split: option.split)

definition set_ticks :: "addr \<Rightarrow> (addr list \<Rightarrow> addr list) \<Rightarrow> ('e, 'g) world \<Rightarrow> ('e, 'g) world" where
  "set_ticks d f w = w\<lparr>tree := (tree w)(d := map_option (\<lambda>ob. ob\<lparr>klass := upd_ticks f (klass ob)\<rparr>) (tree w d))\<rparr>"

lemma ticks_at:
  assumes "d \<in> dom (tree w)"
  shows "on_tree (register_for_tick d a) w = (Inr (), set_ticks d (\<lambda>ts. ts @ [a]) w)"
    and "on_tree (unregister_for_tick d a) w = (Inr (), set_ticks d (filter (\<lambda>x. x \<noteq> a)) w)"
  using assms by (auto simp: on_tree_def register_for_tick_def unregister_for_tick_def modify_def set_ticks_def)

lemma upd_ticks_context: "upd_context c (upd_ticks f k) = upd_ticks f (upd_context c k)"
  by (cases k) simp_all

lemma set_ticks_simps [simp]:
  "a \<noteq> d \<Longrightarrow> leaf_at (set_ticks d f w) a = leaf_at w a"
  "app (set_ticks d f w) = app w" "deliveries (set_ticks d f w) = deliveries w"
  "outline (tree (set_ticks d f w)) = outline (tree w)"
  "served d (set_ticks d f w) = set_ticks d f (served d w)"
  by (auto simp: set_ticks_def leaf_at_def served_def outline_def fun_eq_iff upd_ticks_context
      option.map_comp comp_def)

lemma tick_targets_set_ticks:
  "idle d w \<Longrightarrow> tick_targets (tree (set_ticks d f w)) d = f (tick_targets (tree w) d)"
  by (auto simp: tick_targets_def set_ticks_def idle_def)

lemma tick_targets_set_leaf: "a \<noteq> d \<Longrightarrow> tick_targets (tree (set_leaf a l w)) d = tick_targets (tree w) d"
  by (simp add: tick_targets_def set_leaf_def)

lemma set_leaf_twice [simp]: "set_leaf a l (set_leaf a l' w) = set_leaf a l w"
  by (simp add: set_leaf_def option.map_comp comp_def)

lemma set_leaf_ticks: "a \<noteq> d \<Longrightarrow> set_leaf a l (set_ticks d f w) = set_ticks d f (set_leaf a l w)"
  by (simp add: set_leaf_def set_ticks_def fun_upd_twist)

lemma with_context_cw_at:
  assumes "idle d w" "f (c, serving d c w) = (r, (c', w'))" "outline (tree w') = outline (tree w)"
  shows "with_context_cw d f (c, w) = (r, (c', served d w'))"
proof -
  obtain ob where ob: "tree w d = Some ob" using assms(1) by (auto simp: idle_def)
  obtain ob' where "tree w' d = Some ob'" by (rule outlineD [OF assms(3) ob])
  then show ?thesis
    using assms(2) ob
    by (simp add: with_context_cw_def set_current_context_def modify_def serving_def served_def)
qed

text \<open>Connecting a slot: it joins the others, and all are told the current value.\<close>

lemma observable_observe_at:
  assumes "leaf_at w a = Some l" "fq_name (tree w) a = Some uri"
    "sig_connect S s (value_signal l) = (k, g)" "getter (kind l) (app w) = (Inr cur, e)"
    "to_generic big (lhint l) (ltype l) cur = Inr gv"
  shows "observable_observe S big s a w =
    (Inr (Some k), set_leaf a (l\<lparr>value_signal := g\<rparr>) w
       \<lparr>app := e, deliveries := deliveries w @ notify_slots S (l\<lparr>value_signal := g\<rparr>) uri gv\<rparr>)"
proof -
  let ?l = "l\<lparr>value_signal := g\<rparr>"
  let ?w = "set_leaf a ?l w"
  have l: "leaf_at ?w a = Some ?l" using assms(1) by (auto simp: leaf_at_Some)
  have "outline (tree ?w) = outline (tree w)"
    using assms(1) by (intro set_leaf_outline [of _ _ l]) (auto simp: leaf_sig_def)
  then have uri: "fq_name (tree ?w) a = Some uri" using outline_fq_name assms(2) by fastforce
  have "param_value a ?w = (Inr cur, ?w\<lparr>app := e\<rparr>)"
    using param_value_at [OF l] assms(4) by simp
  moreover have "emit S big a cur (?w\<lparr>app := e\<rparr>) =
      (Inr (), ?w\<lparr>app := e, deliveries := deliveries w @ notify_slots S ?l uri gv\<rparr>)"
    using l uri assms(5) by (simp add: emit_at [of _ a ?l uri] notify_slots_def)
  ultimately show ?thesis
    using assms(1,3) by (simp add: observable_observe_def get_leaf_at upd_signal_at)
qed

lemma observable_observe_fails:
  assumes "leaf_at w a = Some l" "sig_connect S s (value_signal l) = (k, g)" "getter (kind l) (app w) = (Inl err, e)"
  shows "observable_observe S big s a w =
    (Inl err, set_leaf a (l\<lparr>value_signal := sig_disconnect S k g\<rparr>) w\<lparr>app := e\<rparr>)"
proof -
  let ?l = "l\<lparr>value_signal := g\<rparr>"
  let ?w = "set_leaf a ?l w"
  have l: "leaf_at ?w a = Some ?l" using assms(1) by (auto simp: leaf_at_Some)
  have "param_value a ?w = (Inl err, ?w\<lparr>app := e\<rparr>)"
    using param_value_at [OF l] assms(3) by simp
  then show ?thesis
    using assms(1,2) l
    by (simp add: observable_observe_def get_leaf_at upd_signal_at disconnect_def)
qed


fun observed :: "'e kind \<Rightarrow> 'e kind" where
  "observed (External_readonly g n v) = External_readonly g (n + 1) v"
| "observed k = k"

fun first_observation :: "'e kind \<Rightarrow> bool" where
  "first_observation (External_readonly g n v) = (n = 0)"
| "first_observation k = False"

fun external_readonly_kind :: "'e kind \<Rightarrow> bool" where
  "external_readonly_kind (External_readonly g n v) = True"
| "external_readonly_kind k = False"

lemma getter_observed [simp]: "getter (observed k) = getter k"
  by (cases k) (auto simp: fun_eq_iff)

definition ticked :: "bool \<Rightarrow> addr \<Rightarrow> addr \<Rightarrow> ('e, 'g) world \<Rightarrow> ('e, 'g) world" where
  "ticked b d a w = (if b then set_ticks d (\<lambda>ts. ts @ [a]) w else w)"

lemma ticked_simps [simp]:
  "a \<noteq> d \<Longrightarrow> leaf_at (ticked b d x w) a = leaf_at w a"
  "app (ticked b d a w) = app w" "deliveries (ticked b d a w) = deliveries w"
  "outline (tree (ticked b d a w)) = outline (tree w)"
  "served d (ticked b d a w) = ticked b d a (served d w)"
  "a \<noteq> d \<Longrightarrow> set_leaf a l (ticked b d x w) = ticked b d x (set_leaf a l w)"
  by (simp_all add: ticked_def set_leaf_ticks)

lemma observe_param_at:
  assumes "leaf_at w a = Some l" "readable_kind (kind l)" "a \<noteq> d" "d \<in> dom (tree w)"
    "get_object_dictionary (tree w) a = Inr (Some d)"
  shows "observe_param S big s a w =
    observable_observe S big s a (ticked (first_observation (kind l)) d a (set_leaf a (l\<lparr>kind := observed (kind l)\<rparr>) w))"
proof (cases "external_readonly_kind (kind l)")
  case True
  then obtain g n v where k: "kind l = External_readonly g n v" by (cases "kind l") auto
  have dom: "d \<in> dom (tree (set_leaf a x w))" for x using assms(3,4) by (simp add: set_leaf_def domIff)
  show ?thesis
    using assms(1,5) ticks_at(1) [OF dom, of a]
    by (cases "n = 0") (simp_all add: observe_param_def get_leaf_at k external_readonly_observe_def upd_kind_at
        ticked_def ret_def)
next
  case False
  then have o: "observed (kind l) = kind l" "\<not> first_observation (kind l)" by (cases "kind l"; simp)+
  have "set_leaf a l w = w"
    using assms(1) by (auto simp: set_leaf_def leaf_at_Some fun_upd_idem)
  then have "set_leaf a (l\<lparr>kind := observed (kind l)\<rparr>) w = w" by (simp add: o)
  then show ?thesis
    using assms(1,2) False by (cases "kind l") (simp_all add: observe_param_def get_leaf_at ticked_def)
qed

lemma observed_sig [simp]:
  "leaf_sig (l\<lparr>kind := observed (kind l)\<rparr>) = leaf_sig l"
  "leaf_sig (l\<lparr>kind := observed (kind l), value_signal := g\<rparr>) = leaf_sig l"
  by (cases "kind l"; simp add: leaf_sig_def)+

text \<open>What a first observation of a parameter starts from.\<close>

definition observable_setup ::
  "addr \<Rightarrow> client \<Rightarrow> addr \<Rightarrow> ('e, 'g) leaf \<Rightarrow> string \<Rightarrow> ('e, 'g) world \<Rightarrow> bool" where
  "observable_setup d c a l uri w \<longleftrightarrow>
     idle d w \<and> leaf_at w a = Some l \<and> readable_kind (kind l) \<and>
     (\<exists>ob. tree w a = Some ob \<and> effective_userlevel c \<le> oreadlevel ob) \<and>
     fq_name (tree w) a = Some uri \<and> observables c uri = None \<and>
     get_object_dictionary (tree w) a = Inr (Some d)"

lemma observe_unfold:
  assumes "observable_setup d c a l uri w"
    "observe_param S big (cid c) a (serving d c w) = (r, w')" "outline (tree w') = outline (tree w)"
  shows "observe S big d (Some a) (c, w) =
    (case r of
       Inl e \<Rightarrow> (Inl e, (c, served d w'))
     | Inr conn \<Rightarrow> (Inr (), (c\<lparr>observables := (observables c)(uri \<mapsto> map_option (\<lambda>k. (a, k)) conn)\<rparr>, served d w')))"
proof -
  note start = assms(1) [unfolded observable_setup_def]
  then obtain ob where ob: "tree w a = Some ob" "effective_userlevel c \<le> oreadlevel ob" by auto
  then have k: "klass ob = Leaf_k l" using start by (auto simp: leaf_at_Some)
  obtain ob' where ob': "tree (serving d c w) a = Some ob'" "oreadlevel ob' = oreadlevel ob"
    "observe_interface (klass ob') = observe_interface (klass ob)"
    using interface_serving [OF ob(1), of d c] by metis
  have "observe_interface (klass ob')" using ob'(3) k start by (simp add: observe_interface_def)
  then have cast: "cast_object observe_interface (Some a) (serving d c w) = (Inr (a, ob'), serving d c w)"
    using ob' by (simp add: cast_object_def get_object_def deref_def ret_def)
  have name: "name_of a (serving d c w) = (Inr uri, serving d c w)"
    using start by (simp add: name_of_def)
  have unfold: "st_then (on_world (cast_object observe_interface (Some a))) (\<lambda>(a, ob) (c, w).
        if effective_userlevel c > oreadlevel ob then (Inl (Runtime access_denied_error), (c, w))
        else
          st_then (on_world (name_of a)) (\<lambda>uri (c, w).
            if observables c uri = None then
              st_then (on_world (observe_param S big (cid c) a)) (\<lambda>conn (c, w).
                (Inr (), (c\<lparr>observables := (observables c)(uri \<mapsto> map_option (\<lambda>k. (a, k)) conn)\<rparr>, w))) (c, w)
            else
              st_then (on_world (generic_value big a)) (\<lambda>g. on_world (deliver (cid c) uri g)) (c, w)) (c, w))
      (c, serving d c w) =
    (case r of
       Inl e \<Rightarrow> (Inl e, (c, w'))
     | Inr conn \<Rightarrow> (Inr (), (c\<lparr>observables := (observables c)(uri \<mapsto> map_option (\<lambda>k. (a, k)) conn)\<rparr>, w')))"
    using start ob(2) ob'(2) assms(2)
    by (simp add: st_then_def on_world_def cast name split: sum.split)
  have idle: "idle d w" using start by simp
  show ?thesis
  proof (cases r)
    case (Inl e)
    show ?thesis
      unfolding observe_def Inl sum.case
      by (rule with_context_cw_at [OF idle _ assms(3)]) (simp only: unfold Inl sum.case)
  next
    case (Inr conn)
    show ?thesis
      unfolding observe_def Inr sum.case
      by (rule with_context_cw_at [OF idle _ assms(3)]) (simp only: unfold Inr sum.case)
  qed
qed


lemma observe_at:
  assumes "observable_setup d c a l uri w" "sig_connect S (cid c) (value_signal l) = (k, g)"
    "getter (kind l) (app w) = (Inr cur, e)" "to_generic big (lhint l) (ltype l) cur = Inr gv"
    "l1 = l\<lparr>kind := observed (kind l), value_signal := g\<rparr>"
  shows "observe S big d (Some a) (c, w) =
    (Inr (), (c\<lparr>observables := (observables c)(uri \<mapsto> Some (a, k))\<rparr>,
       ticked (first_observation (kind l)) d a (set_leaf a l1 w)
         \<lparr>app := e, deliveries := deliveries w @ notify_slots S l1 uri gv\<rparr>))"
proof -
  note start = assms(1) [unfolded observable_setup_def]
  let ?w = "serving d c w" and ?lo = "l\<lparr>kind := observed (kind l)\<rparr>"
  let ?t = "ticked (first_observation (kind l)) d a"
  have idle: "idle d w" and l: "leaf_at w a = Some l" using start by simp_all
  have ne: "a \<noteq> d" by (rule idle_leaf [OF idle l])
  have ta: "tree w a \<noteq> None" using start by auto
  have dict: "get_object_dictionary (tree ?w) a = Inr (Some d)"
    using start outline_dictionary [OF serving_outline] by metis
  have dom: "d \<in> dom (tree ?w)" using idle_dom [OF idle] outline_fields(1) [OF serving_outline] by metis
  have o: "outline (tree (?t (set_leaf a ?lo ?w))) = outline (tree w)"
    using set_leaf_outline [of ?w a l ?lo] l by simp
  have lo: "leaf_at (?t (set_leaf a ?lo ?w)) a = Some ?lo"
    using ne l ta serving_None [of w a] by (auto simp: leaf_at_Some serving_def)
  have name: "fq_name (tree (?t (set_leaf a ?lo ?w))) a = Some uri"
    using outline_fq_name [OF o] start by simp
  have p: "observe_param S big (cid c) a ?w =
      (Inr (Some k), ?t (set_leaf a l1 ?w)\<lparr>app := e, deliveries := deliveries w @ notify_slots S l1 uri gv\<rparr>)"
    using observe_param_at [of ?w a l d S big "cid c"] start ne dict dom
      observable_observe_at [OF lo name, of S "cid c" k g cur e big gv] assms(2-5) by simp
  have "outline (tree (?t (set_leaf a l1 ?w)\<lparr>app := e, deliveries := deliveries w @ notify_slots S l1 uri gv\<rparr>)) = outline (tree w)"
    using set_leaf_outline [of ?w a l l1] l assms(5) by simp
  from observe_unfold [OF assms(1) p this] show ?thesis using ne served_serving [OF idle, of c] by simp
qed

lemma observe_fails:
  assumes "observable_setup d c a l uri w" "sig_connect S (cid c) (value_signal l) = (k, g)"
    "getter (kind l) (app w) = (Inl err, e)"
    "l1 = l\<lparr>kind := observed (kind l), value_signal := sig_disconnect S k g\<rparr>"
  shows "observe S big d (Some a) (c, w) =
    (Inl err, (c, ticked (first_observation (kind l)) d a (set_leaf a l1 w)\<lparr>app := e\<rparr>))"
proof -
  note start = assms(1) [unfolded observable_setup_def]
  let ?w = "serving d c w" and ?lo = "l\<lparr>kind := observed (kind l)\<rparr>"
  let ?t = "ticked (first_observation (kind l)) d a"
  have idle: "idle d w" and l: "leaf_at w a = Some l" using start by simp_all
  have ne: "a \<noteq> d" by (rule idle_leaf [OF idle l])
  have dict: "get_object_dictionary (tree ?w) a = Inr (Some d)"
    using start outline_dictionary [OF serving_outline] by metis
  have dom: "d \<in> dom (tree ?w)" using idle_dom [OF idle] outline_fields(1) [OF serving_outline] by metis
  have lo: "leaf_at (?t (set_leaf a ?lo ?w)) a = Some ?lo"
    using ne l serving_None [of w a] by (auto simp: leaf_at_Some serving_def)
  have p: "observe_param S big (cid c) a ?w = (Inl err, ?t (set_leaf a l1 ?w)\<lparr>app := e\<rparr>)"
    using observe_param_at [of ?w a l d S big "cid c"] start ne dict dom
      observable_observe_fails [OF lo, of S "cid c" k g err e big] assms(2-4) by simp
  have "outline (tree (?t (set_leaf a l1 ?w)\<lparr>app := e\<rparr>)) = outline (tree w)"
    using set_leaf_outline [of ?w a l l1] l assms(4) by simp
  from observe_unfold [OF assms(1) p this] show ?thesis using ne served_serving [OF idle, of c] by simp
qed

fun unobserved :: "'e kind \<Rightarrow> 'e kind" where
  "unobserved (External_readonly g n v) = External_readonly g (n - 1) v"
| "unobserved k = k"

fun last_observation :: "'e kind \<Rightarrow> bool" where
  "last_observation (External_readonly g n v) = (n - 1 = 0)"
| "last_observation k = False"

lemma unobserved_sig [simp]: "leaf_sig (l\<lparr>kind := unobserved (kind l), value_signal := g\<rparr>) = leaf_sig l"
  by (cases "kind l"; simp add: leaf_sig_def)

definition unticked :: "bool \<Rightarrow> addr \<Rightarrow> addr \<Rightarrow> ('e, 'g) world \<Rightarrow> ('e, 'g) world" where
  "unticked b d a w = (if b then set_ticks d (filter (\<lambda>x. x \<noteq> a)) w else w)"

lemma unobserve_param_at:
  assumes "leaf_at w a = Some l" "a \<noteq> d" "d \<in> dom (tree w)" "get_object_dictionary (tree w) a = Inr (Some d)"
  shows "unobserve_param a w = (Inr (), unticked (last_observation (kind l)) d a (set_leaf a (l\<lparr>kind := unobserved (kind l)\<rparr>) w))"
proof (cases "external_readonly_kind (kind l)")
  case True
  then obtain g n v where k: "kind l = External_readonly g n v" by (cases "kind l") auto
  have dom: "d \<in> dom (tree (set_leaf a x w))" for x using assms(2,3) by (simp add: set_leaf_def domIff)
  have "outline (tree (set_leaf a (l\<lparr>kind := External_readonly g (n - 1) v\<rparr>) w)) = outline (tree w)"
    using assms(1) by (intro set_leaf_outline [of _ _ l]) (auto simp: leaf_sig_def k)
  from outline_dictionary [OF this, of a] show ?thesis
    using assms(1,4) ticks_at(2) [OF dom, of a]
    by (cases "n = 1")
      (simp_all add: unobserve_param_def get_leaf_at k external_readonly_unobserve_def upd_kind_at unticked_def)
next
  case False
  then have o: "unobserved (kind l) = kind l" "\<not> last_observation (kind l)" by (cases "kind l"; simp)+
  have "set_leaf a l w = w"
    using assms(1) by (auto simp: set_leaf_def leaf_at_Some fun_upd_idem)
  then have "set_leaf a (l\<lparr>kind := unobserved (kind l)\<rparr>) w = w" by (simp add: o)
  then show ?thesis
    using assms(1) False o by (cases "kind l") (simp_all add: unobserve_param_def get_leaf_at unticked_def ret_def)
qed

lemma unobserve_at:
  assumes "idle d w" "leaf_at w a = Some l" "readable_kind (kind l)" "fq_name (tree w) a = Some uri"
    "observables c uri = Some (Some (a, k))" "get_object_dictionary (tree w) a = Inr (Some d)"
  shows "unobserve S d (Some a) (c, w) =
    (Inr (), (c\<lparr>observables := (observables c)(uri := None)\<rparr>,
       unticked (last_observation (kind l)) d a
         (set_leaf a (l\<lparr>kind := unobserved (kind l), value_signal := sig_disconnect S k (value_signal l)\<rparr>) w)))"
proof -
  let ?w = "serving d c w"
  let ?ld = "l\<lparr>value_signal := sig_disconnect S k (value_signal l)\<rparr>"
  let ?l2 = "l\<lparr>kind := unobserved (kind l), value_signal := sig_disconnect S k (value_signal l)\<rparr>"
  have ne: "a \<noteq> d" by (rule idle_leaf [OF assms(1,2)])
  obtain ob where ob: "tree w a = Some ob" "klass ob = Leaf_k l" using assms(2) by (auto simp: leaf_at_Some)
  obtain ob' where ob': "tree ?w a = Some ob'" "observe_interface (klass ob') = observe_interface (klass ob)"
    using interface_serving [OF ob(1), of d c] by metis
  then have cast: "cast_object observe_interface (Some a) ?w = (Inr (a, ob'), ?w)"
    using ob assms(3) by (simp add: cast_object_def get_object_def deref_def ret_def observe_interface_def)
  have name: "name_of a ?w = (Inr uri, ?w)" using assms(4) by (simp add: name_of_def)
  have drop: "drop_connection S (Some (a, k)) ?w = set_leaf a ?ld ?w"
    using assms(2) by (simp add: drop_connection_def disconnect_def upd_signal_at)
  have o: "outline (tree (set_leaf a ?ld ?w)) = outline (tree w)"
    using set_leaf_outline [of ?w a l ?ld] assms(2) by (simp add: leaf_sig_def)
  have swap: "l\<lparr>value_signal := g, kind := x\<rparr> = l\<lparr>kind := x, value_signal := g\<rparr>" for g x by simp
  have "unobserve_param a (set_leaf a ?ld ?w) =
      (Inr (), unticked (last_observation (kind l)) d a (set_leaf a ?l2 ?w))"
    using unobserve_param_at [of "set_leaf a ?ld ?w" a ?ld d] ne ob'(1) outline_dictionary [OF o, of a] assms(6)
      idle_dom [OF assms(1)] outline_fields(1) [OF o]
    by (simp add: swap)
  then have run: "st_then (on_world (name_of a)) (\<lambda>uri (c, w).
            case observables c uri of
              None \<Rightarrow> (Inl (Runtime not_subscribed_error), (c, w))
            | Some conn \<Rightarrow>
                st_then (on_world (cast_object observe_interface (Some a))) (\<lambda>_ (c, w).
                  on_world (unobserve_param a)
                    (c\<lparr>observables := (observables c)(uri := None)\<rparr>, drop_connection S conn w)) (c, w)) (c, ?w) =
      (Inr (), (c\<lparr>observables := (observables c)(uri := None)\<rparr>, unticked (last_observation (kind l)) d a (set_leaf a ?l2 ?w)))"
    by (simp add: st_then_def on_world_def name cast assms(5) drop)
  have oo: "outline (tree (unticked (last_observation (kind l)) d a (set_leaf a ?l2 ?w))) = outline (tree w)"
    using set_leaf_outline [of ?w a l ?l2] assms(2) by (simp add: unticked_def)
  have "unobserve S d (Some a) (c, w) = (Inr (), (c\<lparr>observables := (observables c)(uri := None)\<rparr>,
      served d (unticked (last_observation (kind l)) d a (set_leaf a ?l2 ?w))))"
    unfolding unobserve_def option.case by (rule with_context_cw_at [OF assms(1) _ oo]) (rule run)
  then show ?thesis
    using ne served_serving [OF assms(1), of c] by (simp add: unticked_def)
qed


lemma signals_okD:
  assumes "signals_ok S" "sig_connect S s x = (k, g)"
  shows "k \<notin> fst ` set (sig_slots S x)" "sig_slots S g = sig_slots S x @ [(k, s)]"
    "sig_slots S (sig_disconnect S k g) = sig_slots S x"
proof -
  show 1: "k \<notin> fst ` set (sig_slots S x)" and 2: "sig_slots S g = sig_slots S x @ [(k, s)]"
    using assms unfolding signals_ok_def by (metis fst_conv snd_conv)+
  have "sig_slots S (sig_disconnect S k g) = filter (\<lambda>p. fst p \<noteq> k) (sig_slots S g)"
    using assms(1) unfolding signals_ok_def by blast
  also have "\<dots> = filter (\<lambda>p. fst p \<noteq> k) (sig_slots S x)" by (simp add: 2)
  also have "\<dots> = sig_slots S x" using 1 by (auto intro: filter_True)
  finally show "sig_slots S (sig_disconnect S k g) = sig_slots S x" .
qed

text \<open>A parameter that is polled is registered exactly when somebody observes it.\<close>

fun polling_ok :: "'e kind \<Rightarrow> addr \<Rightarrow> addr list \<Rightarrow> bool" where
  "polling_ok (External_readonly g n v) a ts = (n + 1 \<noteq> 0 \<and> (n = 0 \<longleftrightarrow> a \<notin> set ts))"
| "polling_ok k a ts = True"

lemma unobserved_observed [simp]: "unobserved (observed k) = k"
  by (cases k) simp_all

lemma last_first: "last_observation (observed k) = first_observation k"
  by (cases k) simp_all

lemma readable_observed [simp]: "readable_kind (observed k) = readable_kind k"
  by (cases k) simp_all

lemma idle_set_leaf: "a \<noteq> d \<Longrightarrow> idle d (set_leaf a l w) = idle d w"
  by (simp add: idle_def set_leaf_def)

lemma idle_ticked: "idle d w \<Longrightarrow> idle d (ticked b d a w)"
  by (auto simp: idle_def ticked_def set_ticks_def)

lemma idle_upd [simp]: "idle d (w\<lparr>app := e\<rparr>) = idle d w" "idle d (w\<lparr>deliveries := ds\<rparr>) = idle d w"
  by (simp_all add: idle_def)

lemma tick_targets_upd [simp]:
  "tick_targets (tree (w\<lparr>app := e\<rparr>)) d = tick_targets (tree w) d" by simp

definition sample_polled :: "('e, cval) handler option \<Rightarrow> 'e kind" where
  "sample_polled h = External_readonly h 0 None"

lemma sample_setup:
  "observable_setup 0 sample_client 1 (sample_param (sample_polled h)) ''root:p'' (sample_world (sample_polled h))"
proof -
  have "get_object_dictionary (tree (sample_world (sample_polled h))) 1 = Inr (Some 0)"
    by (simp add: get_object_dictionary_def root_of.simps sample_world_def deref_def)
  then show ?thesis
    using sample_facts [of "sample_polled h"]
    by (simp add: observable_setup_def)
      (simp add: sample_world_def sample_param_def sample_polled_def sample_client_def new_client_def
        effective_userlevel_def userlevel_defs)
qed

text \<open>Observing and unobserving leave the list of polled parameters as it was; in between a polled one is in it.\<close>

lemma polling_restored:
  assumes "idle d w" "a \<noteq> d" "polling_ok (kind l) a (tick_targets (tree w) d)"
  shows "tick_targets (tree (unticked (first_observation (kind l)) d a (ticked (first_observation (kind l)) d a (set_leaf a l2 w)))) d =
      tick_targets (tree w) d"
    and "external_readonly_kind (kind l) \<Longrightarrow> a \<in> set (tick_targets (tree (ticked (first_observation (kind l)) d a (set_leaf a l1 w))) d)"
proof -
  let ?b = "first_observation (kind l)"
  have idl: "idle d (set_leaf a x w)" "idle d (ticked ?b d a (set_leaf a x w))" for x
    using assms(1,2) by (simp_all add: idle_ticked idle_set_leaf)
  show "tick_targets (tree (unticked ?b d a (ticked ?b d a (set_leaf a l2 w)))) d = tick_targets (tree w) d"
  proof (cases ?b)
    case True
    then have "a \<notin> set (tick_targets (tree w) d)" using assms(3) by (cases "kind l") auto
    then show ?thesis
      using True tick_targets_set_ticks [OF idl(1)] tick_targets_set_ticks [OF idl(2)] assms(2)
      by (simp add: ticked_def unticked_def tick_targets_set_leaf)
  qed (use assms(2) in \<open>simp add: ticked_def unticked_def tick_targets_set_leaf\<close>)
  have "tick_targets (tree (ticked ?b d a (set_leaf a l1 w))) d =
      (if ?b then tick_targets (tree w) d @ [a] else tick_targets (tree w) d)"
    using tick_targets_set_ticks [OF idl(1)] assms(2) by (simp add: ticked_def tick_targets_set_leaf)
  then show "external_readonly_kind (kind l) \<Longrightarrow> a \<in> set (tick_targets (tree (ticked ?b d a (set_leaf a l1 w))) d)"
    using assms(3) by (cases "kind l") auto
qed

text \<open>Unobserving from the state that observing leaves.\<close>

lemma unobserve_observed:
  assumes "observable_setup d c a l uri w"
    and "w1 = ticked (first_observation (kind l)) d a (set_leaf a (l\<lparr>kind := observed (kind l), value_signal := g\<rparr>) w)\<lparr>app := e, deliveries := ds\<rparr>"
  shows "unobserve S d (Some a) (c\<lparr>observables := (observables c)(uri \<mapsto> Some (a, k))\<rparr>, w1) =
    (Inr (), (c, unticked (first_observation (kind l)) d a (ticked (first_observation (kind l)) d a
      (set_leaf a (l\<lparr>value_signal := sig_disconnect S k g\<rparr>) w))\<lparr>app := e, deliveries := ds\<rparr>))"
proof -
  note start = assms(1) [unfolded observable_setup_def]
  have idle: "idle d w" and l: "leaf_at w a = Some l" using start by simp_all
  have ne: "a \<noteq> d" by (rule idle_leaf [OF idle l])
  have ta: "tree w a \<noteq> None" using start by auto
  let ?l1 = "l\<lparr>kind := observed (kind l), value_signal := g\<rparr>" and ?l2 = "l\<lparr>value_signal := sig_disconnect S k g\<rparr>"
  let ?c = "c\<lparr>observables := (observables c)(uri \<mapsto> Some (a, k))\<rparr>"
  have o1: "outline (tree w1) = outline (tree w)" using set_leaf_outline [of w a l ?l1] l by (simp add: assms(2))
  have l1: "leaf_at w1 a = Some ?l1" using ne ta by (simp add: assms(2))
  have "unobserve S d (Some a) (?c, w1) = (Inr (), (?c\<lparr>observables := (observables ?c)(uri := None)\<rparr>,
      unticked (last_observation (kind ?l1)) d a
        (set_leaf a (?l1\<lparr>kind := unobserved (kind ?l1), value_signal := sig_disconnect S k (value_signal ?l1)\<rparr>) w1)))"
    using idle ne l1 start outline_fq_name [OF o1, of a] outline_dictionary [OF o1, of a] unfolding assms(2)
    by (intro unobserve_at) (simp_all add: idle_ticked idle_set_leaf)
  moreover have "?c\<lparr>observables := (observables ?c)(uri := None)\<rparr> = c"
    using start by (simp add: fun_upd_idem)
  moreover have "set_leaf a ?l2 w1 = ticked (first_observation (kind l)) d a (set_leaf a ?l2 w)\<lparr>app := e, deliveries := ds\<rparr>"
    using ne by (simp add: assms(2) set_leaf_def ticked_def set_ticks_def fun_upd_twist option.map_comp comp_def)
  ultimately show ?thesis by (simp add: last_first unticked_def set_ticks_def)
qed

text \<open>
  C19. Subscribing delivers the current value to every subscriber of the parameter, the new one
  included, and starts polling if the parameter needs it; unsubscribing afterwards undoes the
  subscription completely: the context's observations, the slots of the signal, the observation
  count, the list of polled parameters and every other parameter are as before.
\<close>

theorem observe_unobserve:
  assumes "observable_setup d c a l uri w" and "signals_ok S"
    and "getter (kind l) (app w) = (Inr cur, e)" and "to_generic big (lhint l) (ltype l) cur = Inr gv"
    and "polling_ok (kind l) a (tick_targets (tree w) d)"
  shows "\<exists>k w1 w2.
     observe S big d (Some a) (c, w) = (Inr (), (c\<lparr>observables := (observables c)(uri \<mapsto> Some (a, k))\<rparr>, w1)) \<and>
     deliveries w1 = deliveries w @ map (\<lambda>s. (s, uri, gv)) (map snd (sig_slots S (value_signal l)) @ [cid c]) \<and>
     (external_readonly_kind (kind l) \<longrightarrow> a \<in> set (tick_targets (tree w1) d)) \<and>
     unobserve S d (Some a) (c\<lparr>observables := (observables c)(uri \<mapsto> Some (a, k))\<rparr>, w1) = (Inr (), (c, w2)) \<and>
     app w2 = e \<and> deliveries w2 = deliveries w1 \<and> outline (tree w2) = outline (tree w) \<and>
     tick_targets (tree w2) d = tick_targets (tree w) d \<and> (\<forall>b. b \<noteq> a \<and> b \<noteq> d \<longrightarrow> tree w2 b = tree w b) \<and>
     (\<exists>g2. leaf_at w2 a = Some (l\<lparr>value_signal := g2\<rparr>) \<and> sig_slots S g2 = sig_slots S (value_signal l))"
proof -
  note start = assms(1) [unfolded observable_setup_def]
  have idle: "idle d w" and l: "leaf_at w a = Some l" using start by simp_all
  have ne: "a \<noteq> d" by (rule idle_leaf [OF idle l])
  have ta: "tree w a \<noteq> None" using start by auto
  obtain k g where conn: "sig_connect S (cid c) (value_signal l) = (k, g)" by fastforce
  note slots = signals_okD [OF assms(2) conn]
  let ?l1 = "l\<lparr>kind := observed (kind l), value_signal := g\<rparr>" and ?l2 = "l\<lparr>value_signal := sig_disconnect S k g\<rparr>"
  let ?b = "first_observation (kind l)" and ?c = "c\<lparr>observables := (observables c)(uri \<mapsto> Some (a, k))\<rparr>"
  let ?ds = "deliveries w @ notify_slots S ?l1 uri gv"
  let ?w1 = "ticked ?b d a (set_leaf a ?l1 w)\<lparr>app := e, deliveries := ?ds\<rparr>"
  let ?w2 = "unticked ?b d a (ticked ?b d a (set_leaf a ?l2 w))\<lparr>app := e, deliveries := ?ds\<rparr>"
  have ob: "observe S big d (Some a) (c, w) = (Inr (), (?c, ?w1))"
    by (rule observe_at [OF assms(1) conn assms(3,4) refl])
  have un: "unobserve S d (Some a) (?c, ?w1) = (Inr (), (c, ?w2))" by (rule unobserve_observed [OF assms(1) refl])
  have o2: "outline (tree ?w2) = outline (tree w)"
    using set_leaf_outline [of w a l ?l2] l by (simp add: unticked_def leaf_sig_def)
  have other: "\<forall>b. b \<noteq> a \<and> b \<noteq> d \<longrightarrow> tree ?w2 b = tree w b"
    by (simp add: unticked_def ticked_def set_ticks_def set_leaf_def)
  have leaf2: "leaf_at ?w2 a = Some ?l2" using ne ta by (simp add: unticked_def)
  have del: "?ds = deliveries w @ map (\<lambda>s. (s, uri, gv)) (map snd (sig_slots S (value_signal l)) @ [cid c])"
    by (simp add: notify_slots_def slots(2) case_prod_beta comp_def)
  show ?thesis
    using ob un polling_restored(1) [OF idle ne assms(5), of ?l2]
      polling_restored(2) [OF idle ne assms(5), of ?l1] o2 other leaf2 slots(3) del
    by (intro exI [of _ k] exI [of _ ?w1] exI [of _ ?w2]) (auto simp: unticked_def)
qed

theorem observe_unobserve_witness:
  "\<exists>k w1. observe list_signals False 0 (Some 1)
       (sample_client, sample_world (sample_polled (Some (\<lambda>e. (Inr (VInt 4), e + 1))))) =
         (Inr (), (sample_client\<lparr>observables := [''root:p'' \<mapsto> Some (1, k)]\<rparr>, w1)) \<and>
     deliveries w1 = [(7, ''root:p'', Scalar_t (Integer_t 4)), (9, ''root:p'', Scalar_t (Integer_t 4))]"
proof -
  let ?k = "sample_polled (Some (\<lambda>e. (Inr (VInt 4), e + 1))) :: nat kind"
  have "to_generic False none (CInt True 32) (VInt 4) = Inr (Scalar_t (Integer_t 4))"
    by (simp add: to_generic_def scalar_to_generic_def convert_lossless_integer_def int_min_def int_max_def)
  then show ?thesis
    using observe_unobserve [OF sample_setup list_signals_ok, of "Some (\<lambda>e. (Inr (VInt 4), e + 1))" "VInt 4" 1
        False "Scalar_t (Integer_t 4)"]
    by (auto simp: sample_param_def sample_polled_def sample_world_def tick_targets_def list_signals_def
        sample_client_def new_client_def)
qed

text \<open>
  If the getter of a polled parameter throws while a client subscribes, the client gets the
  error and is not subscribed, but the observation stays counted and the parameter stays in the
  list of polled parameters: the next tick throws again.
\<close>

theorem failed_observe_leaks:
  assumes "observable_setup d c a l uri w" and "signals_ok S"
    and "kind l = External_readonly h n v" and "n = 0"
    and "getter (kind l) (app w) = (Inl err, e)"
  shows "\<exists>w1. observe S big d (Some a) (c, w) = (Inl err, (c, w1)) \<and>
    tick_targets (tree w1) d = tick_targets (tree w) d @ [a] \<and>
    (\<exists>g. leaf_at w1 a = Some (l\<lparr>kind := External_readonly h 1 v, value_signal := g\<rparr>) \<and>
         sig_slots S g = sig_slots S (value_signal l)) \<and>
    unobserve S d (Some a) (c, w1) = (Inl (Runtime not_subscribed_error), (c, w1))"
proof -
  note start = assms(1) [unfolded observable_setup_def]
  have idle: "idle d w" and l: "leaf_at w a = Some l" using start by simp_all
  have ne: "a \<noteq> d" by (rule idle_leaf [OF idle l])
  obtain k g where conn: "sig_connect S (cid c) (value_signal l) = (k, g)" by fastforce
  let ?l1 = "l\<lparr>kind := External_readonly h 1 v, value_signal := sig_disconnect S k g\<rparr>"
  let ?w1 = "set_ticks d (\<lambda>ts. ts @ [a]) (set_leaf a ?l1 w)\<lparr>app := e\<rparr>"
  have ob: "observe S big d (Some a) (c, w) = (Inl err, (c, ?w1))"
    using observe_fails [OF assms(1) conn assms(5) refl, of big] assms(3,4) by (simp add: ticked_def)
  have idl: "idle d (set_leaf a ?l1 w)" using idle ne by (simp add: idle_set_leaf)
  have idl1: "idle d ?w1" using idle_ticked [OF idl, of True a] by (simp add: ticked_def)
  have tick: "tick_targets (tree ?w1) d = tick_targets (tree w) d @ [a]"
    using tick_targets_set_ticks [OF idl] ne by (simp add: tick_targets_set_leaf)
  have o1: "outline (tree ?w1) = outline (tree w)"
    using set_leaf_outline [of w a l ?l1] l assms(3) by (simp add: leaf_sig_def)
  have leaf: "leaf_at ?w1 a = Some ?l1" using start ne by auto
  have name: "name_of a (serving d c ?w1) = (Inr uri, serving d c ?w1)"
    using start outline_fq_name [OF o1, of a] by (simp add: name_of_def)
  have "unobserve S d (Some a) (c, ?w1) = (Inl (Runtime not_subscribed_error), (c, served d (serving d c ?w1)))"
    unfolding unobserve_def option.case
    using idl1 name start by (intro with_context_cw_at) (simp_all add: st_then_def on_world_def)
  then have "unobserve S d (Some a) (c, ?w1) = (Inl (Runtime not_subscribed_error), (c, ?w1))"
    using served_serving [OF idl1] by simp
  with ob tick leaf signals_okD(3) [OF assms(2) conn] show ?thesis by (intro exI [of _ ?w1]) auto
qed

theorem failed_observe_leaks_witness:
  "\<exists>w1. observe list_signals False 0 (Some 1) (sample_client, sample_world (sample_polled None)) =
       (Inl (Runtime not_implemented_error), (sample_client, w1)) \<and> tick_targets (tree w1) 0 = [1]"
  using failed_observe_leaks [OF sample_setup list_signals_ok, of None None 0 None "Runtime not_implemented_error" 0 False]
  by (auto simp: sample_param_def sample_polled_def sample_world_def tick_targets_def)


subsection \<open>What a browse visits\<close>

definition visible :: "userlevel \<Rightarrow> 'x heap \<Rightarrow> addr \<Rightarrow> bool" where
  "visible ul h a = (case h a of None \<Rightarrow> False | Some ob \<Rightarrow> ul \<le> oreadlevel ob)"

text \<open>Objects reached from the start by going down to visible children.\<close>

inductive seen :: "userlevel \<Rightarrow> 'x heap \<Rightarrow> addr \<Rightarrow> addr \<Rightarrow> bool" for ul h a where
  start: "seen ul h a a"
| child: "seen ul h a b \<Longrightarrow> parent_of h c = Some b \<Longrightarrow> visible ul h c \<Longrightarrow> seen ul h a c"

primrec preorder :: "nat \<Rightarrow> userlevel \<Rightarrow> 'x heap \<Rightarrow> addr \<Rightarrow> addr list" where
  "preorder 0 ul h a = []"
| "preorder (Suc n) ul h a =
     a # (case children_of h a of
            None \<Rightarrow> []
          | Some cs \<Rightarrow> concat (map (preorder n ul h) (filter (visible ul h) cs)))"

lemma st_then_ret [simp]: "st_then (ret x) f = f x"
  by (simp add: fun_eq_iff st_then_def ret_def)

lemma st_then_assoc: "st_then (st_then m f) g = st_then m (\<lambda>x. st_then (f x) g)"
  by (simp add: fun_eq_iff st_then_def split: prod.split sum.split)

lemma each_append: "each f (xs @ ys) = st_then (each f xs) (\<lambda>_. each f ys)"
  by (induction xs) (simp_all add: st_then_assoc)

lemma each_concat: "each f (concat (map g xs)) = each (\<lambda>x. each f (g x)) xs"
  by (induction xs) (simp_all add: each_append)

lemma each_filter: "each (\<lambda>x. if P x then f x else ret ()) xs = each f (filter P xs)"
  by (induction xs) simp_all

lemma each_cong: "(\<And>x. x \<in> set xs \<Longrightarrow> f x = g x) \<Longrightarrow> each f xs = each g xs"
  by (induction xs) (auto intro: arg_cong2 [where f = st_then])

text \<open>The line of ancestors of an object, from the object to its root.\<close>

inductive line :: "(addr \<Rightarrow> addr option) \<Rightarrow> addr \<Rightarrow> addr list \<Rightarrow> bool" for par where
  root: "par a = None \<Longrightarrow> line par a [a]"
| up: "par a = Some p \<Longrightarrow> line par p xs \<Longrightarrow> line par a (a # xs)"

lemma line_unique: "line par a xs \<Longrightarrow> line par a ys \<Longrightarrow> xs = ys"
proof (induction arbitrary: ys rule: line.induct)
  case (root a)
  from root(2,1) show ?case by (cases rule: line.cases) auto
next
  case (up a p xs)
  from up(4,1,3) show ?case by (cases rule: line.cases) auto
qed

lemma line_ancestor: "line par b xs \<Longrightarrow> ancestor par a b \<Longrightarrow> \<exists>ys. line par a ys \<and> length ys \<le> length xs"
proof (induction rule: line.induct)
  case (root b)
  from root(2,1) show ?case by (cases rule: ancestor.cases) (auto intro: line.root)
next
  case (up b p xs)
  from up(4) show ?case
  proof (cases rule: ancestor.cases)
    case self
    with up(1,2) show ?thesis by (auto intro: line.up)
  next
    case (parent q)
    with up(1,3) show ?thesis by fastforce
  qed
qed

lemma line_members: "line par b xs \<Longrightarrow> a \<in> set xs \<Longrightarrow> ancestor par a b"
  by (induction rule: line.induct) (auto intro: ancestor.intros)

lemma no_ancestor_loop: "line par a xs \<Longrightarrow> par c = Some a \<Longrightarrow> \<not> ancestor par c a"
  using line_ancestor line_unique line.up by (metis Suc_n_not_le_n length_Cons)

lemma line_distinct: "line par a xs \<Longrightarrow> distinct xs"
proof (induction rule: line.induct)
  case (up a p xs)
  then show ?case using line_members no_ancestor_loop by (metis distinct.simps(2))
qed simp

lemma line_dom:
  assumes "tree_ok h"
  shows "line (parent_of h) a xs \<Longrightarrow> a \<in> dom h \<Longrightarrow> set xs \<subseteq> dom h"
  by (induction rule: line.induct) (auto dest: parent_in_dom [OF assms])

lemma line_exists: "rooted par a \<Longrightarrow> \<exists>xs. line par a xs"
  by (induction rule: rooted.induct) (auto intro: line.intros)

lemma ancestor_linear: "ancestor par a c \<Longrightarrow> ancestor par b c \<Longrightarrow> ancestor par a b \<or> ancestor par b a"
proof (induction rule: ancestor.induct)
  case self
  then show ?case by simp
next
  case (parent c p)
  from parent(4) show ?case
  proof (cases rule: ancestor.cases)
    case self
    with parent(1,2) show ?thesis by (auto intro: ancestor.parent)
  next
    case (parent q)
    with parent.hyps(1) parent.IH show ?thesis by simp
  qed
qed

lemma seen_ancestor: "seen ul h a b \<Longrightarrow> ancestor (parent_of h) a b"
  by (induction rule: seen.induct) (auto intro: ancestor.intros)

lemma seen_cases: "seen ul h a b \<longleftrightarrow> b = a \<or> (\<exists>c. parent_of h c = Some a \<and> visible ul h c \<and> seen ul h c b)"
proof
  show "seen ul h a b \<Longrightarrow> b = a \<or> (\<exists>c. parent_of h c = Some a \<and> visible ul h c \<and> seen ul h c b)"
    by (induction rule: seen.induct) (auto intro: seen.intros)
next
  have "seen ul h c b \<Longrightarrow> parent_of h c = Some a \<Longrightarrow> visible ul h c \<Longrightarrow> seen ul h a b" for c
    by (induction rule: seen.induct) (auto intro: seen.intros)
  then show "b = a \<or> (\<exists>c. parent_of h c = Some a \<and> visible ul h c \<and> seen ul h c b) \<Longrightarrow> seen ul h a b"
    by (auto intro: seen.start)
qed

lemma siblings_apart:
  assumes "line (parent_of h) a xs" "parent_of h c = Some a" "parent_of h c' = Some a" "c \<noteq> c'"
    "seen ul h c b" "seen ul h c' b"
  shows False
proof -
  have up: "ancestor par x y \<Longrightarrow> x \<noteq> y \<Longrightarrow> par y = Some p \<Longrightarrow> ancestor par x p" for par x y p
    by (erule ancestor.cases) auto
  from ancestor_linear [OF seen_ancestor [OF assms(5)] seen_ancestor [OF assms(6)]]
  show False using up assms(1-4) no_ancestor_loop by metis
qed

lemma distinct_concat_map:
  "distinct xs \<Longrightarrow> (\<And>x. x \<in> set xs \<Longrightarrow> distinct (f x)) \<Longrightarrow>
   (\<And>x y. x \<in> set xs \<Longrightarrow> y \<in> set xs \<Longrightarrow> x \<noteq> y \<Longrightarrow> set (f x) \<inter> set (f y) = {}) \<Longrightarrow> distinct (concat (map f xs))"
proof (induction xs)
  case (Cons x xs)
  have "set (f x) \<inter> set (f y) = {}" if "y \<in> set xs" for y using Cons.prems(1,3) that by (cases "y = x") auto
  with Cons show ?case by fastforce
qed simp

lemma browse_preorder:
  fixes h :: "'x heap" and visit :: "addr \<Rightarrow> ('s, unit) act"
  assumes ok: "tree_ok h" and fin: "finite (dom h)"
  shows "line (parent_of h) a xs \<Longrightarrow> a \<in> dom h \<Longrightarrow> card (dom h) < n + length xs \<Longrightarrow>
    browse n ul h visit (Some a) = each visit (preorder n ul h a) \<and>
    distinct (preorder n ul h a) \<and> set (preorder n ul h a) = {b. seen ul h a b}"
proof (induction n arbitrary: a xs)
  case 0
  have "length xs \<le> card (dom h)"
    using line_distinct [OF 0(1)] line_dom [OF ok 0(1,2)] fin by (metis card_mono distinct_card)
  with 0 show ?case by simp
next
  case (Suc n)
  obtain ob where ob: "h a = Some ob" using Suc.prems(2) by blast
  have ch: "children_of h a = klass_children (klass ob)" by (simp add: children_of_def ob)
  show ?case
  proof (cases "children_of h a")
    case None
    then have "parent_of h c \<noteq> Some a" for c using tree_okD(3) [OF ok] by fastforce
    then have "{b. seen ul h a b} = {a}" by (subst seen_cases) auto
    with None ob ch show ?thesis by simp
  next
    case (Some cs)
    let ?vs = "filter (visible ul h) cs"
    have kc: "klass_children (klass ob) = Some cs" using ch Some by simp
    have kid: "c \<in> set cs \<longleftrightarrow> parent_of h c = Some a" for c by (rule tree_okD(2) [OF ok Some])
    have kd: "c \<in> set cs \<Longrightarrow> c \<in> dom h" for c by (rule kids_in_dom [OF ok Some])
    have IH: "browse n ul h visit (Some c) = each visit (preorder n ul h c)"
      "distinct (preorder n ul h c)" "set (preorder n ul h c) = {b. seen ul h c b}" if "c \<in> set cs" for c
      using Suc.IH [of c "c # xs"] Suc.prems(1,3) kid kd that by (auto intro: line.up)
    have "(case h child of None \<Rightarrow> throw Undefined
         | Some cob \<Rightarrow> if ul \<le> oreadlevel cob then browse n ul h visit (Some child) else ret ()) =
        (if visible ul h child then each visit (preorder n ul h child) else ret ())" if "child \<in> set cs" for child
      using kd [OF that] IH(1) [OF that] by (auto simp: visible_def)
    then have "each (\<lambda>child. case h child of None \<Rightarrow> throw Undefined
         | Some cob \<Rightarrow> if ul \<le> oreadlevel cob then browse n ul h visit (Some child) else ret ()) cs =
        each visit (concat (map (preorder n ul h) ?vs))"
      unfolding each_concat by (subst each_filter [symmetric]) (rule each_cong, blast)
    then have 1: "browse (Suc n) ul h visit (Some a) = each visit (preorder (Suc n) ul h a)"
      using ob Some kc by simp
    have "distinct ?vs" using tree_okD(1) [OF ok Some] by simp
    moreover have "set (preorder n ul h c) \<inter> set (preorder n ul h c') = {}"
      if "c \<in> set ?vs" "c' \<in> set ?vs" "c \<noteq> c'" for c c'
      using that IH(3) kid siblings_apart [OF Suc.prems(1)] by (auto dest: siblings_apart [OF Suc.prems(1)])
    ultimately have "distinct (concat (map (preorder n ul h) ?vs))"
      using IH(2) by (intro distinct_concat_map) auto
    then have 2: "distinct (preorder (Suc n) ul h a)"
      using Some IH(3) kid no_ancestor_loop [OF Suc.prems(1)] seen_ancestor by fastforce
    have "set (preorder (Suc n) ul h a) = {b. seen ul h a b}"
      using Some IH(3) kid by (subst seen_cases) auto
    with 1 2 show ?thesis by blast
  qed
qed


lemma sample_world_tree_ok: "tree_ok (tree (sample_world k))"
proof (rule tree_okI)
  let ?h = "tree (sample_world k)"
  have p: "parent_of ?h = [1 \<mapsto> 0]" by (auto simp: parent_of_def sample_world_def fun_eq_iff)
  have c: "children_of ?h = [0 \<mapsto> [1]]" by (auto simp: children_of_def sample_world_def fun_eq_iff)
  show "distinct cs" if "children_of ?h p = Some cs" for p cs using that by (auto simp: c split: if_splits)
  show "x \<in> set cs \<longleftrightarrow> parent_of ?h x = Some p" if "children_of ?h p = Some cs" for p cs x
    using that by (auto simp: c p split: if_splits)
  show "\<exists>cs. children_of ?h p = Some cs" if "parent_of ?h a = Some p" for a p
    using that by (auto simp: p c split: if_splits)
  show "rooted (parent_of ?h) a" if "a \<in> dom ?h" for a
  proof -
    have r: "rooted [1 \<mapsto> 0] (b :: addr)" if "b \<noteq> 1" for b using that by (intro rooted.root) simp
    have "rooted [1 \<mapsto> 0] (1 :: addr)" by (rule rooted.up [OF _ r, of 1 0]) simp_all
    with r show ?thesis unfolding p by (cases "a = 1") auto
  qed
qed


lemma poll_notifies_changes_parts:
  assumes "leaf_at w a = Some l" and "kind l = External_readonly h n prev" and "fq_name (tree w) a = Some uri"
  shows "getter (kind l) (app w) = (Inr cur, e) \<Longrightarrow> to_generic big (lhint l) (ltype l) cur = Inr gv \<Longrightarrow>
      notify_param S big a w =
        (if prev = None \<or> \<not> cpp_eq (the prev) cur then
           (Inr (), set_leaf a (l\<lparr>kind := External_readonly h n (Some cur)\<rparr>) w
              \<lparr>app := e, deliveries := deliveries w @ notify_slots S l uri gv\<rparr>)
         else (Inr (), w\<lparr>app := e\<rparr>))"
    and "getter (kind l) (app w) = (Inl err, e) \<Longrightarrow> tick_targets (tree w) d = a # rest \<Longrightarrow>
      tick S big d w = (Inl err, w\<lparr>app := e\<rparr>)"
proof -
  have ext: "external_value h w = (case getter (kind l) (app w) of (r, e) \<Rightarrow> (r, w\<lparr>app := e\<rparr>))"
    by (simp add: assms(2) external_value_def run_handler_def throw_def split: option.split)
  show "notify_param S big a w =
        (if prev = None \<or> \<not> cpp_eq (the prev) cur then
           (Inr (), set_leaf a (l\<lparr>kind := External_readonly h n (Some cur)\<rparr>) w
              \<lparr>app := e, deliveries := deliveries w @ notify_slots S l uri gv\<rparr>)
         else (Inr (), w\<lparr>app := e\<rparr>))"
    if "getter (kind l) (app w) = (Inr cur, e)" "to_generic big (lhint l) (ltype l) cur = Inr gv"
  proof -
    have "emit S big a cur (w\<lparr>app := e\<rparr>) = (Inr (), w\<lparr>app := e, deliveries := deliveries w @ notify_slots S l uri gv\<rparr>)"
      using emit_at [of "w\<lparr>app := e\<rparr>" a l uri S big cur] assms that(2) by (simp add: notify_slots_def)
    moreover have "upd_kind a (store_last_value cur) (w\<lparr>app := e, deliveries := deliveries w @ notify_slots S l uri gv\<rparr>) =
        (Inr (), set_leaf a (l\<lparr>kind := External_readonly h n (Some cur)\<rparr>) w
              \<lparr>app := e, deliveries := deliveries w @ notify_slots S l uri gv\<rparr>)"
      using upd_kind_at [of "w\<lparr>app := e, deliveries := deliveries w @ notify_slots S l uri gv\<rparr>" a l "store_last_value cur"]
        assms by (simp add: set_leaf_def)
    ultimately show ?thesis
      using assms that ext by (cases prev) (simp_all add: notify_param_def get_leaf_at ret_def)
  qed
  show "tick S big d w = (Inl err, w\<lparr>app := e\<rparr>)"
    if "getter (kind l) (app w) = (Inl err, e)" "tick_targets (tree w) d = a # rest"
    using assms that ext by (simp add: tick_def notify_param_def get_leaf_at)
qed



end
