(* ===== verification/Session.thy ===== *)
theory Session
  imports Client_Context
begin


text \<open>
  Sessions: one connection, the server and the polling timer interleaved in any order
  (\<open>src/core/client_context.cpp\<close>, \<open>src/core/basic_client_context.cpp\<close>), and what holds
  throughout. The client gets no userlevel but those that \<open>A\<close> allows.
\<close>

inductive session_step ::
  "'g signals \<Rightarrow> bool \<Rightarrow> addr \<Rightarrow> (userlevel \<Rightarrow> bool) \<Rightarrow> client \<times> ('e, 'g) world \<Rightarrow> client \<times> ('e, 'g) world \<Rightarrow> bool" for S big d A where
  set: "session_step S big d A (c, w) (c, snd (set_parameter S big d c obj g w))"
| get: "session_step S big d A (c, w) (c, snd (get_parameter big d c obj w))"
| signal: "session_step S big d A (c, w) (c, snd (signal_event d c obj w))"
| observe: "session_step S big d A cw (snd (observe S big d obj cw))"
| unobserve: "session_step S big d A cw (snd (unobserve S d obj cw))"
| level: "A ul \<Longrightarrow> session_step S big d A (c, w) (snd (set_userlevel ul c), w)"
| tick: "session_step S big d A (c, w) (c, snd (client_tick S big d w))"
| server: "session_step S big d A (c, w) (c, snd (managed_readonly_set S big a v w))"
| visit: "session_step S big d A (c, w) (c, snd (generic_value big a w))"
| callback: "session_step S big d A (c, w) (c, w\<lparr>app := e\<rparr>)"

inductive session ::
  "'g signals \<Rightarrow> bool \<Rightarrow> addr \<Rightarrow> (userlevel \<Rightarrow> bool) \<Rightarrow> client \<times> ('e, 'g) world \<Rightarrow> client \<times> ('e, 'g) world \<Rightarrow> bool" for S big d A cw where
  begin_s: "session S big d A cw cw"
| step_s: "session S big d A cw cw1 \<Longrightarrow> session_step S big d A cw1 cw2 \<Longrightarrow> session S big d A cw cw2"

definition keeps_cw :: "(client \<times> ('e, 'g) world, 'a) act \<Rightarrow> bool" where
  "keeps_cw f \<longleftrightarrow> (\<forall>cw. outline (tree (snd (snd (f cw)))) = outline (tree (snd cw)) \<and> cul (fst (snd (f cw))) = cul (fst cw))"

lemma keeps_cw_then: "keeps_cw f \<Longrightarrow> (\<And>x. keeps_cw (g x)) \<Longrightarrow> keeps_cw (st_then f g)"
  unfolding keeps_cw_def st_then_def by (auto split: prod.splits sum.splits) (metis fst_conv snd_conv)+

lemma keeps_cw_world: "keeps f \<Longrightarrow> keeps_cw (on_world f)"
  by (auto simp: keeps_cw_def keeps_def on_world_def split: prod.splits) (metis snd_conv)

lemma keeps_deliver: "keeps (deliver s uri g)"
  by (simp add: keeps_def deliver_def)

lemma keeps_name_of: "keeps (name_of a)"
  by (simp add: keeps_def name_of_def split: option.split)

lemma outline_drop_connection [simp]: "outline (tree (drop_connection S conn w)) = outline (tree w)"
  by (simp add: drop_connection_def split: option.split)

lemma with_context_cw_idle:
  assumes "keeps_cw f" "idle d w"
  shows "idle d (snd (snd (with_context_cw d f (c, w))))"
    and "outline (tree (snd (snd (with_context_cw d f (c, w))))) = outline (tree w)"
    and "cul (fst (snd (with_context_cw d f (c, w)))) = cul c"
proof -
  obtain r c' w' where f: "f (c, serving d c w) = (r, (c', w'))" by (cases "f (c, serving d c w)") auto
  have "outline (tree (snd (snd (f (c, serving d c w))))) = outline (tree (serving d c w))"
    "cul (fst (snd (f (c, serving d c w)))) = cul c"
    using assms(1) unfolding keeps_cw_def by auto
  then have o: "outline (tree w') = outline (tree w)" and c: "cul c' = cul c" using f by simp_all
  have "with_context_cw d f (c, w) = (r, (c', served d w'))" by (rule with_context_cw_at [of d w f c r c' w', OF assms(2) f o])
  then show "idle d (snd (snd (with_context_cw d f (c, w))))"
    "outline (tree (snd (snd (with_context_cw d f (c, w))))) = outline (tree w)"
    "cul (fst (snd (with_context_cw d f (c, w)))) = cul c"
    using idle_served [OF assms(2) o] o c by simp_all
qed

lemma keeps_cw_I:
  assumes "\<And>c w. outline (tree (snd (snd (f (c, w))))) = outline (tree w) \<and> cul (fst (snd (f (c, w)))) = cul c"
  shows "keeps_cw f"
  using assms by (auto simp: keeps_cw_def)

lemma keeps_cw_D:
  assumes "keeps_cw f"
  shows "outline (tree (snd (snd (f (c, w))))) = outline (tree w)" "cul (fst (snd (f (c, w)))) = cul c"
  using assms by (simp_all add: keeps_cw_def)

lemma keeps_cw_observe:
  "keeps_cw (st_then (on_world (cast_object observe_interface obj)) (\<lambda>(a, ob) (c, w).
        if effective_userlevel c > oreadlevel ob then (Inl (Runtime access_denied_error), (c, w))
        else
          st_then (on_world (name_of a)) (\<lambda>uri (c, w).
            if observables c uri = None then
              st_then (on_world (observe_param S big (cid c) a)) (\<lambda>conn (c, w).
                (Inr (), (c\<lparr>observables := (observables c)(uri \<mapsto> map_option (\<lambda>k. (a, k)) conn)\<rparr>, w))) (c, w)
            else
              st_then (on_world (generic_value big a)) (\<lambda>g. on_world (deliver (cid c) uri g)) (c, w)) (c, w)))"
proof -
  have 1: "keeps_cw (st_then (on_world (observe_param S big s a)) (\<lambda>conn (c, w).
      (Inr (), (c\<lparr>observables := (observables c)(uri \<mapsto> map_option (\<lambda>k. (a, k)) conn)\<rparr>, w))))" for s a uri
    by (intro keeps_cw_then keeps_cw_world keeps_intros keeps_cw_I) auto
  have 2: "keeps_cw (st_then (on_world (generic_value big a)) (\<lambda>g. on_world (deliver s uri g)))" for a s uri
    by (intro keeps_cw_then keeps_cw_world keeps_intros keeps_deliver)
  have 3: "keeps_cw (st_then (on_world (name_of a)) (\<lambda>uri (c, w).
            if observables c uri = None then
              st_then (on_world (observe_param S big (cid c) a)) (\<lambda>conn (c, w).
                (Inr (), (c\<lparr>observables := (observables c)(uri \<mapsto> map_option (\<lambda>k. (a, k)) conn)\<rparr>, w))) (c, w)
            else
              st_then (on_world (generic_value big a)) (\<lambda>g. on_world (deliver (cid c) uri g)) (c, w)))" for a
    by (intro keeps_cw_then keeps_cw_world keeps_name_of keeps_cw_I)
      (simp add: keeps_cw_D [OF 1] keeps_cw_D [OF 2])
  show ?thesis
    by (intro keeps_cw_then keeps_cw_world keeps_cast keeps_cw_I) (auto simp: keeps_cw_D [OF 3] split: prod.split)
qed

lemma keeps_cw_unobserve:
  "keeps_cw (case obj of
        None \<Rightarrow> throw Undefined
      | Some a \<Rightarrow>
          st_then (on_world (name_of a)) (\<lambda>uri (c, w).
            case observables c uri of
              None \<Rightarrow> (Inl (Runtime not_subscribed_error), (c, w))
            | Some conn \<Rightarrow>
                st_then (on_world (cast_object observe_interface (Some a))) (\<lambda>_ (c, w).
                  on_world (unobserve_param a)
                    (c\<lparr>observables := (observables c)(uri := None)\<rparr>, drop_connection S conn w)) (c, w)))"
proof (cases obj)
  case None
  then show ?thesis by (simp add: keeps_cw_def throw_def)
next
  case (Some a)
  have 0: "keeps_cw (on_world (unobserve_param a))" by (intro keeps_cw_world keeps_intros)
  have 1: "keeps_cw (st_then (on_world (cast_object observe_interface (Some a))) (\<lambda>_ (c, w).
                  on_world (unobserve_param a)
                    (c\<lparr>observables := (observables c)(uri := None)\<rparr>, drop_connection S conn w)))" for uri conn
    by (intro keeps_cw_then keeps_cw_world keeps_cast keeps_cw_I) (simp add: keeps_cw_D [OF 0])
  show ?thesis
    unfolding Some option.case
    by (intro keeps_cw_then keeps_cw_world keeps_name_of keeps_cw_I) (simp add: keeps_cw_D [OF 1] split: option.split)
qed

lemma keeps_set_body:
  "keeps (if cul c = Readonly then throw (Runtime access_denied_error)
      else st_then (cast_object write_interface obj) (\<lambda>(a, ob).
           if cul c > owritelevel ob then throw (Runtime access_denied_error) else set_generic_value S big a g))"
  "keeps (if cul c = Readonly then throw (Runtime access_denied_error)
      else st_then (cast_object event_interface obj) (\<lambda>(a, ob).
           if cul c > owritelevel ob then throw (Runtime access_denied_error) else event_signal a))"
  "keeps (st_then (cast_object read_interface obj) (\<lambda>(a, ob).
        if effective_userlevel c > oreadlevel ob then throw (Runtime access_denied_error) else generic_value big a))"
  by (auto intro!: keeps_intros split: prod.split)


lemma keeps_cw_idle:
  assumes "keeps_cw f" "idle d w"
  shows "idle d (snd (snd (with_context_cw d f (c, w))))
    \<and> outline (tree (snd (snd (with_context_cw d f (c, w))))) = outline (tree w)
    \<and> cul (fst (snd (with_context_cw d f (c, w)))) = cul c"
  using with_context_cw_idle [OF assms] by simp

text \<open>Polling and the server's setters touch leaves only: the dictionary stays as it is.\<close>

definition keeps_dict :: "(('e, 'g) world, 'a) act \<Rightarrow> bool" where
  "keeps_dict f \<longleftrightarrow> (\<forall>d w. idle d w \<longrightarrow> idle d (snd (f w)))"

named_theorems keeps_dict_intros \<open>operations that leave nobody in service\<close>

lemma keeps_dict_then [keeps_dict_intros]: "keeps_dict f \<Longrightarrow> (\<And>x. keeps_dict (g x)) \<Longrightarrow> keeps_dict (st_then f g)"
  unfolding keeps_dict_def st_then_def by (auto split: prod.splits sum.splits) (metis snd_conv)+

lemma keeps_dict_basic [keeps_dict_intros]:
  "keeps_dict (ret x)" "keeps_dict (throw e)" "keeps_dict (run_handler f)" "keeps_dict (get_leaf a)"
  by (auto simp: keeps_dict_def ret_def throw_def run_handler_def get_leaf_def idle_def
      split: prod.split option.split klass.split)

lemma keeps_dict_upd_kind [keeps_dict_intros]: "keeps_dict (upd_kind a f)"
  by (auto simp: keeps_dict_def upd_kind_def upd_leaf_def on_tree_def modify_def idle_def
      split: option.split klass.split)

lemma keeps_dict_external_value [keeps_dict_intros]: "keeps_dict (external_value g)"
  by (auto simp: external_value_def intro: keeps_dict_intros split: option.split)

lemma keeps_dict_emit [keeps_dict_intros]: "keeps_dict (emit S big a v)"
  unfolding emit_def by (intro keeps_dict_then keeps_dict_basic) (auto simp: keeps_dict_def split: option.split sum.split)

lemma keeps_dict_notify [keeps_dict_intros]: "keeps_dict (notify_param S big a)"
  by (auto simp: notify_param_def intro!: keeps_dict_intros split: kind.split)

lemma keeps_dict_tick_list [keeps_dict_intros]: "keeps_dict (tick_list S big as)"
  by (induction as) (auto intro!: keeps_dict_intros)

lemma keeps_dict_tick [keeps_dict_intros]: "keeps_dict (tick S big d)"
  using keeps_dict_tick_list unfolding keeps_dict_def tick_def by blast

lemma keeps_dict_readonly_set [keeps_dict_intros]: "keeps_dict (managed_readonly_set S big a v)"
  by (auto simp: managed_readonly_set_def intro!: keeps_dict_intros split: kind.split)

lemma keeps_dict_generic_value [keeps_dict_intros]: "keeps_dict (generic_value big a)"
proof -
  have "keeps_dict (param_value a)"
    unfolding param_value_def by (auto intro!: keeps_dict_intros split: kind.split)
  moreover have "keeps_dict (\<lambda>w. (to_generic big hint t v, w))" for hint t v by (simp add: keeps_dict_def)
  ultimately have "keeps_dict (st_then (get_leaf a) (\<lambda>l. st_then (param_value a) (\<lambda>v w. (to_generic big (lhint l) (ltype l) v, w))))"
    by (intro keeps_dict_intros)
  then show ?thesis by (auto simp: keeps_dict_def generic_value_def split: sum.split)
qed

text \<open>What every step keeps, relative to the state before it.\<close>

definition same_shape :: "addr \<Rightarrow> client \<times> ('e, 'g) world \<Rightarrow> client \<times> ('e, 'g) world \<Rightarrow> bool" where
  "same_shape d cw cw' \<longleftrightarrow> idle d (snd cw') \<and> outline (tree (snd cw')) = outline (tree (snd cw)) \<and>
     (Minimum \<le> cul (fst cw) \<and> cul (fst cw) \<le> Maximum \<longrightarrow> Minimum \<le> cul (fst cw') \<and> cul (fst cw') \<le> Maximum)"

lemma same_shape_world:
  assumes "keeps f" "idle d w"
  shows "same_shape d (c, w) (c, snd (with_context d c' f w))"
  using with_context_idle [OF assms] by (simp add: same_shape_def)

lemma same_shape_cw:
  assumes "keeps_cw f" "idle d (snd cw)"
  shows "same_shape d cw (snd (with_context_cw d f cw))"
  using keeps_cw_idle [OF assms(1), of d "snd cw" "fst cw"] assms(2) by (simp add: same_shape_def)

lemma same_shape_direct:
  assumes "keeps f" "keeps_dict f" "idle d w"
  shows "same_shape d (c, w) (c, snd (f w))"
  using assms by (simp add: same_shape_def keeps_def keeps_dict_def)

lemma session_step_shape: "session_step S big d A cw cw' \<Longrightarrow> idle d (snd cw) \<Longrightarrow> same_shape d cw cw'"
proof (induction rule: session_step.induct)
  case (set c w obj g)
  then show ?case unfolding set_parameter_def by (intro same_shape_world keeps_set_body) simp
next
  case (get c w obj)
  then show ?case unfolding get_parameter_def by (intro same_shape_world keeps_set_body) simp
next
  case (signal c w obj)
  then show ?case unfolding signal_event_def by (intro same_shape_world keeps_set_body) simp
next
  case (observe cw obj)
  then show ?case unfolding observe_def by (intro same_shape_cw keeps_cw_observe)
next
  case (unobserve cw obj)
  then show ?case unfolding unobserve_def by (intro same_shape_cw keeps_cw_unobserve)
next
  case (level ul c w)
  then show ?case by (auto simp: same_shape_def set_userlevel_def not_less)
next
  case (tick c w)
  then show ?case unfolding client_tick_def by (intro same_shape_direct keeps_intros keeps_dict_intros) simp
next
  case (server c w a v)
  then show ?case by (intro same_shape_direct keeps_intros keeps_dict_intros) simp
next
  case (visit c w a)
  then show ?case by (intro same_shape_direct keeps_intros keeps_dict_intros) simp
next
  case (callback c w e)
  then show ?case by (simp add: same_shape_def idle_def)
qed

lemma session_invariant_parts:
  assumes "session S big d A (c, w) (c', w')" and "idle d w" and "Minimum \<le> cul c" and "cul c \<le> Maximum"
  shows "idle d w'" and "outline (tree w') = outline (tree w)" and "tree_ok (tree w') = tree_ok (tree w)"
    and "fq_name (tree w') a = fq_name (tree w) a" and "Minimum \<le> cul c' \<and> cul c' \<le> Maximum"
proof -
  have "same_shape d (c, w) cw'" if "session S big d A (c, w) cw'" for cw'
    using that
  proof (induction rule: session.induct)
    case begin_s
    then show ?case using assms(2) by (simp add: same_shape_def)
  next
    case (step_s cw1 cw2)
    have "same_shape d cw1 cw2" using session_step_shape [OF step_s(2)] step_s(3) by (simp add: same_shape_def)
    with step_s(3) show ?case by (auto simp: same_shape_def)
  qed
  from this [OF assms(1)] have s: "same_shape d (c, w) (c', w')" .
  then show "idle d w'" "outline (tree w') = outline (tree w)" "Minimum \<le> cul c' \<and> cul c' \<le> Maximum"
    using assms(3,4) by (simp_all add: same_shape_def)
  then show "tree_ok (tree w') = tree_ok (tree w)" "fq_name (tree w') a = fq_name (tree w) a"
    using outline_tree_ok outline_fq_name by blast+
qed

text \<open>
  Whatever a connection, the server, the program's callbacks and the polling timer do, in any order and with any
  arguments, errors included: between two operations nobody is recorded as the client being
  served, the tree keeps its objects, names, links and access levels (so the invariant of the tree
  holds and every fully qualified name stays what it is), and the client's userlevel stays a
  legal one.
\<close>

theorem session_invariant:
  assumes "session S big d A (c, w) (c', w')" and "idle d w" and "Minimum \<le> cul c" and "cul c \<le> Maximum"
  shows "(idle d w') \<and>
      (outline (tree w') = outline (tree w)) \<and>
      (tree_ok (tree w') = tree_ok (tree w)) \<and>
      (fq_name (tree w') a = fq_name (tree w) a) \<and>
      (Minimum \<le> cul c' \<and> cul c' \<le> Maximum)"
  using session_invariant_parts [OF assms] by blast

theorem session_invariant_witness:
  "idle 0 (snd (client_tick list_signals False 0 (snd (signal_event 0 sample_client (Some 1) (sample_world (Event None))))))"
proof -
  let ?w = "sample_world (Event None)"
  let ?w1 = "snd (signal_event 0 sample_client (Some 1) ?w)"
  have 1: "session list_signals False 0 (\<lambda>_. True) (sample_client, ?w) (sample_client, ?w1)"
    by (rule session.step_s [OF session.begin_s session_step.signal])
  have "session list_signals False 0 (\<lambda>_. True) (sample_client, ?w) (sample_client, snd (client_tick list_signals False 0 ?w1))"
    by (rule session.step_s [OF 1 session_step.tick])
  then show ?thesis
    by (rule session_invariant [OF _ sample_facts(1), THEN conjunct1]) (simp_all add: sample_client_def new_client_def userlevel_defs)
qed

subsection \<open>Which userlevels a session leads to\<close>

lemma session_step_level:
  assumes "session_step S big d A cw cw'" "idle d (snd cw)"
  shows "cul (fst cw') = cul (fst cw) \<or> A (cul (fst cw'))"
  using assms
proof (induction rule: session_step.induct)
  case (observe cw obj)
  then show ?case
    unfolding observe_def using keeps_cw_idle [OF keeps_cw_observe [where obj = obj and S = S and big = big], of d "snd cw" "fst cw"] by simp
next
  case (unobserve cw obj)
  then show ?case
    unfolding unobserve_def using keeps_cw_idle [OF keeps_cw_unobserve [where obj = obj and S = S], of d "snd cw" "fst cw"] by simp
qed (auto simp: set_userlevel_def)

text \<open>The level at the end is the one at the start, or one that was allowed.\<close>

lemma session_level:
  assumes "session S big d A cw cw'" "idle d (snd cw)"
  shows "(cul (fst cw') = cul (fst cw) \<or> A (cul (fst cw'))) \<and> idle d (snd cw')"
  using assms
proof (induction rule: session.induct)
  case (step_s cw1 cw2)
  then have i: "idle d (snd cw1)" by simp
  with session_step_level [OF step_s(2) i] session_step_shape [OF step_s(2) i] step_s show ?case
    by (auto simp: same_shape_def)
qed simp

lemma session_step_mono: "session_step S big d A cw cw' \<Longrightarrow> (\<And>ul. A ul \<Longrightarrow> B ul) \<Longrightarrow> session_step S big d B cw cw'"
  by (induction rule: session_step.induct) (auto intro: session_step.intros)

lemma session_mono: "session S big d A cw cw' \<Longrightarrow> (\<And>ul. A ul \<Longrightarrow> B ul) \<Longrightarrow> session S big d B cw cw'"
  by (induction rule: session.induct) (auto intro: session.intros session_step_mono)

subsection \<open>Written, then read\<close>

text \<open>Names and links decide what a lookup finds.\<close>

lemma outline_find_child:
  assumes "outline h' = outline h"
  shows "find_child h' p nm = find_child h p nm" "is_node h' p = is_node h p"
proof -
  have c: "children_of h' = children_of h" using outline_fields [OF assms] by blast
  have "find_child_in h' cs nm = find_child_in h cs nm" for cs
  proof (induction cs)
    case (Cons x cs)
    have "map_option oname (h' x) = map_option oname (h x)"
      using fun_cong [OF assms, of x] by (cases "h x"; cases "h' x") (auto simp: outline_def)
    with Cons show ?case by (cases "h x"; cases "h' x") auto
  qed simp
  with c show "find_child h' p nm = find_child h p nm" by (simp add: find_child_def split: option.split)
  show "is_node h' p = is_node h p" using c by (simp add: is_node_def)
qed

lemma outline_find_descendant:
  assumes "outline h' = outline h"
  shows "find_descendant_object h' p uri sep = find_descendant_object h p uri sep"
proof (induction uri arbitrary: p rule: length_induct)
  case (1 uri)
  have "find_descendant_object h' q uri' sep = find_descendant_object h q uri' sep"
    if "dropWhile (\<lambda>c. c \<noteq> sep) uri = x # uri'" for q x uri'
    using 1 length_dropWhile_lt [OF that] by blast
  then show ?case
    unfolding find_descendant_object.simps [of _ _ uri] outline_find_child [OF assms]
    by (auto split: sum.split list.split option.split)
qed

lemma outline_find_object:
  assumes "outline h' = outline h"
  shows "find_object h' d uri sep = find_object h d uri sep"
  using fun_cong [OF assms, of d]
  by (cases "h d"; cases "h' d")
    (auto simp: find_object_def deref_def outline_def outline_find_descendant [OF assms] Let_def split: list.split)

text \<open>The world after a managed parameter has been given the value \<open>v\<close>, published as \<open>g\<close>.\<close>

definition written ::
  "'g signals \<Rightarrow> addr \<Rightarrow> ('e, 'g) leaf \<Rightarrow> cval \<Rightarrow> (cval \<Rightarrow> ('e, unit) handler) option \<Rightarrow> 'e \<Rightarrow> string \<Rightarrow> value_t \<Rightarrow>
   ('e, 'g) world \<Rightarrow> ('e, 'g) world" where
  "written S a l v f s fqn g w = set_leaf a (l\<lparr>kind := Managed_readwrite v f\<rparr>) w
     \<lparr>app := s, deliveries := deliveries w @ notify_slots S l fqn g\<rparr>"

text \<open>Every protocol's write and read of a managed parameter rests on this.\<close>

lemma managed_set_get:
  assumes "may_write d c a w" and "leaf_at w a = Some l" and "kind l = Managed_readwrite old f"
    and "fq_name (tree w) a = Some fqn" and "tree w a = Some ob" and "effective_userlevel c' \<le> oreadlevel ob"
    and "from_generic big (lhint l) (ltype l) g = Inr v" and "to_generic big (lhint l) (ltype l) v = Inr g"
    and "\<not> cpp_eq old v" and "run_verify f v (app w) = (Inr (), s)"
  shows "set_parameter S big d c (Some a) g w = (Inr (), written S a l v f s fqn g w)"
    and "get_parameter big d c' (Some a) (written S a l v f s fqn g w) = (Inr g, written S a l v f s fqn g w)"
    and "outline (tree (written S a l v f s fqn g w)) = outline (tree w)"
    and "idle d (written S a l v f s fqn g w)"
proof -
  let ?l' = "l\<lparr>kind := Managed_readwrite v f\<rparr>"
  let ?w = "written S a l v f s fqn g w"
  show "set_parameter S big d c (Some a) g w = (Inr (), ?w)"
    unfolding written_def by (rule managed_write_at(4) [OF assms(1-4,7,9,10,8)])
  have idle: "idle d w" using assms(1) by (simp add: may_write_def)
  have ne: "a \<noteq> d" by (rule idle_leaf [OF idle assms(2)])
  have "leaf_sig ?l' = leaf_sig l" using assms(3) by (simp add: leaf_sig_def)
  then show "outline (tree ?w) = outline (tree w)"
    using set_leaf_outline [OF assms(2)] by (simp add: written_def)
  show i: "idle d ?w" using idle ne by (simp add: written_def idle_def set_leaf_def)
  have "leaf_at ?w a = Some ?l'" by (simp add: written_def assms(5))
  moreover have "tree ?w a = Some (ob\<lparr>klass := Leaf_k ?l'\<rparr>)" by (simp add: written_def set_leaf_def assms(5))
  ultimately show "get_parameter big d c' (Some a) ?w = (Inr g, ?w)"
    using get_managed [OF i, of a ?l' v f] assms(6,8) by simp
qed

end
