(* ===== verification/Scanner.thy ===== *)
theory Scanner
  imports Cli_Codec
begin

text \<open>
  The lexical scanner of the command line protocols (\<open>src/cli/lex.cpp\<close>, \<open>scannerbase.h\<close>,
  \<open>scanner.h\<close>), generated by flexc++ from \<open>scanner.flexc++\<close>: the automaton's tables, the input with
  its push-back queue and the loop \<open>lex__\<close>. Identifiers lose their trailing underscores.
  The interactive and look-ahead (LOP) members the grammar does not use are left out. \<open>char\<close> is
  signed, as on the platforms the library is built for.
\<close>

subsection \<open>Tables\<close>

definition s_ranges :: "nat list" where
  "s_ranges = [
    0, 0, 0, 0, 0, 0, 0, 0, 0, 1, 2, 3, 3, 3, 3, 3, 3, 3, 3, 3, 3, 3, 3, 3, 3, 3, 3, 3, 3, 3, 3, 3,
    4, 5, 6, 7, 8, 8, 9, 10, 10, 10, 10, 11, 12, 13, 14, 15, 16, 16, 16, 16, 16, 16, 16, 16, 16,
    16, 17, 17, 17, 18, 19, 19, 19, 20, 20, 20, 20, 21, 22, 22, 22, 22, 22, 22, 22, 22, 22, 22, 22,
    22, 22, 22, 22, 22, 22, 22, 22, 22, 22, 23, 24, 25, 25, 25, 25, 26, 26, 26, 26, 27, 28, 29, 29,
    29, 29, 29, 29, 29, 29, 29, 29, 29, 29, 29, 30, 31, 31, 31, 31, 31, 31, 32, 32, 32, 32, 32, 32,
    32, 32, 32, 32, 32, 32, 32, 32, 32, 32, 32, 32, 32, 32, 32, 32, 32, 32, 32, 32, 32, 32, 32, 32,
    32, 32, 32, 32, 32, 32, 32, 32, 32, 32, 32, 32, 32, 32, 32, 32, 32, 32, 32, 32, 32, 32, 32, 32,
    32, 32, 32, 32, 32, 32, 32, 32, 32, 32, 32, 32, 32, 32, 32, 32, 32, 32, 32, 32, 32, 32, 32, 32,
    32, 32, 32, 32, 32, 32, 32, 32, 32, 32, 32, 32, 32, 32, 32, 32, 32, 32, 32, 32, 32, 32, 32, 32,
    32, 32, 32, 32, 32, 32, 32, 32, 32, 32, 32, 32, 32, 32, 32, 32, 32, 32, 32, 32, 32, 32, 32, 32,
    32, 32, 32, 32, 32, 32, 32]"

definition s_dfa :: "int list list" where
  "s_dfa = [
    [-1, 1, -1, 2, 1, 2, 3, 4, 2, 5, 2, 2, 2, 6, 7, 2, 8, 2, 2, 2, 2, 2, 2, 2, 2, 2, 2, 2, 2, 2, 2,
     2, 2, -1, -1, -1],
    [-1, 1, -1, -1, 1, -1, -1, -1, -1, -1, -1, -1, -1, -1, -1, -1, -1, -1, -1, -1, -1, -1, -1, -1,
     -1, -1, -1, -1, -1, -1, -1, -1, -1, -1, 5, -1],
    [-1, -1, -1, -1, -1, -1, -1, -1, -1, -1, -1, -1, -1, -1, -1, -1, -1, -1, -1, -1, -1, -1, -1,
     -1, -1, -1, -1, -1, -1, -1, -1, -1, -1, -1, 6, -1],
    [-1, 9, 9, 9, 9, 9, 10, 9, 9, 9, 9, 9, 9, 9, 9, 9, 9, 9, 9, 9, 9, 9, 9, 9, 11, 9, 9, 9, 9, 9,
     9, 9, 9, -1, 6, -1],
    [-1, -1, -1, -1, -1, -1, -1, -1, -1, -1, -1, -1, -1, -1, -1, -1, -1, -1, -1, -1, -1, -1, -1,
     -1, -1, -1, -1, -1, 12, -1, 12, -1, -1, -1, 6, -1],
    [-1, -1, -1, -1, -1, -1, -1, -1, -1, -1, -1, 5, -1, -1, -1, 5, 5, -1, 5, -1, 5, 5, 5, -1, -1,
     -1, 5, 5, 5, 5, 5, 5, -1, -1, 4, -1],
    [-1, -1, -1, -1, -1, -1, -1, -1, -1, -1, -1, -1, -1, -1, 7, -1, 8, -1, -1, -1, -1, -1, -1, -1,
     -1, -1, -1, -1, -1, -1, -1, -1, -1, -1, 6, -1],
    [-1, -1, -1, -1, -1, -1, -1, -1, -1, -1, -1, -1, -1, -1, -1, -1, 7, -1, -1, -1, -1, 13, -1, -1,
     -1, -1, -1, 13, -1, -1, -1, -1, -1, -1, 2, -1],
    [-1, -1, -1, -1, -1, -1, -1, -1, -1, -1, -1, -1, -1, -1, 7, -1, 8, -1, -1, -1, -1, -1, -1, -1,
     -1, -1, -1, -1, -1, -1, -1, -1, -1, -1, 1, -1],
    [-1, 9, 9, 9, 9, 9, 10, 9, 9, 9, 9, 9, 9, 9, 9, 9, 9, 9, 9, 9, 9, 9, 9, 9, 11, 9, 9, 9, 9, 9,
     9, 9, 9, -1, -1, -1],
    [-1, -1, -1, -1, -1, -1, -1, -1, -1, -1, -1, -1, -1, -1, -1, -1, -1, -1, -1, -1, -1, -1, -1,
     -1, -1, -1, -1, -1, -1, -1, -1, -1, -1, -1, 3, -1],
    [-1, 9, -1, 9, 9, 9, 9, 9, 9, 9, 9, 9, 9, 9, 9, 9, 9, 9, 9, 9, 9, 9, 9, 9, 9, 9, 9, 9, 9, 9, 9,
     9, 9, -1, -1, -1],
    [-1, -1, -1, -1, -1, -1, -1, -1, -1, -1, -1, -1, -1, -1, -1, -1, -1, -1, -1, -1, -1, -1, -1,
     -1, -1, -1, -1, -1, -1, -1, -1, -1, -1, -1, 0, -1],
    [-1, -1, -1, -1, -1, -1, -1, -1, -1, -1, -1, -1, -1, 14, -1, -1, 15, -1, -1, -1, -1, -1, -1,
     -1, -1, -1, -1, -1, -1, -1, -1, -1, -1, -1, -1, -1],
    [-1, -1, -1, -1, -1, -1, -1, -1, -1, -1, -1, -1, -1, -1, -1, -1, 15, -1, -1, -1, -1, -1, -1,
     -1, -1, -1, -1, -1, -1, -1, -1, -1, -1, -1, -1, -1],
    [-1, -1, -1, -1, -1, -1, -1, -1, -1, -1, -1, -1, -1, -1, -1, -1, 15, -1, -1, -1, -1, -1, -1,
     -1, -1, -1, -1, -1, -1, -1, -1, -1, -1, -1, 2, -1]]"

definition s_rangeOfEOF :: nat where "s_rangeOfEOF = 33"
definition s_finIdx :: nat where "s_finIdx = 34"

subsection \<open>Input\<close>

text \<open>
  \<open>d_deque\<close> holds characters given back, \<open>d_in\<close> what is left of the stream (\<open>None\<close>: the null
  pointer); \<open>get\<close> yields \<open>None\<close> for \<open>AT_EOF\<close>.
\<close>

record input =
  d_deque :: string
  d_in :: "string option"
  d_lineNr :: "64 word"

definition new_input :: "string \<Rightarrow> input" where
  "new_input s = \<lparr>d_deque = [], d_in = Some s, d_lineNr = 1\<rparr>"

definition input_next :: "input \<Rightarrow> char option \<times> input" where
  "input_next i =
     (case d_deque i of
        [] \<Rightarrow>
          (case d_in i of
             None \<Rightarrow> (None, i)
           | Some [] \<Rightarrow> (None, i)
           | Some (ch # s) \<Rightarrow> (Some ch, i\<lparr>d_in := Some s\<rparr>))
      | ch # q \<Rightarrow> (Some ch, i\<lparr>d_deque := q\<rparr>))"

definition input_get :: "input \<Rightarrow> char option \<times> input" where
  "input_get i =
     (case input_next i of
        (ch, i') \<Rightarrow> (ch, if ch = Some (CHR 0x0A) then i'\<lparr>d_lineNr := d_lineNr i' + 1\<rparr> else i'))"

definition reRead :: "char \<Rightarrow> input \<Rightarrow> input" where
  "reRead ch i =
     (if ch = CHR 0x0A then i\<lparr>d_deque := ch # d_deque i, d_lineNr := d_lineNr i - 1\<rparr>
      else i\<lparr>d_deque := ch # d_deque i\<rparr>)"

text \<open>
  \<open>reRead(std::string const&, size_t)\<close> goes backwards over the tail; a negative \<open>char\<close> converted
  to \<open>size_t\<close> is not below \<open>0x100\<close>, so bytes above \<open>0x7F\<close> are dropped.
\<close>

definition is_negative :: "char \<Rightarrow> bool" where
  "is_negative c \<longleftrightarrow> 128 \<le> (of_char c :: nat)"

definition reRead_string :: "string \<Rightarrow> nat \<Rightarrow> input \<Rightarrow> input" where
  "reRead_string str fm i = foldr (\<lambda>ch i. if is_negative ch then i else reRead ch i) (drop fm str) i"

definition input_close :: "input \<Rightarrow> input" where
  "input_close i = i\<lparr>d_in := None\<rparr>"

subsection \<open>Scanner\<close>

text \<open>\<open>FinalData\<close>: a rule, \<open>None\<close> for \<open>s_unavailable\<close>, and the length of its match.\<close>

type_synonym final_data = "nat option \<times> nat"

datatype action_type = CONTINUE | ECHO_CH | ECHO_FIRST | MATCH | RETURN

record scanner =
  d_state :: nat
  d_nextState :: int
  d_out :: string
  d_atBOL :: bool
  final_std :: final_data
  final_bol :: final_data
  d_input :: input
  d_streamStack :: "input list"
  d_matched :: string
  d_return :: bool
  d_more :: bool

definition new_scanner :: "string \<Rightarrow> scanner" where
  "new_scanner s =
     \<lparr>d_state = 0, d_nextState = 0, d_out = [], d_atBOL = True, final_std = (None, 0),
      final_bol = (None, 0), d_input = new_input s, d_streamStack = [], d_matched = [],
      d_return = False, d_more = False\<rparr>"

definition matched :: "scanner \<Rightarrow> string" where "matched s = d_matched s"

definition get_ch :: "scanner \<Rightarrow> char option \<times> scanner" where
  "get_ch s = (case input_get (d_input s) of (ch, i) \<Rightarrow> (ch, s\<lparr>d_input := i\<rparr>))"

definition getRange :: "char option \<Rightarrow> nat" where
  "getRange ch = (case ch of None \<Rightarrow> s_rangeOfEOF | Some c \<Rightarrow> s_ranges ! of_char c)"

definition updateFinals :: "scanner \<Rightarrow> scanner" where
  "updateFinals s =
     (let len = length (d_matched s);
          std = s_dfa ! d_state s ! s_finIdx;
          bol = s_dfa ! d_state s ! (s_finIdx + 1);
          s1 = (if std \<noteq> - 1 then s\<lparr>final_std := (Some (nat std), len)\<rparr> else s)
      in if bol \<noteq> - 1 then s1\<lparr>final_bol := (Some (nat bol), len)\<rparr> else s1)"

definition available :: "final_data \<Rightarrow> bool" where
  "available f \<longleftrightarrow> fst f \<noteq> None"

definition knownFinalState :: "scanner \<Rightarrow> bool" where
  "knownFinalState s \<longleftrightarrow> d_atBOL s \<and> available (final_bol s) \<or> available (final_std s)"

definition actionType :: "nat \<Rightarrow> scanner \<Rightarrow> action_type \<times> scanner" where
  "actionType rng s0 =
     (let s = s0\<lparr>d_nextState := s_dfa ! d_state s0 ! rng\<rparr>
      in (if d_nextState s \<noteq> - 1 then CONTINUE
          else if knownFinalState s then MATCH
          else if d_matched s \<noteq> [] then ECHO_FIRST
          else if rng \<noteq> s_rangeOfEOF then ECHO_CH
          else RETURN, s))"

definition reRead_ch :: "char option \<Rightarrow> scanner \<Rightarrow> scanner" where
  "reRead_ch ch s = (case ch of None \<Rightarrow> s | Some c \<Rightarrow> s\<lparr>d_input := reRead c (d_input s)\<rparr>)"

definition setMatchedSize :: "nat \<Rightarrow> scanner \<Rightarrow> scanner" where
  "setMatchedSize len s =
     s\<lparr>d_input := reRead_string (d_matched s) len (d_input s), d_matched := take len (d_matched s)\<rparr>"

definition matched_rule :: "char option \<Rightarrow> scanner \<Rightarrow> nat \<times> scanner" where
  "matched_rule ch s0 =
     (let s = reRead_ch ch s0;
          f = (if \<not> d_atBOL s then final_std s
               else if \<not> available (final_std s) then final_bol s
               else if \<not> available (final_bol s) then final_std s
               else if snd (final_bol s) \<noteq> snd (final_std s)
               then (if snd (final_bol s) > snd (final_std s) then final_bol s else final_std s)
               else if the (fst (final_bol s)) < the (fst (final_std s)) then final_bol s else final_std s);
          s = setMatchedSize (snd f) s
      in (the (fst f), s\<lparr>d_atBOL := last (d_matched s) = CHR 0x0A\<rparr>))"

definition continue :: "char option \<Rightarrow> scanner \<Rightarrow> scanner" where
  "continue ch s =
     (let s = s\<lparr>d_state := nat (d_nextState s)\<rparr>
      in case ch of None \<Rightarrow> s | Some c \<Rightarrow> s\<lparr>d_matched := d_matched s @ [c]\<rparr>)"

definition echoCh :: "char \<Rightarrow> scanner \<Rightarrow> scanner" where
  "echoCh c s = s\<lparr>d_out := d_out s @ [c], d_atBOL := c = CHR 0x0A\<rparr>"

definition echoFirst :: "char option \<Rightarrow> scanner \<Rightarrow> scanner" where
  "echoFirst ch s0 =
     (let s = reRead_ch ch s0
      in echoCh (d_matched s ! 0) (s\<lparr>d_input := reRead_string (d_matched s) 1 (d_input s)\<rparr>))"

definition reset :: "scanner \<Rightarrow> scanner" where
  "reset s =
     s\<lparr>final_std := (None, 0), final_bol := (None, 0), d_state := 0, d_return := True,
       d_matched := (if d_more s then d_matched s else []), d_more := False\<rparr>"

definition popStream :: "scanner \<Rightarrow> bool \<times> scanner" where
  "popStream s =
     (case d_streamStack s of
        [] \<Rightarrow> (False, s\<lparr>d_input := input_close (d_input s)\<rparr>)
      | i # stack \<Rightarrow> (True, s\<lparr>d_input := i, d_streamStack := stack\<rparr>))"

text \<open>The token numbers of \<open>parserBase\<close>; other tokens are the character's value.\<close>

definition BOOLEAN :: int where "BOOLEAN = 257"
definition INTEGER :: int where "INTEGER = 258"
definition REAL :: int where "REAL = 259"
definition STRING :: int where "STRING = 260"
definition BINARY :: int where "BINARY = 261"

definition signed_char :: "char \<Rightarrow> int" where
  "signed_char c = (if is_negative c then of_char c - 256 else of_char c)"

definition executeAction :: "nat \<Rightarrow> scanner \<Rightarrow> int \<times> scanner" where
  "executeAction ruleIdx s =
     (if ruleIdx = 0 then (BOOLEAN, s)
      else if ruleIdx = 1 then (INTEGER, s)
      else if ruleIdx = 2 then (REAL, s)
      else if ruleIdx = 3 then (STRING, s)
      else if ruleIdx = 4 then (BINARY, s)
      else if ruleIdx = 6 then (signed_char (matched s ! 0), s)
      else (0, s\<lparr>d_return := False\<rparr>))"

text \<open>One round of the loop of \<open>lex__\<close>: the token if the function returns.\<close>

definition lex_round :: "scanner \<Rightarrow> int option \<times> scanner" where
  "lex_round s0 =
     (case get_ch s0 of (ch, s1) \<Rightarrow>
      let rng = getRange ch; s2 = updateFinals s1 in
      case actionType rng s2 of (act, s) \<Rightarrow>
      (case act of
         CONTINUE \<Rightarrow> (None, continue ch s)
       | MATCH \<Rightarrow>
           (case matched_rule ch s of (rule, s) \<Rightarrow>
            case executeAction rule s of (token, s) \<Rightarrow>
            if d_return s then (Some token, s) else (None, reset s))
       | ECHO_FIRST \<Rightarrow> (None, reset (echoFirst ch s))
       | ECHO_CH \<Rightarrow> (None, reset (case ch of None \<Rightarrow> s | Some c \<Rightarrow> echoCh c s))
       | RETURN \<Rightarrow>
           (case popStream s of (again, s) \<Rightarrow> if again then (None, s) else (Some 0, s))))"

text \<open>\<open>None\<close>: the loop does not end.\<close>

partial_function (option) lex_loop :: "scanner \<Rightarrow> (int \<times> scanner) option" where
  "lex_loop s =
     (case lex_round s of
        (Some token, s') \<Rightarrow> Some (token, s')
      | (None, s') \<Rightarrow> lex_loop s')"

declare lex_loop.simps [code]

definition lex :: "scanner \<Rightarrow> (int \<times> scanner) option" where
  "lex s = lex_loop (reset s)"

end
