(* ===== verification/Lexical.thy ===== *)
theory Lexical
  imports Scanner
begin

text \<open>
  What the scanner's tables mean: the regular expressions of \<open>src/cli/scanner.flexc++\<close> as
  matching functions, their equivalence with the generated automaton of \<open>src/cli/lex.cpp\<close>, and the
  loop of \<open>lex__\<close> as a maximal munch scanner that always returns.
\<close>

subsection \<open>The tables as functions\<close>

text \<open>The state reached from state \<open>q\<close> by character \<open>c\<close>, and the rule matched in a state.\<close>

definition dfa_step :: "nat \<Rightarrow> char \<Rightarrow> nat option" where
  "dfa_step q c = (let n = s_dfa ! q ! (s_ranges ! of_char c) in if n = - 1 then None else Some (nat n))"

definition dfa_rule :: "nat \<Rightarrow> nat option" where
  "dfa_rule q = (let n = s_dfa ! q ! s_finIdx in if n = - 1 then None else Some (nat n))"

text \<open>The character classes of \<open>scanner.flexc++\<close>.\<close>

definition is_blank :: "char \<Rightarrow> bool" where "is_blank c \<longleftrightarrow> c = CHR 0x20 \<or> c = CHR 0x09"

text \<open>The tables exclude the characters below tab, although \<open>.\<close> stands for all but newline.\<close>

definition is_any :: "char \<Rightarrow> bool" where "is_any c \<longleftrightarrow> 9 \<le> (of_char c :: nat)"
definition is_dot :: "char \<Rightarrow> bool" where "is_dot c \<longleftrightarrow> is_any c \<and> c \<noteq> CHR 0x0A"

definition is_base64 :: "char \<Rightarrow> bool" where
  "is_base64 c \<longleftrightarrow> is_digit c \<or> 65 \<le> (of_char c :: nat) \<and> (of_char c :: nat) \<le> 90 \<or>
     97 \<le> (of_char c :: nat) \<and> (of_char c :: nat) \<le> 122 \<or> c = CHR ''+'' \<or> c = CHR ''/'' \<or> c = CHR ''=''"

definition is_e :: "char \<Rightarrow> bool" where "is_e c \<longleftrightarrow> c = CHR ''e'' \<or> c = CHR ''E''"

lemma char_code: "c = d \<longleftrightarrow> (of_char c :: nat) = of_char d"
  by (metis char_of_char)

lemmas class_defs = is_blank_def is_any_def is_dot_def is_base64_def is_e_def is_digit_def char_code

text \<open>The character ranges of the table.\<close>

definition range_of :: "nat \<Rightarrow> nat" where
  "range_of n =
          (if n \<le> 47 then (if n \<le> 35 then (if n \<le> 31 then (if n \<le> 9 then (if n \<le>
      8 then 0 else 1) else (if n \<le> 10 then 2 else 3)) else (if n \<le> 33 then (if n \<le> 32
      then 4 else 5) else (if n \<le> 34 then 6 else 7))) else (if n \<le> 43 then (if n \<le> 38
      then (if n \<le> 37 then 8 else 9) else (if n \<le> 42 then 10 else 11)) else (if n \<le> 45
      then (if n \<le> 44 then 12 else 13) else (if n \<le> 46 then 14 else 15)))) else (if n \<le>
      91 then (if n \<le> 64 then (if n \<le> 60 then (if n \<le> 57 then 16 else 17) else (if n
      \<le> 61 then 18 else 19)) else (if n \<le> 69 then (if n \<le> 68 then 20 else 21) else (if n
      \<le> 90 then 22 else 23))) else (if n \<le> 101 then (if n \<le> 96 then (if n \<le> 92 then
      24 else 25) else (if n \<le> 100 then 26 else 27)) else (if n \<le> 115 then (if n \<le> 102
      then 28 else 29) else (if n \<le> 116 then 30 else (if n \<le> 122 then 31 else 32))))))"

lemma s_ranges_eq: "s_ranges = map range_of [0..<256]"
  by code_simp

definition in_range :: "nat \<Rightarrow> nat \<Rightarrow> bool" where
  "in_range n r \<longleftrightarrow> n \<le> 8 \<and> r = 0 \<or>
    n = 9 \<and> r = 1 \<or>
    n = 10 \<and> r = 2 \<or>
    11 \<le> n \<and> n \<le> 31 \<and> r = 3 \<or>
    n = 32 \<and> r = 4 \<or>
    n = 33 \<and> r = 5 \<or>
    n = 34 \<and> r = 6 \<or>
    n = 35 \<and> r = 7 \<or>
    36 \<le> n \<and> n \<le> 37 \<and> r = 8 \<or>
    n = 38 \<and> r = 9 \<or>
    39 \<le> n \<and> n \<le> 42 \<and> r = 10 \<or>
    n = 43 \<and> r = 11 \<or>
    n = 44 \<and> r = 12 \<or>
    n = 45 \<and> r = 13 \<or>
    n = 46 \<and> r = 14 \<or>
    n = 47 \<and> r = 15 \<or>
    48 \<le> n \<and> n \<le> 57 \<and> r = 16 \<or>
    58 \<le> n \<and> n \<le> 60 \<and> r = 17 \<or>
    n = 61 \<and> r = 18 \<or>
    62 \<le> n \<and> n \<le> 64 \<and> r = 19 \<or>
    65 \<le> n \<and> n \<le> 68 \<and> r = 20 \<or>
    n = 69 \<and> r = 21 \<or>
    70 \<le> n \<and> n \<le> 90 \<and> r = 22 \<or>
    n = 91 \<and> r = 23 \<or>
    n = 92 \<and> r = 24 \<or>
    93 \<le> n \<and> n \<le> 96 \<and> r = 25 \<or>
    97 \<le> n \<and> n \<le> 100 \<and> r = 26 \<or>
    n = 101 \<and> r = 27 \<or>
    n = 102 \<and> r = 28 \<or>
    103 \<le> n \<and> n \<le> 115 \<and> r = 29 \<or>
    n = 116 \<and> r = 30 \<or>
    117 \<le> n \<and> n \<le> 122 \<and> r = 31 \<or>
    123 \<le> n \<and> n \<le> 255 \<and> r = 32"

lemma in_range_s_ranges: "n < 256 \<Longrightarrow> in_range n (s_ranges ! n)"
  by (simp add: s_ranges_eq range_of_def in_range_def)


lemma s_dfa_rows:
  "s_dfa ! 0 = [-1, 1, -1, 2, 1, 2, 3, 4, 2, 5, 2, 2, 2, 6, 7, 2, 8, 2, 2, 2, 2, 2, 2, 2, 2, 2, 2,
    2, 2, 2, 2, 2, 2, -1, -1, -1]"
  "s_dfa ! (Suc 0) = [-1, 1, -1, -1, 1, -1, -1, -1, -1, -1, -1, -1, -1, -1, -1, -1, -1, -1, -1,
    -1, -1, -1, -1, -1, -1, -1, -1, -1, -1, -1, -1, -1, -1, -1, 5, -1]"
  "s_dfa ! 2 = [-1, -1, -1, -1, -1, -1, -1, -1, -1, -1, -1, -1, -1, -1, -1, -1, -1, -1, -1, -1,
    -1, -1, -1, -1, -1, -1, -1, -1, -1, -1, -1, -1, -1, -1, 6, -1]"
  "s_dfa ! 3 = [-1, 9, 9, 9, 9, 9, 10, 9, 9, 9, 9, 9, 9, 9, 9, 9, 9, 9, 9, 9, 9, 9, 9, 9, 11, 9,
    9, 9, 9, 9, 9, 9, 9, -1, 6, -1]"
  "s_dfa ! 4 = [-1, -1, -1, -1, -1, -1, -1, -1, -1, -1, -1, -1, -1, -1, -1, -1, -1, -1, -1, -1,
    -1, -1, -1, -1, -1, -1, -1, -1, 12, -1, 12, -1, -1, -1, 6, -1]"
  "s_dfa ! 5 = [-1, -1, -1, -1, -1, -1, -1, -1, -1, -1, -1, 5, -1, -1, -1, 5, 5, -1, 5, -1, 5, 5,
    5, -1, -1, -1, 5, 5, 5, 5, 5, 5, -1, -1, 4, -1]"
  "s_dfa ! 6 = [-1, -1, -1, -1, -1, -1, -1, -1, -1, -1, -1, -1, -1, -1, 7, -1, 8, -1, -1, -1, -1,
    -1, -1, -1, -1, -1, -1, -1, -1, -1, -1, -1, -1, -1, 6, -1]"
  "s_dfa ! 7 = [-1, -1, -1, -1, -1, -1, -1, -1, -1, -1, -1, -1, -1, -1, -1, -1, 7, -1, -1, -1, -1,
    13, -1, -1, -1, -1, -1, 13, -1, -1, -1, -1, -1, -1, 2, -1]"
  "s_dfa ! 8 = [-1, -1, -1, -1, -1, -1, -1, -1, -1, -1, -1, -1, -1, -1, 7, -1, 8, -1, -1, -1, -1,
    -1, -1, -1, -1, -1, -1, -1, -1, -1, -1, -1, -1, -1, 1, -1]"
  "s_dfa ! 9 = [-1, 9, 9, 9, 9, 9, 10, 9, 9, 9, 9, 9, 9, 9, 9, 9, 9, 9, 9, 9, 9, 9, 9, 9, 11, 9,
    9, 9, 9, 9, 9, 9, 9, -1, -1, -1]"
  "s_dfa ! 10 = [-1, -1, -1, -1, -1, -1, -1, -1, -1, -1, -1, -1, -1, -1, -1, -1, -1, -1, -1, -1,
    -1, -1, -1, -1, -1, -1, -1, -1, -1, -1, -1, -1, -1, -1, 3, -1]"
  "s_dfa ! 11 = [-1, 9, -1, 9, 9, 9, 9, 9, 9, 9, 9, 9, 9, 9, 9, 9, 9, 9, 9, 9, 9, 9, 9, 9, 9, 9,
    9, 9, 9, 9, 9, 9, 9, -1, -1, -1]"
  "s_dfa ! 12 = [-1, -1, -1, -1, -1, -1, -1, -1, -1, -1, -1, -1, -1, -1, -1, -1, -1, -1, -1, -1,
    -1, -1, -1, -1, -1, -1, -1, -1, -1, -1, -1, -1, -1, -1, 0, -1]"
  "s_dfa ! 13 = [-1, -1, -1, -1, -1, -1, -1, -1, -1, -1, -1, -1, -1, 14, -1, -1, 15, -1, -1, -1,
    -1, -1, -1, -1, -1, -1, -1, -1, -1, -1, -1, -1, -1, -1, -1, -1]"
  "s_dfa ! 14 = [-1, -1, -1, -1, -1, -1, -1, -1, -1, -1, -1, -1, -1, -1, -1, -1, 15, -1, -1, -1,
    -1, -1, -1, -1, -1, -1, -1, -1, -1, -1, -1, -1, -1, -1, -1, -1]"
  "s_dfa ! 15 = [-1, -1, -1, -1, -1, -1, -1, -1, -1, -1, -1, -1, -1, -1, -1, -1, 15, -1, -1, -1,
    -1, -1, -1, -1, -1, -1, -1, -1, -1, -1, -1, -1, -1, -1, 2, -1]"
  by (simp_all add: s_dfa_def)

lemma dfa_rules:
  "dfa_rule 0 = None"
  "dfa_rule (Suc 0) = Some 5"
  "dfa_rule 2 = Some 6"
  "dfa_rule 3 = Some 6"
  "dfa_rule 4 = Some 6"
  "dfa_rule 5 = Some 4"
  "dfa_rule 6 = Some 6"
  "dfa_rule 7 = Some 2"
  "dfa_rule 8 = Some 1"
  "dfa_rule 9 = None"
  "dfa_rule 10 = Some 3"
  "dfa_rule 11 = None"
  "dfa_rule 12 = Some 0"
  "dfa_rule 13 = None"
  "dfa_rule 14 = None"
  "dfa_rule 15 = Some 2"
  by (simp_all add: dfa_rule_def s_finIdx_def s_dfa_rows)

lemma dfa_step_by:
  assumes "\<And>r. in_range (of_char c) r \<Longrightarrow> (let n = s_dfa ! q ! r in if n = - 1 then None else Some (nat n)) = x"
  shows "dfa_step q c = x"
  using assms [OF in_range_s_ranges [OF byte_lt]] by (simp add: dfa_step_def)

lemma dfa_steps:
  "dfa_step 0 c = (if is_blank c then Some 1 else (if c = CHR 0x22 then Some 3 else (if c = CHR
    ''#'' then Some 4 else (if c = CHR ''&'' then Some 5 else (if c = CHR ''-'' then Some 6 else
    (if c = CHR ''.'' then Some 7 else (if is_digit c then Some 8 else (if is_dot c then Some 2
    else None))))))))"
  "dfa_step (Suc 0) c = (if is_blank c then Some 1 else None)"
  "dfa_step 2 c = None"
  "dfa_step 3 c = (if c = CHR 0x22 then Some 10 else (if c = CHR 0x5C then Some 11 else (if is_any
    c then Some 9 else None)))"
  "dfa_step 4 c = (if c = CHR ''t'' \<or> c = CHR ''f'' then Some 12 else None)"
  "dfa_step 5 c = (if is_base64 c then Some 5 else None)"
  "dfa_step 6 c = (if c = CHR ''.'' then Some 7 else (if is_digit c then Some 8 else None))"
  "dfa_step 7 c = (if is_e c then Some 13 else (if is_digit c then Some 7 else None))"
  "dfa_step 8 c = (if c = CHR ''.'' then Some 7 else (if is_digit c then Some 8 else None))"
  "dfa_step 9 c = (if c = CHR 0x22 then Some 10 else (if c = CHR 0x5C then Some 11 else (if is_any
    c then Some 9 else None)))"
  "dfa_step 10 c = None"
  "dfa_step 11 c = (if is_dot c then Some 9 else None)"
  "dfa_step 12 c = None"
  "dfa_step 13 c = (if c = CHR ''-'' then Some 14 else (if is_digit c then Some 15 else None))"
  "dfa_step 14 c = (if is_digit c then Some 15 else None)"
  "dfa_step 15 c = (if is_digit c then Some 15 else None)"
  by (rule dfa_step_by, unfold in_range_def, elim disjE;  simp add: s_dfa_rows class_defs)+


subsection \<open>The rules as regular expressions\<close>

text \<open>
  A regular expression followed by \<open>k\<close> is a function of \<open>k\<close>: one character of a class, an optional
  character, any number of characters of a class.
\<close>

definition one :: "(char \<Rightarrow> bool) \<Rightarrow> (string \<Rightarrow> bool) \<Rightarrow> string \<Rightarrow> bool" where
  "one P k w = (case w of [] \<Rightarrow> False | c # w' \<Rightarrow> P c \<and> k w')"

definition maybe :: "(char \<Rightarrow> bool) \<Rightarrow> (string \<Rightarrow> bool) \<Rightarrow> string \<Rightarrow> bool" where
  "maybe P k w \<longleftrightarrow> k w \<or> one P k w"

fun many :: "(char \<Rightarrow> bool) \<Rightarrow> (string \<Rightarrow> bool) \<Rightarrow> string \<Rightarrow> bool" where
  "many P k [] = k []"
| "many P k (c # w) = (k (c # w) \<or> P c \<and> many P k w)"

definition stop :: "string \<Rightarrow> bool" where "stop w \<longleftrightarrow> w = []"
definition minus :: "char \<Rightarrow> bool" where "minus c \<longleftrightarrow> c = CHR ''-''"
definition quote :: "char \<Rightarrow> bool" where "quote c \<longleftrightarrow> c = CHR 0x22"

definition number :: "(string \<Rightarrow> bool) \<Rightarrow> string \<Rightarrow> bool" where
  "number k = one is_digit (many is_digit k)"

definition exponent :: "string \<Rightarrow> bool" where
  "exponent = one is_e (maybe minus (number stop))"

definition fraction :: "string \<Rightarrow> bool" where
  "fraction = many is_digit (\<lambda>w. stop w \<or> exponent w)"

text \<open>\<open>([^"\\]|(\\.))*\<close> and the closing quote.\<close>

fun string_body :: "string \<Rightarrow> bool" where
  "string_body [] = False"
| "string_body [c] = (c = CHR 0x22)"
| "string_body (c # d # w) =
     (if c = CHR 0x5C then is_dot d \<and> string_body w
      else is_any c \<and> c \<noteq> CHR 0x22 \<and> string_body (d # w))"

definition boolean_rule :: "string \<Rightarrow> bool" where
  "boolean_rule w \<longleftrightarrow> w = ''#t'' \<or> w = ''#f''"

definition integer_rule :: "string \<Rightarrow> bool" where
  "integer_rule = maybe minus (number stop)"

definition real_rule :: "string \<Rightarrow> bool" where
  "real_rule = maybe minus (many is_digit (one (\<lambda>c. c = CHR ''.'') fraction))"

definition string_rule :: "string \<Rightarrow> bool" where
  "string_rule = one quote string_body"

definition binary_rule :: "string \<Rightarrow> bool" where
  "binary_rule = one (\<lambda>c. c = CHR ''&'') (many is_base64 stop)"

definition blank_rule :: "string \<Rightarrow> bool" where
  "blank_rule = one is_blank (many is_blank stop)"

definition other_rule :: "string \<Rightarrow> bool" where
  "other_rule = one is_dot stop"

text \<open>The first rule that matches the whole of \<open>w\<close>.\<close>

definition lexical_rule :: "string \<Rightarrow> nat option" where
  "lexical_rule w =
     (if boolean_rule w then Some 0
      else if integer_rule w then Some 1
      else if real_rule w then Some 2
      else if string_rule w then Some 3
      else if binary_rule w then Some 4
      else if blank_rule w then Some 5
      else if other_rule w then Some 6
      else None)"

fun dfa_run :: "nat \<Rightarrow> string \<Rightarrow> nat option" where
  "dfa_run q [] = Some q"
| "dfa_run q (c # w) = (case dfa_step q c of None \<Rightarrow> None | Some q' \<Rightarrow> dfa_run q' w)"

definition dfa_match :: "nat \<Rightarrow> string \<Rightarrow> nat option" where
  "dfa_match q w = (case dfa_run q w of None \<Rightarrow> None | Some q' \<Rightarrow> dfa_rule q')"

lemma dfa_match_simps [simp]:
  "dfa_match q [] = dfa_rule q"
  "dfa_match q (c # w) = (case dfa_step q c of None \<Rightarrow> None | Some q' \<Rightarrow> dfa_match q' w)"
  by (auto simp: dfa_match_def split: option.split)

named_theorems dfa_matches \<open>what each state of the automaton still accepts\<close>

lemma rx:
  "one P k [] = False" "one P k (c # w) = (P c \<and> k w)"
  "maybe P k [] = k []" "maybe P k (c # w) = (k (c # w) \<or> P c \<and> k w)"
  "stop [] = True" "stop (c # w) = False" "minus c = (c = CHR ''-'')" "quote c = (c = CHR 0x22)"
  "number k [] = False" "number k (c # w) = (is_digit c \<and> many is_digit k w)"
  "exponent [] = False" "exponent (c # w) = (is_e c \<and> maybe minus (number stop) w)"
  "fraction [] = True" "fraction (c # w) = (exponent (c # w) \<or> is_digit c \<and> fraction w)"
  by (simp_all add: one_def maybe_def stop_def minus_def quote_def number_def exponent_def fraction_def)

lemma char_apart:
  "is_digit c \<Longrightarrow> \<not> is_e c" "is_digit c \<Longrightarrow> \<not> is_blank c" "is_digit c \<Longrightarrow> is_dot c"
  "\<not> is_digit (CHR ''-'')" "\<not> is_digit (CHR ''.'')" "\<not> is_e (CHR ''.'')" "\<not> is_e (CHR ''-'')"
  "\<not> is_digit (CHR 0x22)" "\<not> is_digit (CHR ''#'')" "\<not> is_digit (CHR ''&'')"
  "\<not> is_blank (CHR 0x22)" "\<not> is_blank (CHR ''#'')" "\<not> is_blank (CHR ''&'')" "\<not> is_blank (CHR ''-'')" "\<not> is_blank (CHR ''.'')"
  "is_dot (CHR 0x22)" "is_dot (CHR ''#'')" "is_dot (CHR ''&'')" "is_dot (CHR ''-'')" "is_dot (CHR ''.'')"
  "is_blank c \<Longrightarrow> is_dot c" "is_any (CHR 0x22)" "is_any (CHR 0x5C)"
  by (auto simp: class_defs)

lemma final_states [dfa_matches]:
  "dfa_match 2 w = (if w = [] then Some 6 else None)"
  "dfa_match 10 w = (if w = [] then Some 3 else None)"
  "dfa_match 12 w = (if w = [] then Some 0 else None)"
  by (cases w; simp add: dfa_rules dfa_steps)+

lemma match_blank [dfa_matches]: "dfa_match (Suc 0) w = (if many is_blank stop w then Some 5 else None)"
  by (induction w) (auto simp: dfa_rules dfa_steps rx)

lemma match_base64 [dfa_matches]: "dfa_match 5 w = (if many is_base64 stop w then Some 4 else None)"
  by (induction w) (auto simp: dfa_rules dfa_steps rx)

lemma match_digits [dfa_matches]: "dfa_match 15 w = (if many is_digit stop w then Some 2 else None)"
  by (induction w) (auto simp: dfa_rules dfa_steps rx)

lemma match_exponent [dfa_matches]:
  "dfa_match 14 w = (if number stop w then Some 2 else None)"
  "dfa_match 13 w = (if maybe minus (number stop) w then Some 2 else None)"
proof -
  show 14: "dfa_match 14 v = (if number stop v then Some 2 else None)" for v
    by (cases v) (auto simp: dfa_rules dfa_steps dfa_matches rx)
  show "dfa_match 13 w = (if maybe minus (number stop) w then Some 2 else None)"
    by (cases w) (auto simp: dfa_rules dfa_steps dfa_matches rx 14 char_apart)
qed

lemma match_fraction [dfa_matches]: "dfa_match 7 w = (if fraction w then Some 2 else None)"
  by (induction w) (auto simp: dfa_rules dfa_steps dfa_matches rx char_apart)

lemma match_number [dfa_matches]:
  "dfa_match 8 w = (if many is_digit stop w then Some 1
     else if many is_digit (one (\<lambda>c. c = CHR ''.'') fraction) w then Some 2 else None)"
  by (induction w) (auto simp: dfa_rules dfa_steps dfa_matches rx char_apart)

lemma match_minus [dfa_matches]:
  "dfa_match 6 w = (if w = [] then Some 6 else if number stop w then Some 1
     else if many is_digit (one (\<lambda>c. c = CHR ''.'') fraction) w then Some 2 else None)"
  by (cases w) (auto simp: dfa_rules dfa_steps dfa_matches rx char_apart)

lemma match_string [dfa_matches]:
  "dfa_match 9 w = (if string_body w then Some 3 else None)"
  by (induction w rule: string_body.induct) (auto simp: dfa_rules dfa_steps dfa_matches char_apart)

lemma match_string_start [dfa_matches]:
  "dfa_match 3 w = (if w = [] then Some 6 else if string_body w then Some 3 else None)"
proof -
  have "w \<noteq> [] \<Longrightarrow> dfa_match 3 w = dfa_match 9 w" by (cases w) (auto simp: dfa_steps)
  then show ?thesis by (auto simp: dfa_matches dfa_rules)
qed

lemma match_hash [dfa_matches]:
  "dfa_match 4 w = (if w = [] then Some 6 else if w = ''t'' \<or> w = ''f'' then Some 0 else None)"
  by (cases w) (auto simp: dfa_rules dfa_steps dfa_matches)


lemma dfa_is_lexical_rule: "dfa_match 0 w = lexical_rule w"
proof (cases w)
  case Nil
  then show ?thesis
    by (simp add: dfa_rules lexical_rule_def boolean_rule_def integer_rule_def real_rule_def string_rule_def
        binary_rule_def blank_rule_def other_rule_def rx)
next
  case (Cons c v)
  have r: "boolean_rule (c # v) = (c = CHR ''#'' \<and> (v = ''t'' \<or> v = ''f''))"
    "integer_rule (c # v) = (is_digit c \<and> many is_digit stop v \<or> c = CHR ''-'' \<and> number stop v)"
    "real_rule (c # v) = (c = CHR ''.'' \<and> fraction v \<or>
       is_digit c \<and> many is_digit (one (\<lambda>c. c = CHR ''.'') fraction) v \<or>
       c = CHR ''-'' \<and> many is_digit (one (\<lambda>c. c = CHR ''.'') fraction) v)"
    "string_rule (c # v) = (c = CHR 0x22 \<and> string_body v)"
    "binary_rule (c # v) = (c = CHR ''&'' \<and> many is_base64 stop v)"
    "blank_rule (c # v) = (is_blank c \<and> many is_blank stop v)"
    "other_rule (c # v) = (is_dot c \<and> v = [])" for c v
    by (auto simp: boolean_rule_def integer_rule_def real_rule_def string_rule_def binary_rule_def
        blank_rule_def other_rule_def rx) (simp_all add: stop_def)
  have e: "many P stop []" for P by (simp add: rx)
  consider "is_blank c" | "c = CHR 0x22" | "c = CHR ''#''" | "c = CHR ''&''" | "c = CHR ''-''" | "c = CHR ''.''"
    | "is_digit c" | "\<not> is_blank c \<and> c \<noteq> CHR 0x22 \<and> c \<noteq> CHR ''#'' \<and> c \<noteq> CHR ''&'' \<and> c \<noteq> CHR ''-'' \<and> c \<noteq> CHR ''.'' \<and> \<not> is_digit c"
    by blast
  then show ?thesis
  proof cases
    case 1
    then have "\<not> is_digit c" "is_dot c" "c \<noteq> CHR 0x22" "c \<noteq> CHR ''#''" "c \<noteq> CHR ''&''" "c \<noteq> CHR ''-''" "c \<noteq> CHR ''.''"
      by (auto simp: class_defs)
    with 1 show ?thesis unfolding Cons by (auto simp: dfa_steps dfa_matches lexical_rule_def r e rx)
  next
    case 7
    then have "\<not> is_blank c" "is_dot c" "c \<noteq> CHR 0x22" "c \<noteq> CHR ''#''" "c \<noteq> CHR ''&''" "c \<noteq> CHR ''-''" "c \<noteq> CHR ''.''"
      by (auto simp: class_defs)
    with 7 show ?thesis unfolding Cons by (auto simp: dfa_steps dfa_matches lexical_rule_def r e rx)
  qed (auto simp: Cons dfa_steps dfa_matches dfa_rules lexical_rule_def r e char_apart rx)
qed


subsection \<open>The loop\<close>

lemma states: "q < 16 \<Longrightarrow> q \<in> {0, Suc 0, 2, 3, 4, 5, 6, 7, 8, 9, 10, 11, 12, 13, 14, 15}"
  by (auto simp: eval_nat_numeral less_Suc_eq)

lemma dfa_step_bound:
  assumes "q < 16" "dfa_step q c = Some q'"
  shows "q' < 16"
  using states [OF assms(1)] assms(2) by (auto simp: dfa_steps split: if_splits)

lemma dfa_columns:
  assumes "q < 16"
  shows "s_dfa ! q ! 35 = - 1" "s_dfa ! q ! 33 = - 1"
  using states [OF assms] by (auto simp: s_dfa_rows)

lemma dfa_entries:
  assumes "q < 16" "n < 256"
  shows "- 1 \<le> s_dfa ! q ! (s_ranges ! n)" "s_ranges ! n < 33"
proof -
  have "in_range n (s_ranges ! n)" by (rule in_range_s_ranges [OF assms(2)])
  then show r: "s_ranges ! n < 33" by (auto simp: in_range_def)
  have "\<forall>x \<in> set (s_dfa ! q). - 1 \<le> x" "length (s_dfa ! q) = 36"
    using states [OF assms(1)] by (auto simp: s_dfa_rows)
  then show "- 1 \<le> s_dfa ! q ! (s_ranges ! n)" using r by simp
qed

text \<open>What is left to read.\<close>

definition rest :: "input \<Rightarrow> string" where
  "rest i = d_deque i @ (case d_in i of None \<Rightarrow> [] | Some s \<Rightarrow> s)"

definition kept :: "string \<Rightarrow> string" where
  "kept s = filter (\<lambda>c. \<not> is_negative c) s"

lemma input_get_rest:
  "rest i = [] \<Longrightarrow> \<exists>i'. input_get i = (None, i') \<and> rest i' = []"
  "rest i = c # r \<Longrightarrow> \<exists>i'. input_get i = (Some c, i') \<and> rest i' = r"
  by (auto simp: input_get_def input_next_def rest_def split: list.splits option.splits)

lemma rest_reRead [simp]: "rest (reRead c i) = c # rest i"
  by (simp add: reRead_def rest_def)

lemma rest_reRead_string [simp]: "rest (reRead_string str n i) = kept (drop n str) @ rest i"
proof -
  have "rest (foldr (\<lambda>ch i. if is_negative ch then i else reRead ch i) s i) = kept s @ rest i" for s
    by (induction s) (auto simp: kept_def)
  then show ?thesis by (simp add: reRead_string_def)
qed

text \<open>How far the automaton runs, and the last match on the way: the rule and its length.\<close>

fun reach :: "nat \<Rightarrow> string \<Rightarrow> nat" where
  "reach q [] = 0"
| "reach q (c # w) = (case dfa_step q c of None \<Rightarrow> 0 | Some q' \<Rightarrow> Suc (reach q' w))"

fun best :: "nat \<Rightarrow> string \<Rightarrow> (nat \<times> nat) option" where
  "best q [] = map_option (\<lambda>r. (r, 0)) (dfa_rule q)"
| "best q (c # w) =
     (case (case dfa_step q c of None \<Rightarrow> None | Some q' \<Rightarrow> best q' w) of
        Some (r, n) \<Rightarrow> Some (r, Suc n)
      | None \<Rightarrow> map_option (\<lambda>r. (r, 0)) (dfa_rule q))"

lemma reach_le: "reach q w \<le> length w"
  by (induction q w rule: reach.induct) (auto split: option.split)

lemma best_reach: "best q w = Some (r, n) \<Longrightarrow> n \<le> reach q w"
  by (induction q w arbitrary: r n rule: best.induct) (auto split: option.splits)


text \<open>The scanner before a call, and in the middle of one.\<close>

definition fresh :: "scanner \<Rightarrow> bool" where
  "fresh s \<longleftrightarrow> d_streamStack s = [] \<and> \<not> d_more s"

definition final_now :: "scanner \<Rightarrow> final_data" where
  "final_now s = (case dfa_rule (d_state s) of None \<Rightarrow> final_std s | Some r \<Rightarrow> (Some r, length (d_matched s)))"

definition scanning :: "scanner \<Rightarrow> bool" where
  "scanning s \<longleftrightarrow> fresh s \<and> d_return s \<and> d_state s < 16 \<and> fst (final_bol s) = None \<and>
     (d_matched s = [] \<longrightarrow> d_state s = 0) \<and>
     (\<forall>r n. final_std s = (Some r, n) \<longrightarrow> r \<le> 6 \<and> 0 < n \<and> n \<le> length (d_matched s))"

definition token_of :: "nat \<Rightarrow> string \<Rightarrow> int" where
  "token_of r text =
     (if r = 0 then BOOLEAN else if r = 1 then INTEGER else if r = 2 then REAL else if r = 3 then STRING
      else if r = 4 then BINARY else signed_char (text ! 0))"

lemma dfa_rule_le: "q < 16 \<Longrightarrow> dfa_rule q = Some r \<Longrightarrow> r \<le> 6 \<and> q \<noteq> 0"
  using states [of q] by (auto simp: dfa_rules)

lemma updateFinals_scanning:
  assumes "scanning s"
  shows "updateFinals s = s\<lparr>final_std := final_now s\<rparr>"
proof -
  have "s_dfa ! d_state s ! (s_finIdx + 1) = - 1"
    using assms dfa_columns by (simp add: scanning_def s_finIdx_def)
  then show ?thesis
    by (auto simp: updateFinals_def final_now_def dfa_rule_def Let_def split: option.split)
qed

lemma final_now_ok:
  assumes "scanning s" "final_now s = (Some r, n)"
  shows "r \<le> 6" "0 < n" "n \<le> length (d_matched s)"
  using assms dfa_rule_le [of "d_state s"] by (auto simp: final_now_def scanning_def split: option.splits)

lemma get_ch_rest:
  "rest (d_input s) = [] \<Longrightarrow> \<exists>i. get_ch s = (None, s\<lparr>d_input := i\<rparr>) \<and> rest i = []"
  "rest (d_input s) = c # r \<Longrightarrow> \<exists>i. get_ch s = (Some c, s\<lparr>d_input := i\<rparr>) \<and> rest i = r"
  using input_get_rest [of "d_input s"] by (fastforce simp: get_ch_def)+

lemma scanning_input [simp]: "scanning (s\<lparr>d_input := i\<rparr>) = scanning s"
  by (simp add: scanning_def fresh_def)

lemma final_now_input [simp]: "final_now (s\<lparr>d_input := i\<rparr>) = final_now s"
  by (simp add: final_now_def split: option.split)

lemma getRange_Some: "s_dfa ! q ! getRange (Some c) = (case dfa_step q c of None \<Rightarrow> - 1 | Some q' \<Rightarrow> int q')"
  if "q < 16"
  using dfa_entries [OF that, of "of_char c"] by (auto simp: getRange_def dfa_step_def Let_def)

lemma round_continue:
  assumes "scanning s" "rest (d_input s) = c # r" "dfa_step (d_state s) c = Some q"
  shows "\<exists>s'. lex_round s = (None, s') \<and> scanning s' \<and> d_state s' = q \<and> d_matched s' = d_matched s @ [c] \<and>
    rest (d_input s') = r \<and> final_std s' = final_now s"
proof -
  obtain i where i: "get_ch s = (Some c, s\<lparr>d_input := i\<rparr>)" "rest i = r" using get_ch_rest(2) [OF assms(2)] by blast
  let ?s1 = "s\<lparr>d_input := i, final_std := final_now s\<rparr>"
  have q: "d_state s < 16" using assms(1) by (simp add: scanning_def)
  have u: "updateFinals (s\<lparr>d_input := i\<rparr>) = ?s1"
    using updateFinals_scanning [of "s\<lparr>d_input := i\<rparr>"] assms(1) by simp
  have "actionType (getRange (Some c)) ?s1 = (CONTINUE, ?s1\<lparr>d_nextState := int q\<rparr>)"
    using getRange_Some [OF q, of c] assms(3) by (simp add: actionType_def)
  then have l: "lex_round s = (None, ?s1\<lparr>d_nextState := int q, d_state := q, d_matched := d_matched s @ [c]\<rparr>)"
    by (simp add: lex_round_def i(1) u continue_def Let_def)
  have "q < 16" by (rule dfa_step_bound [OF q assms(3)])
  moreover have "\<forall>r n. final_now s = (Some r, n) \<longrightarrow> r \<le> 6 \<and> 0 < n \<and> n \<le> length (d_matched s)"
    using final_now_ok [OF assms(1)] by blast
  ultimately have "scanning (?s1\<lparr>d_nextState := int q, d_state := q, d_matched := d_matched s @ [c]\<rparr>)"
    using assms(1) by (fastforce simp: scanning_def fresh_def)
  with l i(2) show ?thesis by simp
qed

definition stuck :: "scanner \<Rightarrow> bool" where
  "stuck s \<longleftrightarrow> (case rest (d_input s) of [] \<Rightarrow> True | c # r \<Rightarrow> dfa_step (d_state s) c = None)"

lemma stuck_action:
  assumes "scanning s" "stuck s"
  obtains ch s2 where
    "rest (d_input s) = (case ch of None \<Rightarrow> [] | Some c \<Rightarrow> c # rest (d_input s2))"
    "ch = None \<Longrightarrow> rest (d_input s2) = []"
    "fresh s2" "d_return s2" "fst (final_bol s2) = None" "final_std s2 = final_now s" "d_matched s2 = d_matched s"
    "fst (final_now s) \<noteq> None \<Longrightarrow> lex_round s =
       (case matched_rule ch s2 of (rule, s) \<Rightarrow>
        case executeAction rule s of (token, s) \<Rightarrow> if d_return s then (Some token, s) else (None, reset s))"
    "fst (final_now s) = None \<Longrightarrow> d_matched s \<noteq> [] \<Longrightarrow> lex_round s = (None, reset (echoFirst ch s2))"
    "fst (final_now s) = None \<Longrightarrow> d_matched s = [] \<Longrightarrow> lex_round s =
       (case ch of None \<Rightarrow> (case popStream s2 of (again, s) \<Rightarrow> if again then (None, s) else (Some 0, s))
        | Some c \<Rightarrow> (None, reset (echoCh c s2)))"
proof -
  have q: "d_state s < 16" using assms(1) by (simp add: scanning_def)
  obtain ch i where g: "get_ch s = (ch, s\<lparr>d_input := i\<rparr>)" "ch = None \<Longrightarrow> rest i = []"
    "rest (d_input s) = (case ch of None \<Rightarrow> [] | Some c \<Rightarrow> c # rest i)"
  proof (cases "rest (d_input s)")
    case Nil
    from get_ch_rest(1) [OF Nil] obtain i where "get_ch s = (None, s\<lparr>d_input := i\<rparr>)" "rest i = []" by blast
    with that [of None i] Nil show ?thesis by simp
  next
    case (Cons c r)
    from get_ch_rest(2) [OF Cons] obtain i where "get_ch s = (Some c, s\<lparr>d_input := i\<rparr>)" "rest i = r" by blast
    with that [of "Some c" i] Cons show ?thesis by simp
  qed
  let ?s1 = "s\<lparr>d_input := i, final_std := final_now s\<rparr>"
  have u: "updateFinals (s\<lparr>d_input := i\<rparr>) = ?s1"
    using updateFinals_scanning [of "s\<lparr>d_input := i\<rparr>"] assms(1) by simp
  have n: "s_dfa ! d_state s ! getRange ch = - 1"
    using g(3) assms(2) getRange_Some [OF q] dfa_columns(2) [OF q]
    by (cases ch) (auto simp: stuck_def getRange_def s_rangeOfEOF_def split: list.splits)
  have e: "(getRange ch = s_rangeOfEOF) = (ch = None)"
    using dfa_entries(2) [OF q byte_lt] by (cases ch) (auto simp: getRange_def s_rangeOfEOF_def nat_neq_iff)
  have b: "\<not> available (final_bol s)" using assms(1) by (simp add: available_def scanning_def)
  have a: "actionType (getRange ch) ?s1 =
     (if fst (final_now s) \<noteq> None then MATCH else if d_matched s \<noteq> [] then ECHO_FIRST
      else if ch \<noteq> None then ECHO_CH else RETURN, ?s1\<lparr>d_nextState := - 1\<rparr>)"
    using n e b by (auto simp: actionType_def Let_def knownFinalState_def available_def)
  show ?thesis
    by (rule that [where ch = ch and ?s2.0 = "?s1\<lparr>d_nextState := - 1\<rparr>"])
      (use g assms(1) in \<open>auto simp: lex_round_def u a scanning_def fresh_def split: option.split\<close>)
qed

lemma reset_simps [simp]:
  "d_input (reset s) = d_input s" "d_out (reset s) = d_out s"
  by (simp_all add: reset_def)

lemma fresh_reset [simp]: "fresh s \<Longrightarrow> fresh (reset s)"
  by (simp add: fresh_def reset_def)

lemma scanning_reset: "fresh s \<Longrightarrow> scanning (reset s)"
  by (simp add: scanning_def fresh_def reset_def)

lemma matched_rule_at:
  assumes "fst (final_bol s) = None" "final_std s = (Some r, n)"
  shows "\<exists>b. matched_rule ch s =
    (r, (setMatchedSize n (reRead_ch ch s))\<lparr>d_atBOL := b\<rparr>)"
proof -
  have f: "final_bol (reRead_ch ch s) = final_bol s" "final_std (reRead_ch ch s) = final_std s"
    by (auto simp: reRead_ch_def split: option.split)
  show ?thesis using assms f by (auto simp: matched_rule_def Let_def available_def)
qed

lemma round_stuck:
  assumes "scanning s" "stuck s"
  shows "final_now s = (Some r, n) \<Longrightarrow> \<exists>s'. fresh s' \<and> d_matched s' = take n (d_matched s) \<and>
      rest (d_input s') = kept (drop n (d_matched s)) @ rest (d_input s) \<and>
      lex_round s = (if r = 5 then (None, reset s') else (Some (token_of r (d_matched s')), s'))"
    and "fst (final_now s) = None \<Longrightarrow> d_matched s \<noteq> [] \<Longrightarrow> \<exists>s'. fresh s' \<and>
      rest (d_input s') = kept (drop 1 (d_matched s)) @ rest (d_input s) \<and> lex_round s = (None, reset s')"
    and "fst (final_now s) = None \<Longrightarrow> d_matched s = [] \<Longrightarrow> rest (d_input s) = c # w \<Longrightarrow> \<exists>s'. fresh s' \<and>
      rest (d_input s') = w \<and> lex_round s = (None, reset s')"
    and "fst (final_now s) = None \<Longrightarrow> d_matched s = [] \<Longrightarrow> rest (d_input s) = [] \<Longrightarrow> \<exists>s'. fresh s' \<and>
      rest (d_input s') = [] \<and> d_matched s' = [] \<and> lex_round s = (Some 0, s')"
proof -
  obtain ch s2 where
    r: "rest (d_input s) = (case ch of None \<Rightarrow> [] | Some c \<Rightarrow> c # rest (d_input s2))" "ch = None \<Longrightarrow> rest (d_input s2) = []"
    and f: "fresh s2" "d_return s2" "fst (final_bol s2) = None" "final_std s2 = final_now s" "d_matched s2 = d_matched s"
    and m: "fst (final_now s) \<noteq> None \<Longrightarrow> lex_round s =
       (case matched_rule ch s2 of (rule, s) \<Rightarrow>
        case executeAction rule s of (token, s) \<Rightarrow> if d_return s then (Some token, s) else (None, reset s))"
    and ef: "fst (final_now s) = None \<Longrightarrow> d_matched s \<noteq> [] \<Longrightarrow> lex_round s = (None, reset (echoFirst ch s2))"
    and ec: "fst (final_now s) = None \<Longrightarrow> d_matched s = [] \<Longrightarrow> lex_round s =
       (case ch of None \<Rightarrow> (case popStream s2 of (again, s) \<Rightarrow> if again then (None, s) else (Some 0, s))
        | Some c \<Rightarrow> (None, reset (echoCh c s2)))"
    by (rule stuck_action [OF assms]) (rule that; simp)
  have again: "rest (d_input (reRead_ch ch s2)) = rest (d_input s)"
    using r by (cases ch) (auto simp: reRead_ch_def)
  have same: "fresh (reRead_ch ch s2)" "d_return (reRead_ch ch s2)" "d_matched (reRead_ch ch s2) = d_matched s"
    using f by (auto simp: reRead_ch_def fresh_def split: option.split)
  show "\<exists>s'. fresh s' \<and> d_matched s' = take n (d_matched s) \<and>
      rest (d_input s') = kept (drop n (d_matched s)) @ rest (d_input s) \<and>
      lex_round s = (if r = 5 then (None, reset s') else (Some (token_of r (d_matched s')), s'))"
    if fin: "final_now s = (Some r, n)"
  proof -
    have "r \<le> 6" using final_now_ok(1) [OF assms(1) fin] .
    obtain b where b: "matched_rule ch s2 = (r, (setMatchedSize n (reRead_ch ch s2))\<lparr>d_atBOL := b\<rparr>)"
      using matched_rule_at [of s2 r n ch] f(3,4) fin by auto
    let ?s3 = "(setMatchedSize n (reRead_ch ch s2))\<lparr>d_atBOL := b\<rparr>"
    have s3: "fresh ?s3" "d_return ?s3" "d_matched ?s3 = take n (d_matched s)"
      "rest (d_input ?s3) = kept (drop n (d_matched s)) @ rest (d_input s)"
      using same again by (simp_all add: setMatchedSize_def fresh_def)
    have "executeAction r ?s3 = (if r = 5 then (0, ?s3\<lparr>d_return := False\<rparr>) else (token_of r (d_matched ?s3), ?s3))"
      using \<open>r \<le> 6\<close> by (auto simp: executeAction_def token_of_def matched_def)
    moreover have "reset (?s3\<lparr>d_return := False\<rparr>) = reset ?s3" by (simp add: reset_def)
    ultimately have "lex_round s = (if r = 5 then (None, reset ?s3) else (Some (token_of r (d_matched ?s3)), ?s3))"
      using m fin b s3(2) by auto
    with s3 show ?thesis by blast
  qed
  show "\<exists>s'. fresh s' \<and> rest (d_input s') = kept (drop 1 (d_matched s)) @ rest (d_input s) \<and> lex_round s = (None, reset s')"
    if "fst (final_now s) = None" "d_matched s \<noteq> []"
    using ef that same again
    by (intro exI [of _ "echoFirst ch s2"]) (simp add: echoFirst_def echoCh_def fresh_def Let_def)
  show "\<exists>s'. fresh s' \<and> rest (d_input s') = w \<and> lex_round s = (None, reset s')"
    if "fst (final_now s) = None" "d_matched s = []" "rest (d_input s) = c # w"
    using ec that r f by (cases ch) (auto intro!: exI [of _ "echoCh c s2"] simp: echoCh_def fresh_def)
  show "\<exists>s'. fresh s' \<and> rest (d_input s') = [] \<and> d_matched s' = [] \<and> lex_round s = (Some 0, s')"
    if "fst (final_now s) = None" "d_matched s = []" "rest (d_input s) = []"
    using ec that r f
    by (cases ch) (auto intro!: exI [of _ "s2\<lparr>d_input := input_close (d_input s2)\<rparr>"] simp: popStream_def fresh_def input_close_def rest_def)
qed


text \<open>What one cycle, from a reset to the next match or echo, comes to.\<close>

definition outcome :: "scanner \<Rightarrow> (nat \<times> nat) option" where
  "outcome s =
     (case best (d_state s) (rest (d_input s)) of
        Some (r, n) \<Rightarrow> Some (r, length (d_matched s) + n)
      | None \<Rightarrow> map_option (\<lambda>r. (r, snd (final_std s))) (fst (final_std s)))"

definition seen :: "scanner \<Rightarrow> string" where
  "seen s = d_matched s @ take (reach (d_state s) (rest (d_input s))) (rest (d_input s))"

definition unseen :: "scanner \<Rightarrow> string" where
  "unseen s = drop (reach (d_state s) (rest (d_input s))) (rest (d_input s))"

definition cycle_ok :: "scanner \<Rightarrow> bool" where
  "cycle_ok s \<longleftrightarrow>
     (case outcome s of
        Some (r, n) \<Rightarrow> \<exists>s'. fresh s' \<and> d_matched s' = take n (seen s) \<and>
          rest (d_input s') = kept (drop n (seen s)) @ unseen s \<and>
          lex_loop s = (if r = 5 then lex_loop (reset s') else Some (token_of r (d_matched s'), s'))
      | None \<Rightarrow>
          if seen s \<noteq> [] then \<exists>s'. fresh s' \<and> rest (d_input s') = kept (drop 1 (seen s)) @ unseen s \<and>
            lex_loop s = lex_loop (reset s')
          else if unseen s \<noteq> [] then \<exists>s'. fresh s' \<and> rest (d_input s') = tl (unseen s) \<and>
            lex_loop s = lex_loop (reset s')
          else \<exists>s'. fresh s' \<and> rest (d_input s') = [] \<and> d_matched s' = [] \<and> lex_loop s = Some (0, s'))"

lemma cycle_stuck:
  assumes "scanning s" "stuck s"
  shows "cycle_ok s"
proof -
  have k: "reach (d_state s) (rest (d_input s)) = 0" "best (d_state s) (rest (d_input s)) = map_option (\<lambda>r. (r, 0)) (dfa_rule (d_state s))"
    using assms(2) by (auto simp: stuck_def split: list.splits)
  have o: "outcome s = map_option (\<lambda>r. (r, snd (final_now s))) (fst (final_now s))"
    by (simp add: outcome_def k(2) final_now_def split: option.split)
  have se: "seen s = d_matched s" "unseen s = rest (d_input s)" by (simp_all add: seen_def unseen_def k(1))
  note rs = round_stuck [OF assms]
  show ?thesis
  proof (cases "final_now s")
    case (Pair ro n)
    show ?thesis
    proof (cases ro)
      case (Some r)
      from rs(1) [of r n] Pair Some obtain s' where "fresh s'" "d_matched s' = take n (d_matched s)"
        "rest (d_input s') = kept (drop n (d_matched s)) @ rest (d_input s)"
        "lex_round s = (if r = 5 then (None, reset s') else (Some (token_of r (d_matched s')), s'))" by blast
      then show ?thesis
        using Pair Some by (auto simp: cycle_ok_def o se lex_loop.simps [of s] intro!: exI [of _ s'])
    next
      case None
      then have f: "fst (final_now s) = None" by (simp add: Pair)
      have l: "lex_loop s = lex_loop s'" if "lex_round s = (None, s')" for s' using that by (simp add: lex_loop.simps [of s])
      show ?thesis
        using rs(2) [OF f] rs(3) [OF f] rs(4) [OF f] f
        by (cases "rest (d_input s)"; auto simp: cycle_ok_def o se l lex_loop.simps [of s]; blast)
    qed
  qed
qed

lemma cycle: "scanning s \<Longrightarrow> cycle_ok s"
proof (induction "rest (d_input s)" arbitrary: s)
  case Nil
  then show ?case by (intro cycle_stuck) (simp_all add: stuck_def)
next
  case (Cons c w)
  show ?case
  proof (cases "dfa_step (d_state s) c")
    case None
    with Cons.hyps(2) [symmetric] Cons.prems show ?thesis by (intro cycle_stuck) (simp_all add: stuck_def)
  next
    case (Some q)
    from round_continue [OF Cons.prems Cons.hyps(2) [symmetric] Some] obtain s1 where s1:
      "lex_round s = (None, s1)" "scanning s1" "d_state s1 = q" "d_matched s1 = d_matched s @ [c]"
      "rest (d_input s1) = w" "final_std s1 = final_now s" by blast
    have "cycle_ok s1" by (rule Cons.hyps(1)) (simp_all add: s1)
    moreover have "seen s1 = seen s" "unseen s1 = unseen s"
      using s1 Some by (simp_all add: seen_def unseen_def Cons.hyps(2) [symmetric])
    moreover have "outcome s1 = outcome s"
      using s1 Some by (auto simp: outcome_def final_now_def Cons.hyps(2) [symmetric] split: option.split)
    moreover have "lex_loop s = lex_loop s1" by (simp add: lex_loop.simps [of s] s1(1))
    ultimately show ?thesis unfolding cycle_ok_def by (simp only:)
  qed
qed

text \<open>The longest prefix a rule matches.\<close>

lemma best_None: "best q w = None \<Longrightarrow> m \<le> length w \<Longrightarrow> dfa_match q (take m w) = None"
proof (induction q w arbitrary: m rule: best.induct)
  case (2 q c w)
  then show ?case by (cases m) (auto split: option.splits)
qed simp

lemma best_Some: "best q w = Some (r, n) \<Longrightarrow>
  n \<le> length w \<and> dfa_match q (take n w) = Some r \<and> (\<forall>m. n < m \<and> m \<le> length w \<longrightarrow> dfa_match q (take m w) = None)"
proof (induction q w arbitrary: r n rule: best.induct)
  case (2 q c w)
  show ?case
  proof (cases "case dfa_step q c of None \<Rightarrow> None | Some q' \<Rightarrow> best q' w")
    case None
    then have "dfa_rule q = Some r" "n = 0" using 2(2) by auto
    moreover have "dfa_match q (take m (c # w)) = None" if "0 < m" "m \<le> Suc (length w)" for m
      using None that best_None by (cases m) (auto split: option.splits)
    ultimately show ?thesis by simp
  next
    case (Some rn)
    then obtain q' n' where q: "dfa_step q c = Some q'" "best q' w = Some (r, n')" "n = Suc n'"
      using 2(2) by (cases rn) (auto split: option.splits)
    with 2(1) [OF q(1,2)] show ?thesis by (auto simp: less_Suc_eq_0_disj Suc_less_eq2)
  qed
qed auto

definition longest_match :: "string \<Rightarrow> (nat \<times> nat) option" where
  "longest_match w =
     (case filter (\<lambda>n. lexical_rule (take n w) \<noteq> None) (rev [1..<Suc (length w)]) of
        [] \<Rightarrow> None
      | n # ns \<Rightarrow> Some (the (lexical_rule (take n w)), n))"

lemma filter_rev_upt:
  assumes "a \<le> n" "n \<le> k" "P n" "\<And>m. n < m \<Longrightarrow> m \<le> k \<Longrightarrow> \<not> P m"
  shows "\<exists>ns. filter P (rev [a..<Suc k]) = n # ns"
  using assms
proof (induction k)
  case (Suc k)
  show ?case
  proof (cases "n = Suc k")
    case True
    with Suc.prems show ?thesis by simp
  next
    case False
    with Suc show ?thesis by simp
  qed
qed simp

lemma best_longest: "best 0 w = longest_match w"
proof (cases "best 0 w")
  case None
  then have "lexical_rule (take m w) = None" if "m \<le> length w" for m
    using best_None [OF None that] by (simp add: dfa_is_lexical_rule)
  then have "filter (\<lambda>n. lexical_rule (take n w) \<noteq> None) (rev [1..<Suc (length w)]) = []"
    by (auto simp: filter_empty_conv)
  with None show ?thesis by (simp add: longest_match_def del: upt_Suc)
next
  case (Some rn)
  obtain r n where rn: "rn = (r, n)" by (cases rn)
  from best_Some [of 0 w r n] Some rn have b: "n \<le> length w" "lexical_rule (take n w) = Some r"
    "\<And>m. n < m \<Longrightarrow> m \<le> length w \<Longrightarrow> lexical_rule (take m w) = None"
    by (auto simp: dfa_is_lexical_rule)
  moreover have "lexical_rule [] = None" by (simp add: dfa_is_lexical_rule [symmetric] dfa_rules)
  then have "1 \<le> n" using b(2) by (cases n) auto
  ultimately have "\<exists>ns. filter (\<lambda>n. lexical_rule (take n w) \<noteq> None) (rev [1..<Suc (length w)]) = n # ns"
    by (intro filter_rev_upt) auto
  with Some rn b(2) show ?thesis by (auto simp: longest_match_def simp del: upt_Suc)
qed

lemma longest_match_bounds: "longest_match w = Some (r, n) \<Longrightarrow> 0 < n \<and> n \<le> length w"
proof -
  assume "longest_match w = Some (r, n)"
  then obtain ns where "filter (\<lambda>n. lexical_rule (take n w) \<noteq> None) (rev [1..<Suc (length w)]) = n # ns"
    by (auto simp: longest_match_def simp del: upt_Suc split: list.splits)
  then have "n \<in> set (filter (\<lambda>n. lexical_rule (take n w) \<noteq> None) (rev [1..<Suc (length w)]))" by simp
  then show ?thesis by auto
qed

text \<open>
  A maximal munch scanner: blanks and characters no rule starts with are skipped, otherwise the
  longest match of a rule is the next token: its number, its text and what follows.
\<close>

function next_token :: "string \<Rightarrow> int \<times> string \<times> string" where
  "next_token [] = (0, [], [])"
| "next_token (c # w) =
     (case longest_match (c # w) of
        None \<Rightarrow> next_token w
      | Some (r, n) \<Rightarrow>
          if r = 5 then next_token (drop n (c # w))
          else (token_of r (take n (c # w)), take n (c # w), drop n (c # w)))"
  by pat_completeness auto
termination
  by (relation "measure length") (auto dest!: longest_match_bounds)


lemma cycle_reset:
  assumes "fresh s"
  shows "cycle_ok (reset s)" "outcome (reset s) = longest_match (rest (d_input s))"
    "seen (reset s) = take (reach 0 (rest (d_input s))) (rest (d_input s))"
    "unseen (reset s) = drop (reach 0 (rest (d_input s))) (rest (d_input s))"
proof -
  show "cycle_ok (reset s)" by (rule cycle [OF scanning_reset [OF assms]])
  have r: "d_state (reset s) = 0" "final_std (reset s) = (None, 0)" "d_matched (reset s) = []"
    using assms by (simp_all add: reset_def fresh_def)
  show "outcome (reset s) = longest_match (rest (d_input s))"
    by (auto simp: outcome_def r best_longest split: option.split)
  show "seen (reset s) = take (reach 0 (rest (d_input s))) (rest (d_input s))"
    "unseen (reset s) = drop (reach 0 (rest (d_input s))) (rest (d_input s))"
    by (simp_all add: seen_def unseen_def r)
qed

lemma kept_length: "length (kept s) \<le> length s"
  by (simp add: kept_def)

lemma kept_ascii: "\<forall>c \<in> set s. \<not> is_negative c \<Longrightarrow> kept s = s"
  by (simp add: kept_def)

text \<open>
  One cycle from a fresh state, on the remaining input \<open>w\<close>: \<open>v\<close> is the remaining input after it;
  it is shorter, and if \<open>w\<close> has no negative characters it is the expected tail.
\<close>

lemma lex_cycle:
  assumes "fresh s" "rest (d_input s) = w"
  shows "w = [] \<Longrightarrow> \<exists>s'. fresh s' \<and> rest (d_input s') = [] \<and> d_matched s' = [] \<and> lex s = Some (0, s')"
    and "w \<noteq> [] \<Longrightarrow> longest_match w = None \<Longrightarrow> \<exists>s' v. fresh s' \<and> rest (d_input s') = v \<and> length v < length w \<and>
      ((\<forall>c \<in> set w. \<not> is_negative c) \<longrightarrow> v = tl w) \<and> lex s = lex s'"
    and "longest_match w = Some (r, n) \<Longrightarrow> \<exists>s' v. fresh s' \<and> rest (d_input s') = v \<and> length v < length w \<and>
      d_matched s' = take n w \<and> ((\<forall>c \<in> set w. \<not> is_negative c) \<longrightarrow> v = drop n w) \<and>
      lex s = (if r = 5 then lex s' else Some (token_of r (take n w), s'))"
proof -
  let ?k = "reach 0 w"
  note c = cycle_reset [OF assms(1), unfolded assms(2)]
  have k: "?k \<le> length w" by (rule reach_le)
  have ascii: "kept (drop n (take ?k w)) @ drop ?k w = drop n w" if "\<forall>c \<in> set w. \<not> is_negative c" "n \<le> ?k" for n
  proof -
    have "\<forall>c \<in> set (drop n (take ?k w)). \<not> is_negative c" using that(1) by (meson in_set_dropD in_set_takeD)
    then have "kept (drop n (take ?k w)) @ drop ?k w = drop n (take ?k w) @ drop ?k w" by (simp add: kept_ascii)
    also have "\<dots> = drop n (take ?k w @ drop ?k w)" using that(2) k by (simp del: append_take_drop_id)
    finally show ?thesis by simp
  qed
  have shorter: "length (kept (drop n (take ?k w)) @ drop ?k w) < length w" if "0 < n" "n \<le> ?k" for n
  proof -
    have "length (kept (drop n (take ?k w))) \<le> ?k - n"
      using kept_length [of "drop n (take ?k w)"] k by simp
    then show ?thesis using that k by simp
  qed
  show "\<exists>s'. fresh s' \<and> rest (d_input s') = [] \<and> d_matched s' = [] \<and> lex s = Some (0, s')" if "w = []"
  proof -
    have "best 0 w = None" using that by (simp add: dfa_rules)
    then have "longest_match w = None" by (simp add: best_longest)
    with c that show ?thesis by (simp add: cycle_ok_def lex_def)
  qed
  show "\<exists>s' v. fresh s' \<and> rest (d_input s') = v \<and> length v < length w \<and>
      ((\<forall>c \<in> set w. \<not> is_negative c) \<longrightarrow> v = tl w) \<and> lex s = lex s'"
    if "w \<noteq> []" "longest_match w = None"
  proof (cases "?k = 0")
    case True
    with c that obtain s' where "fresh s'" "rest (d_input s') = tl w" "lex s = lex s'"
      by (auto simp: cycle_ok_def lex_def)
    with that(1) show ?thesis by auto
  next
    case False
    then have "take ?k w \<noteq> []" using that(1) by simp
    with c that(2) obtain s' where "fresh s'" "rest (d_input s') = kept (drop 1 (take ?k w)) @ drop ?k w" "lex s = lex s'"
      by (auto simp: cycle_ok_def lex_def)
    with shorter [of 1] ascii [of 1] False show ?thesis by (metis One_nat_def Suc_leI drop_Suc drop_0 neq0_conv zero_less_one)
  qed
  show "\<exists>s' v. fresh s' \<and> rest (d_input s') = v \<and> length v < length w \<and>
      d_matched s' = take n w \<and> ((\<forall>c \<in> set w. \<not> is_negative c) \<longrightarrow> v = drop n w) \<and>
      lex s = (if r = 5 then lex s' else Some (token_of r (take n w), s'))"
    if "longest_match w = Some (r, n)"
  proof -
    have n: "0 < n" "n \<le> ?k"
      using longest_match_bounds [OF that] best_reach [of 0 w r n] that by (simp_all add: best_longest)
    from c that n(2) obtain s' where "fresh s'" "d_matched s' = take n w"
      "rest (d_input s') = kept (drop n (take ?k w)) @ drop ?k w"
      "lex s = (if r = 5 then lex s' else Some (token_of r (take n w), s'))"
      by (auto simp: cycle_ok_def lex_def min.absorb1 intro: that)
    with shorter [OF n] ascii [OF _ n(2)] show ?thesis by metis
  qed
qed

lemma signed_char_bound: "signed_char c < 256"
proof -
  have "(of_char c :: int) < 256"
    using of_nat_less_iff [where 'a = int, of "of_char c" 256] by (simp add: of_nat_of_char)
  then show ?thesis unfolding signed_char_def by simp
qed

lemma token_of_bound: "token_of r s < 262"
  using signed_char_bound [of "s ! 0"] by (simp add: token_of_def BOOLEAN_def INTEGER_def REAL_def STRING_def BINARY_def)

lemma lex_total:
  "fresh s \<Longrightarrow> \<exists>tok s'. lex s = Some (tok, s') \<and> fresh s' \<and> tok < 262 \<and>
     (length (rest (d_input s')) < length (rest (d_input s)) \<or> tok = 0 \<and> rest (d_input s') = [])"
proof (induction "length (rest (d_input s))" arbitrary: s rule: less_induct)
  case less
  let ?w = "rest (d_input s)"
  note cyc = lex_cycle [OF less.prems refl]
  have again: ?case if "fresh s'" "length (rest (d_input s')) < length ?w" "lex s = lex s'" for s'
    using less.hyps [OF that(2,1)] that(2,3) by fastforce
  show ?case
  proof (cases "longest_match ?w")
    case None
    show ?thesis
    proof (cases "?w = []")
      case True
      from cyc(1) [OF True] show ?thesis by auto
    next
      case False
      from cyc(2) [OF False None] again show ?thesis by blast
    qed
  next
    case (Some rn)
    obtain r n where "rn = (r, n)" by (cases rn)
    from cyc(3) [OF Some [unfolded this]] again token_of_bound show ?thesis by (cases "r = 5") auto
  qed
qed

lemma lex_next:
  "fresh s \<Longrightarrow> \<forall>c \<in> set (rest (d_input s)). \<not> is_negative c \<Longrightarrow> next_token (rest (d_input s)) = (tok, text, w) \<Longrightarrow>
   \<exists>s'. lex s = Some (tok, s') \<and> fresh s' \<and> matched s' = text \<and> rest (d_input s') = w \<and> set w \<subseteq> set (rest (d_input s))"
proof (induction "rest (d_input s)" arbitrary: s rule: next_token.induct)
  case 1
  with lex_cycle(1) [OF 1(2) refl] show ?case by (fastforce simp: matched_def)
next
  case (2 c w0)
  have w: "rest (d_input s) = c # w0" using 2(3) by simp
  note cyc = lex_cycle [OF 2(4) w]
  have asc: "\<forall>d \<in> set (c # w0). \<not> is_negative d" using 2(5) w by simp
  have tok: "next_token (c # w0) = (tok, text, w)" using 2(3,6) by simp
  show ?case
  proof (cases "longest_match (c # w0)")
    case None
    from cyc(2) [OF _ None] asc obtain s' where s': "fresh s'" "rest (d_input s') = w0" "lex s = lex s'" by auto
    have "\<forall>c \<in> set (rest (d_input s')). \<not> is_negative c" using asc s'(2) by simp
    from 2(1) [OF None s'(2) [symmetric] s'(1) this] tok None s' show ?thesis by (fastforce simp: w)
  next
    case (Some rn)
    obtain r n where rn: "rn = (r, n)" by (cases rn)
    note bounds = longest_match_bounds [OF Some [unfolded rn]]
    from cyc(3) [OF Some [unfolded rn]] asc obtain s' where s': "fresh s'" "rest (d_input s') = drop n (c # w0)"
      "d_matched s' = take n (c # w0)" "lex s = (if r = 5 then lex s' else Some (token_of r (take n (c # w0)), s'))" by auto
    have sub: "set (drop n (c # w0)) \<subseteq> set (c # w0)" by (rule set_drop_subset)
    show ?thesis
    proof (cases "r = 5")
      case True
      have "\<forall>c \<in> set (rest (d_input s')). \<not> is_negative c" using asc s'(2) sub by auto
      from 2(2) [OF Some rn [symmetric] _ s'(2) [symmetric] s'(1) this] tok Some rn True s' sub
      show ?thesis by (fastforce simp: w)
    next
      case False
      with tok Some rn s' sub show ?thesis by (auto simp: matched_def w)
    qed
  qed
qed


subsection \<open>The scanner's properties\<close>


text \<open>
  C33. The scanner always returns, on every input and in every state it can be left in: with
  something of the input consumed, or with the end-of-input token and nothing left. So reading
  tokens one after the other comes to the end of any input.
\<close>

theorem lex_returns:
  assumes "fresh s"
  shows "\<exists>tok s'. lex s = Some (tok, s') \<and> fresh s' \<and>
    (length (rest (d_input s')) < length (rest (d_input s)) \<or> tok = 0 \<and> rest (d_input s') = [])"
  using lex_total [OF assms] by blast

theorem lex_returns_witness: "\<exists>tok s'. lex (new_scanner ''[1'') = Some (tok, s')"
  using lex_returns [of "new_scanner ''[1''"] by (auto simp: fresh_def new_scanner_def)

text \<open>
  C15. On input without bytes above 0x7F the scanner returns the same token, with the same text,
  and leaves the same input as the maximal munch scanner of the rules: whitespace and characters
  no rule starts with are skipped, then the longest prefix some rule matches is the token, ties
  going to the first rule. (A byte above 0x7F is lost when it has to be read again, because it is
  given back as a negative \<open>char\<close>.)
\<close>

theorem lex_is_maximal_munch:
  assumes "fresh s" and "\<forall>c \<in> set (rest (d_input s)). \<not> is_negative c"
    and "next_token (rest (d_input s)) = (tok, text, w)"
  shows "\<exists>s'. lex s = Some (tok, s') \<and> fresh s' \<and> matched s' = text \<and> rest (d_input s') = w"
  using lex_next [OF assms] by blast

lemma sample_token: "next_token ''  -7,'' = (INTEGER, ''-7'', '','')"
  by code_simp

theorem lex_is_maximal_munch_witness:
  "\<exists>s'. lex (new_scanner ''  -7,'') = Some (INTEGER, s') \<and> matched s' = ''-7'' \<and> rest (d_input s') = '',''"
proof -
  have r: "rest (d_input (new_scanner ''  -7,'')) = ''  -7,''" by (simp add: new_scanner_def new_input_def rest_def)
  have "fresh (new_scanner ''  -7,'')" by (simp add: fresh_def new_scanner_def)
  from lex_is_maximal_munch [OF this, of INTEGER "''-7''" "'',''"] show ?thesis
    unfolding r by (auto simp: sample_token is_negative_def simp del: next_token.simps)
qed

end
