(* ===== verification/Cli_Parser.thy ===== *)
theory Cli_Parser
  imports Lexical
begin

text \<open>
  The parser for values on the command line protocols (\<open>src/cli/parse.cpp\<close>, \<open>parserbase.h\<close>,
  \<open>parser.h\<close>, \<open>parser.ih\<close>), generated by bisonc++ from \<open>grammar.bisonc++\<close>: the LALR(1) tables, the
  state and value stacks, the semantic actions, error recovery and the parsing loop.

  Semantic values are shared pointers: \<open>cells\<close> is the store of \<open>Semantic\<close> objects, a pointer is an
  index into it or null. The stacks have their top first; what a pop leaves above the top of the
  C++ vectors is not read again.
\<close>

subsection \<open>Tables\<close>

text \<open>Non-terminal and length of every production; the first is not used.\<close>

definition s_productionInfo :: "(int \<times> nat) list" where
  "s_productionInfo =
    [(0, 0), (268, 1), (268, 1), (268, 1), (269, 1), (269, 1), (269, 1), (269, 1), (269, 1),
     (270, 0), (270, 1), (271, 1), (271, 3), (272, 3), (273, 3), (274, 1)]"

text \<open>
  The \<open>SR\<close> arrays: the state's type and the index of the last element, then the transitions by
  token (positive: next state, 0: accept, negative: production), last the default action.
\<close>

definition s_state :: "(int \<times> int) list list" where
  "s_state = [
     [(2, 12), (268, 1), (269, 2), (272, 3), (273, 4), (257, 5), (258, 6), (259, 7), (260, 8),
      (261, 9), (91, 10), (123, 11), (0, 0)],
     [(2, 2), (-1, 0), (0, 0)],
     [(4, 1), (0, -1)],
     [(4, 1), (0, -2)],
     [(4, 1), (0, -3)],
     [(4, 1), (0, -4)],
     [(4, 1), (0, -5)],
     [(4, 1), (0, -6)],
     [(4, 1), (0, -7)],
     [(4, 1), (0, -8)],
     [(6, 9), (270, 12), (271, 13), (269, 14), (257, 5), (258, 6), (259, 7), (260, 8),
      (261, 9), (0, -9)],
     [(6, 9), (270, 15), (271, 13), (269, 14), (257, 5), (258, 6), (259, 7), (260, 8),
      (261, 9), (0, -9)],
     [(2, 2), (93, 16), (0, 0)],
     [(6, 2), (44, 17), (0, -10)],
     [(4, 1), (0, -11)],
     [(2, 2), (125, 18), (0, 0)],
     [(4, 1), (0, -13)],
     [(2, 7), (269, 19), (257, 5), (258, 6), (259, 7), (260, 8), (261, 9), (0, 0)],
     [(4, 1), (0, -14)],
     [(4, 1), (0, -12)]]"

definition UNDETERMINED :: int where "UNDETERMINED = - 2"
definition EOF :: int where "EOF = - 1"
definition error_token :: int where "error_token = 256"

text \<open>The bits of a state's type.\<close>

definition err_item :: "int \<Rightarrow> bool" where "err_item t \<longleftrightarrow> bit t 0"
definition req_token :: "int \<Rightarrow> bool" where "req_token t \<longleftrightarrow> bit t 1"

subsection \<open>State\<close>

datatype semantic = SCL scalar_t | SEQ "scalar_t list" | GEN value_t

type_synonym stype = "nat option"

record parser =
  d_scanner :: scanner
  result :: value_t
  stack :: "(nat \<times> stype) list"
  d_nErrors :: nat
  d_requiredTokens :: nat
  d_acceptedTokens :: nat
  d_token :: int
  d_nextToken :: int
  d_val :: stype
  d_nextVal :: stype
  cells :: "semantic list"

definition new_parser :: "scanner \<Rightarrow> parser" where
  "new_parser sc =
     \<lparr>d_scanner = sc, result = default_value, stack = [], d_nErrors = 0, d_requiredTokens = 0,
      d_acceptedTokens = 0, d_token = UNDETERMINED, d_nextToken = UNDETERMINED, d_val = None,
      d_nextVal = None, cells = []\<rparr>"

text \<open>
  What is thrown inside the parser: \<open>Return\<close> ends the parse, \<open>UNEXPECTED_TOKEN\<close> starts the recovery,
  \<open>Throw\<close> is an exception for the caller. \<open>Diverges\<close> stands for a scanner that does not return.
\<close>

datatype raised = PARSE_ACCEPT | PARSE_ABORT | UNEXPECTED_TOKEN | Throw error | Diverges

type_synonym 'a pact = "parser \<Rightarrow> (raised + 'a) \<times> parser"

definition pret :: "'a \<Rightarrow> 'a pact" where "pret x p = (Inr x, p)"
definition praise :: "raised \<Rightarrow> 'a pact" where "praise e p = (Inl e, p)"
definition update :: "(parser \<Rightarrow> parser) \<Rightarrow> unit pact" where "update f p = (Inr (), f p)"

subsection \<open>Stacks and tokens\<close>

definition d_state_of :: "parser \<Rightarrow> nat" where "d_state_of p = fst (hd (stack p))"

definition clearin :: "unit pact" where
  "clearin = update (\<lambda>p. p\<lparr>d_token := UNDETERMINED, d_nextToken := UNDETERMINED\<rparr>)"

definition push_state :: "nat \<Rightarrow> unit pact" where
  "push_state state = update (\<lambda>p. p\<lparr>stack := (state, d_val p) # stack p\<rparr>)"

definition popToken :: "unit pact" where
  "popToken = update (\<lambda>p.
     p\<lparr>d_token := d_nextToken p, d_val := d_nextVal p, d_nextVal := None, d_nextToken := UNDETERMINED\<rparr>)"

definition pushToken :: "int \<Rightarrow> unit pact" where
  "pushToken token = update (\<lambda>p. p\<lparr>d_nextToken := d_token p, d_nextVal := d_val p, d_token := token\<rparr>)"

definition pop_states :: "nat \<Rightarrow> unit pact" where
  "pop_states count p =
     (if int (length (stack p)) - 1 < int count then praise PARSE_ABORT p
      else (Inr (), p\<lparr>stack := drop count (stack p)\<rparr>))"

definition reduce :: "nat \<Rightarrow> unit pact" where
  "reduce production =
     (case s_productionInfo ! production of (nonTerm, len) \<Rightarrow>
        st_then (update (\<lambda>p. p\<lparr>d_token := nonTerm\<rparr>)) (\<lambda>_. pop_states len))"

definition nextToken :: "unit pact" where
  "nextToken p =
     (if d_token p \<noteq> UNDETERMINED then pret () p
      else if d_nextToken p \<noteq> UNDETERMINED then popToken p
      else (case lex (d_scanner p) of
              None \<Rightarrow> praise Diverges p
            | Some (token, sc) \<Rightarrow>
                (Inr (), p\<lparr>d_acceptedTokens := d_acceptedTokens p + 1, d_scanner := sc,
                           d_token := if token \<le> 0 then EOF else token\<rparr>)))"

text \<open>The search token is stored in the last element, where the search ends at the latest.\<close>

definition lookup :: "int pact" where
  "lookup p =
     (let sr = s_state ! d_state_of p;
          lastIdx = nat (snd (sr ! 0));
          elements = tl (sr[lastIdx := (d_token p, snd (sr ! lastIdx))]);
          i = length (takeWhile (\<lambda>e. fst e \<noteq> d_token p) elements);
          action = snd (elements ! i)
      in if Suc i = lastIdx
         then (if action < 0 then pret action p else praise UNEXPECTED_TOKEN p)
         else pret action p)"

subsection \<open>Semantic values\<close>

definition same_tag :: "semantic \<Rightarrow> semantic \<Rightarrow> bool" where
  "same_tag a b = (case a of
     SCL x \<Rightarrow> (case b of SCL y \<Rightarrow> True | _ \<Rightarrow> False)
   | SEQ x \<Rightarrow> (case b of SEQ y \<Rightarrow> True | _ \<Rightarrow> False)
   | GEN x \<Rightarrow> (case b of GEN y \<Rightarrow> True | _ \<Rightarrow> False))"

text \<open>
  \<open>d_val__.get<tag>()\<close>: a reference to the value, which is first replaced by a fresh default of
  that tag if it is null or has another tag. The tag is given by its default.
\<close>

definition get_val :: "semantic \<Rightarrow> nat pact" where
  "get_val dflt p =
     (case d_val p of
        Some i \<Rightarrow>
          if same_tag dflt (cells p ! i) then (Inr i, p)
          else (Inr (length (cells p)), p\<lparr>cells := cells p @ [dflt], d_val := Some (length (cells p))\<rparr>)
      | None \<Rightarrow> (Inr (length (cells p)), p\<lparr>cells := cells p @ [dflt], d_val := Some (length (cells p))\<rparr>))"

text \<open>\<open>d_vsp__[- depth].data<tag>()\<close>: unchecked; a null pointer or another tag is undefined.\<close>

definition scl_at :: "nat \<Rightarrow> scalar_t pact" where
  "scl_at depth p =
     (case snd (stack p ! depth) of
        None \<Rightarrow> praise (Throw Undefined) p
      | Some i \<Rightarrow> (case cells p ! i of SCL x \<Rightarrow> pret x p | _ \<Rightarrow> praise (Throw Undefined) p))"

definition seq_at :: "nat \<Rightarrow> nat pact" where
  "seq_at depth p =
     (case snd (stack p ! depth) of
        None \<Rightarrow> praise (Throw Undefined) p
      | Some i \<Rightarrow> (case cells p ! i of SEQ xs \<Rightarrow> pret i p | _ \<Rightarrow> praise (Throw Undefined) p))"

definition store :: "nat \<Rightarrow> semantic \<Rightarrow> unit pact" where
  "store i v = update (\<lambda>p. p\<lparr>cells := (cells p)[i := v]\<rparr>)"

definition swap_cells :: "nat \<Rightarrow> nat \<Rightarrow> unit pact" where
  "swap_cells i j = update (\<lambda>p. p\<lparr>cells := (cells p)[i := cells p ! j, j := cells p ! i]\<rparr>)"

definition push_back :: "nat \<Rightarrow> scalar_t \<Rightarrow> unit pact" where
  "push_back i x p =
     (case cells p ! i of
        SEQ xs \<Rightarrow> store i (SEQ (xs @ [x])) p
      | _ \<Rightarrow> praise (Throw Undefined) p)"

text \<open>\<open>sequence_t tmp; d_vsp__[0].data<SEQ>().swap(tmp)\<close>\<close>

definition take_seq :: "scalar_t list pact" where
  "take_seq = st_then (seq_at 0) (\<lambda>i p.
     (case cells p ! i of
        SEQ xs \<Rightarrow> (Inr xs, p\<lparr>cells := (cells p)[i := SEQ []]\<rparr>)
      | _ \<Rightarrow> praise (Throw Undefined) p))"

definition set_result :: "value_t \<Rightarrow> unit pact" where
  "set_result v = update (\<lambda>p. p\<lparr>result := v\<rparr>)"

subsection \<open>Conversion of the terminals\<close>

text \<open>\<open>std::stoi\<close> and \<open>std::stod\<close> on the texts of \<open>INTEGER\<close> and \<open>REAL\<close> tokens; \<open>int\<close> has 32 bits.\<close>

definition split_sign :: "string \<Rightarrow> bool \<times> string" where
  "split_sign s = (case s of c # r \<Rightarrow> if c = CHR ''-'' then (True, r) else (False, s) | [] \<Rightarrow> (False, s))"

definition with_minus :: "bool \<Rightarrow> nat \<Rightarrow> int" where
  "with_minus neg n = (if neg then - int n else int n)"

definition stoi :: "string \<Rightarrow> error + integer_t" where
  "stoi s =
     (case split_sign s of (neg, r) \<Rightarrow>
        let ds = takeWhile is_digit r; i = with_minus neg (read_digits ds)
        in if ds = [] then Inl Invalid_argument
           else if i < - (2 ^ 31) \<or> i \<ge> 2 ^ 31 then Inl Out_of_range
           else Inr (word_of_int i))"

definition read_exponent :: "string \<Rightarrow> int" where
  "read_exponent s =
     (case s of
        [] \<Rightarrow> 0
      | c # r \<Rightarrow>
          if is_e c then (case split_sign r of (neg, ds) \<Rightarrow> with_minus neg (read_digits (takeWhile is_digit ds))) else 0)"

text \<open>
  A result that overflows, or is inexact and below the smallest normal number, is out of range
  (\<open>strtod\<close> sets \<open>ERANGE\<close>).
\<close>

definition stod :: "string \<Rightarrow> error + real_t" where
  "stod s =
     (case split_sign s of (neg, r) \<Rightarrow>
        let a = takeWhile is_digit r;
            r1 = dropWhile is_digit r;
            b = (case r1 of c # f \<Rightarrow> if c = CHR ''.'' then takeWhile is_digit f else [] | [] \<Rightarrow> []);
            r2 = (case r1 of c # f \<Rightarrow> if c = CHR ''.'' then dropWhile is_digit f else r1 | [] \<Rightarrow> []);
            m = read_digits (a @ b);
            e = read_exponent r2 - int (length b);
            num = m * 10 ^ nat e;
            den = 10 ^ nat (- e)
        in if a @ b = [] then Inl Invalid_argument
           else (case round_fp 52 11 num den of
                   None \<Rightarrow> Inl Out_of_range
                 | Some n \<Rightarrow>
                     if n < 2 ^ 52 \<and> n * den \<noteq> num * 2 ^ 1074 then Inl Out_of_range
                     else Inr (word_of_nat (with_sign 64 neg n))))"

subsection \<open>Semantic actions\<close>

definition lift :: "error + 'a \<Rightarrow> 'a pact" where
  "lift r = (case r of Inl e \<Rightarrow> praise (Throw e) | Inr x \<Rightarrow> pret x)"

definition assign_scalar :: "error + scalar_t \<Rightarrow> unit pact" where
  "assign_scalar r = st_then (lift r) (\<lambda>x. st_then (get_val (SCL default_scalar)) (\<lambda>i. store i (SCL x)))"

text \<open>\<open>unwrapped\<close>: the text between the quotes of a string token.\<close>

definition unwrapped :: "string \<Rightarrow> string" where
  "unwrapped s = butlast (tl s)"

definition action_body :: "(string \<Rightarrow> error + string) \<Rightarrow> nat \<Rightarrow> unit pact" where
  "action_body it production p =
     (let text = matched (d_scanner p) in
      if production = 1 then st_then (scl_at 0) (\<lambda>x. set_result (Scalar_t x)) p
      else if production = 2 then st_then take_seq (\<lambda>xs. set_result (Sequence_t xs)) p
      else if production = 3 then st_then take_seq (\<lambda>xs. set_result (Tuple_t xs)) p
      else if production = 4 then assign_scalar (Inr (Boolean_t (text = ''#t''))) p
      else if production = 5 then assign_scalar (and_then (stoi text) (\<lambda>i. Inr (Integer_t i))) p
      else if production = 6 then assign_scalar (and_then (stod text) (\<lambda>r. Inr (Real_t r))) p
      else if production = 7 then
        assign_scalar (and_then (backslash_escape_decoder (unwrapped text)) (\<lambda>s. Inr (String_t s))) p
      else if production = 8 then
        assign_scalar (and_then (base64decode it (tl text)) (\<lambda>s. Inr (Binary_t s))) p
      else if production = 9 then st_then (get_val (SEQ [])) (\<lambda>_. pret ()) p
      else if production = 10 then
        st_then (get_val (SEQ [])) (\<lambda>i. st_then (seq_at 0) (\<lambda>j. swap_cells i j)) p
      else if production = 11 then
        st_then (get_val (SEQ [])) (\<lambda>i. st_then (scl_at 0) (\<lambda>x. push_back i x)) p
      else if production = 12 then
        st_then (seq_at 2) (\<lambda>j. st_then (scl_at 0) (\<lambda>x. st_then (push_back j x) (\<lambda>_.
          st_then (get_val (SEQ [])) (\<lambda>i. st_then (seq_at 2) (\<lambda>j. swap_cells i j))))) p
      else if production = 13 \<or> production = 14 then
        st_then (get_val (SEQ [])) (\<lambda>i. st_then (seq_at 1) (\<lambda>j. swap_cells i j)) p
      else pret () p)"

text \<open>\<open>exceptionHandler\<close> turns every exception into a \<open>parse_error\<close>.\<close>

definition exceptionHandler :: "raised \<Rightarrow> raised" where
  "exceptionHandler e =
     (case e of Throw err \<Rightarrow> if err = Undefined then e else Throw (Runtime parse_error) | _ \<Rightarrow> e)"

definition execute_action :: "(string \<Rightarrow> error + string) \<Rightarrow> nat \<Rightarrow> unit pact" where
  "execute_action it production p =
     (let len = snd (s_productionInfo ! production);
          p1 = (if d_token p \<noteq> UNDETERMINED then snd (pushToken (d_token p) p) else p);
          p2 = (if len \<noteq> 0 then p1\<lparr>d_val := snd (stack p1 ! (len - 1))\<rparr> else p1)
      in case action_body it production p2 of
           (Inl e, p') \<Rightarrow> (Inl (exceptionHandler e), p')
         | (Inr x, p') \<Rightarrow> (Inr x, p'))"

subsection \<open>Error recovery\<close>

text \<open>Popping states until one has an error item; a pop from the last state aborts.\<close>

function find_error_state :: "unit pact" where
  "find_error_state p =
     (if stack p = [] \<or> err_item (fst (s_state ! d_state_of p ! 0)) then pret () p
      else if length (stack p) \<le> 1 then praise PARSE_ABORT p
      else find_error_state (snd (pop_states 1 p)))"
  by pat_completeness auto
termination
  by (relation "measure (\<lambda>p. length (stack p))") (auto simp: pop_states_def)

declare find_error_state.simps [simp del]

text \<open>
  The loop after the error token was shifted; \<open>catch (...)\<close> also catches the abort thrown in the
  body. The result says whether the loop goes on.
\<close>

definition recover_body :: "bool \<Rightarrow> (bool \<times> bool) pact" where
  "recover_body gotToken =
     st_then (\<lambda>p. if req_token (fst (s_state ! d_state_of p ! 0))
                  then st_then nextToken (\<lambda>_. pret (d_token p = UNDETERMINED)) p else pret gotToken p) (\<lambda>got.
     st_then lookup (\<lambda>action.
       if action > 0 then
         st_then (push_state (nat action)) (\<lambda>_. st_then popToken (\<lambda>_.
           if got then st_then (update (\<lambda>p. p\<lparr>d_acceptedTokens := 0\<rparr>)) (\<lambda>_. pret (False, got))
           else pret (True, got)))
       else if action < 0 then
         st_then (\<lambda>p. if d_token p \<noteq> UNDETERMINED then pushToken (d_token p) p else pret () p) (\<lambda>_.
           st_then (reduce (nat (- action))) (\<lambda>_. pret (True, got)))
       else praise PARSE_ABORT))"

definition recover_round :: "bool \<Rightarrow> (bool \<times> bool) pact" where
  "recover_round gotToken p =
     (case recover_body gotToken p of
        (Inr r, p') \<Rightarrow> (Inr r, p')
      | (Inl e, p') \<Rightarrow>
          if e = Diverges then (Inl e, p')
          else if d_token p' = EOF then praise PARSE_ABORT p'
          else st_then popToken (\<lambda>_. pret (True, gotToken)) p')"

partial_function (option) recover_loop :: "bool \<Rightarrow> parser \<Rightarrow> ((raised + unit) \<times> parser) option" where
  "recover_loop gotToken p =
     (case recover_round gotToken p of
        (Inl e, p') \<Rightarrow> Some (Inl e, p')
      | (Inr (again, got), p') \<Rightarrow> if again then recover_loop got p' else Some (Inr (), p'))"

declare recover_loop.simps [code]

definition errorRecovery :: "parser \<Rightarrow> ((raised + unit) \<times> parser) option" where
  "errorRecovery p =
     (let p1 = (if d_acceptedTokens p \<ge> d_requiredTokens p then p\<lparr>d_nErrors := d_nErrors p + 1\<rparr> else p)
      in case st_then find_error_state (\<lambda>_ p.
                let lastToken = d_token p
                in st_then (pushToken error_token) (\<lambda>_. st_then lookup (\<lambda>s. st_then (push_state (nat s)) (\<lambda>_.
                     update (\<lambda>p. p\<lparr>d_token := lastToken\<rparr>)))) p) p1 of
           (Inl e, p') \<Rightarrow> Some (Inl (if e = UNEXPECTED_TOKEN then PARSE_ABORT else e), p')
         | (Inr _, p') \<Rightarrow> recover_loop True p')"

subsection \<open>The parsing loop\<close>

definition parse_body :: "(string \<Rightarrow> error + string) \<Rightarrow> unit pact" where
  "parse_body it =
     st_then (\<lambda>p. if req_token (fst (s_state ! d_state_of p ! 0)) then nextToken p else pret () p) (\<lambda>_.
     st_then lookup (\<lambda>action.
       if action > 0 then st_then (push_state (nat action)) (\<lambda>_. popToken)
       else if action < 0 then st_then (execute_action it (nat (- action))) (\<lambda>_. reduce (nat (- action)))
       else praise PARSE_ACCEPT))"

definition parse_round :: "(string \<Rightarrow> error + string) \<Rightarrow> parser \<Rightarrow> ((raised + unit) \<times> parser) option" where
  "parse_round it p =
     (case parse_body it p of
        (Inl UNEXPECTED_TOKEN, p') \<Rightarrow> errorRecovery p'
      | r \<Rightarrow> Some r)"

partial_function (option) parse_loop ::
  "(string \<Rightarrow> error + string) \<Rightarrow> parser \<Rightarrow> (raised \<times> parser) option" where
  "parse_loop it p =
     (case parse_round it p of
        None \<Rightarrow> None
      | Some (Inl e, p') \<Rightarrow> Some (e, p')
      | Some (Inr _, p') \<Rightarrow> parse_loop it p')"

declare parse_loop.simps [code]

text \<open>\<open>None\<close>: no return. Otherwise the exception that leaves, or the value returned.\<close>

definition parse :: "(string \<Rightarrow> error + string) \<Rightarrow> parser \<Rightarrow> ((error + nat) \<times> parser) option" where
  "parse it p =
     (case parse_loop it (snd (st_then (push_state 0) (\<lambda>_. clearin) p)) of
        None \<Rightarrow> None
      | Some (e, p') \<Rightarrow>
          (case e of
             PARSE_ACCEPT \<Rightarrow> Some (Inr 0, p')
           | PARSE_ABORT \<Rightarrow> Some (Inr 1, p')
           | Throw err \<Rightarrow> Some (Inl err, p')
           | _ \<Rightarrow> None))"

end
