(* ===== verification/Cli_Grammar.thy ===== *)
theory Cli_Grammar
  imports Cli_Parser
begin

text \<open>
  The parser of \<open>src/cli/parse.cpp\<close> accepts exactly the language of \<open>src/cli/grammar.bisonc++\<close> and
  yields the grammar's values; it always returns.
\<close>

subsection \<open>Rounds of the parsing loop\<close>

text \<open>The table as a function: the action of a state on a token, if there is one.\<close>

definition action_of :: "nat \<Rightarrow> int \<Rightarrow> int option" where
  "action_of st t =
     (let sr = s_state ! st; d = snd (last sr)
      in case map_of (butlast (tl sr)) t of Some a \<Rightarrow> Some a | None \<Rightarrow> if d < 0 then Some d else None)"

lemma action_of_table:
    "action_of 0 t = (if t = 268 then Some 1 else if t = 269 then Some 2 else if t = 272 then Some
    3 else if t = 273 then Some 4 else if t = 257 then Some 5 else if t = 258 then Some 6 else if
    t = 259 then Some 7 else if t = 260 then Some 8 else if t = 261 then Some 9 else if t = 91
    then Some 10 else if t = 123 then Some 11 else None)"
    "action_of (Suc 0) t = (if t = - 1 then Some 0 else None)"
    "action_of 2 t = (Some (- 1))"
    "action_of 3 t = (Some (- 2))"
    "action_of 4 t = (Some (- 3))"
    "action_of 5 t = (Some (- 4))"
    "action_of 6 t = (Some (- 5))"
    "action_of 7 t = (Some (- 6))"
    "action_of 8 t = (Some (- 7))"
    "action_of 9 t = (Some (- 8))"
    "action_of 10 t = (if t = 270 then Some 12 else if t = 271 then Some 13 else if t = 269 then
    Some 14 else if t = 257 then Some 5 else if t = 258 then Some 6 else if t = 259 then Some 7
    else if t = 260 then Some 8 else if t = 261 then Some 9 else Some (- 9))"
    "action_of 11 t = (if t = 270 then Some 15 else if t = 271 then Some 13 else if t = 269 then
    Some 14 else if t = 257 then Some 5 else if t = 258 then Some 6 else if t = 259 then Some 7
    else if t = 260 then Some 8 else if t = 261 then Some 9 else Some (- 9))"
    "action_of 12 t = (if t = 93 then Some 16 else None)"
    "action_of 13 t = (if t = 44 then Some 17 else Some (- 10))"
    "action_of 14 t = (Some (- 11))"
    "action_of 15 t = (if t = 125 then Some 18 else None)"
    "action_of 16 t = (Some (- 13))"
    "action_of 17 t = (if t = 269 then Some 19 else if t = 257 then Some 5 else if t = 258 then
    Some 6 else if t = 259 then Some 7 else if t = 260 then Some 8 else if t = 261 then Some 9
    else None)"
    "action_of 18 t = (Some (- 14))"
    "action_of 19 t = (Some (- 12))"
  by (simp_all add: action_of_def s_state_def)

lemma state_cases:
  assumes "st < 20"
  shows "st \<in> {0, Suc 0, 2, 3, 4, 5, 6, 7, 8, 9, 10, 11, 12, 13, 14, 15, 16, 17, 18, 19}"
  using assms by (auto simp: eval_nat_numeral less_Suc_eq)

lemma search:
  "length (takeWhile (\<lambda>e. fst e \<noteq> t) (xs @ [(t, d)])) = length xs \<longleftrightarrow> map_of xs t = None"
  "map_of xs t = Some a \<Longrightarrow> snd ((xs @ [(t, d)]) ! length (takeWhile (\<lambda>e. fst e \<noteq> t) (xs @ [(t, d)]))) = a"
  "snd ((xs @ [(t, d)]) ! length xs) = d"
  by (induction xs) (auto split: if_splits)

lemma lookup_action:
  assumes "d_state_of p < 20"
  shows "lookup p = (case action_of (d_state_of p) (d_token p) of None \<Rightarrow> (Inl UNEXPECTED_TOKEN, p) | Some a \<Rightarrow> (Inr a, p))"
proof -
  let ?sr = "s_state ! d_state_of p"
  obtain h xs e where sr: "?sr = h # xs @ [e]" and h: "nat (snd h) = Suc (length xs)"
  proof -
    have "?sr \<noteq> []" "tl ?sr \<noteq> []" "nat (snd (hd ?sr)) = Suc (length (butlast (tl ?sr)))"
      using state_cases [OF assms] by (auto simp: s_state_def)
    then show ?thesis using that [of "hd ?sr" "butlast (tl ?sr)" "last (tl ?sr)"] by simp
  qed
  have "tl (?sr[Suc (length xs) := (d_token p, snd (?sr ! Suc (length xs)))]) = xs @ [(d_token p, snd e)]"
    by (simp add: sr list_update_append)
  then show ?thesis
    using search [where t = "d_token p" and xs = xs and d = "snd e"]
    by (auto simp: lookup_def Let_def sr h action_of_def pret_def praise_def split: option.split)
qed


definition needs_token :: "parser \<Rightarrow> bool" where
  "needs_token p \<longleftrightarrow> req_token (fst (s_state ! d_state_of p ! 0))"

lemma needs_token_states:
  "needs_token p \<longleftrightarrow> d_state_of p \<in> {0, 1, 10, 11, 12, 13, 15, 17}" if "d_state_of p < 20"
  using state_cases [OF that] by (auto simp: needs_token_def req_token_def s_state_def)

definition normal_token :: "int \<Rightarrow> int" where
  "normal_token t = (if t \<le> 0 then EOF else t)"

lemmas pact_defs = pret_def praise_def update_def push_state_def popToken_def pushToken_def

lemma nextToken_kept: "d_token p \<noteq> UNDETERMINED \<Longrightarrow> nextToken p = (Inr (), p)"
  by (simp add: nextToken_def pret_def)

text \<open>Reading a token does not depend on what happens to it.\<close>

lemma loop_read:
  assumes "needs_token p" "d_token p = UNDETERMINED" "d_nextToken p = UNDETERMINED" "lex (d_scanner p) = Some (t, sc)"
  shows "parse_loop it p = parse_loop it (p\<lparr>d_acceptedTokens := d_acceptedTokens p + 1, d_scanner := sc, d_token := normal_token t\<rparr>)"
proof -
  let ?p = "p\<lparr>d_acceptedTokens := d_acceptedTokens p + 1, d_scanner := sc, d_token := normal_token t\<rparr>"
  have n: "nextToken p = (Inr (), ?p)" using assms by (simp add: nextToken_def normal_token_def)
  have "nextToken ?p = (Inr (), ?p)"
    by (rule nextToken_kept) (simp add: normal_token_def EOF_def UNDETERMINED_def)
  moreover have "needs_token ?p" using assms(1) by (simp add: needs_token_def d_state_of_def)
  ultimately have "parse_body it p = parse_body it ?p"
    using assms(1) n by (simp add: parse_body_def needs_token_def st_then_def)
  then have "parse_round it p = parse_round it ?p" by (simp only: parse_round_def)
  then show ?thesis unfolding parse_loop.simps [of it p] parse_loop.simps [of it ?p] by (simp only:)
qed

definition ready :: "parser \<Rightarrow> bool" where
  "ready p \<longleftrightarrow> d_state_of p < 20 \<and> (needs_token p \<longrightarrow> d_token p \<noteq> UNDETERMINED)"

lemma parse_body_ready:
  assumes "ready p"
  shows "parse_body it p = (case action_of (d_state_of p) (d_token p) of
      None \<Rightarrow> (Inl UNEXPECTED_TOKEN, p)
    | Some action \<Rightarrow>
       (if action > 0 then st_then (push_state (nat action)) (\<lambda>_. popToken)
       else if action < 0 then st_then (execute_action it (nat (- action))) (\<lambda>_. reduce (nat (- action)))
       else praise PARSE_ACCEPT) p)"
proof -
  have "(if req_token (fst (s_state ! d_state_of p ! 0)) then nextToken p else pret () p) = (Inr (), p)"
    using assms nextToken_kept by (simp add: ready_def needs_token_def pret_def)
  then show ?thesis
    using lookup_action [of p] assms by (auto simp: parse_body_def st_then_def ready_def split: option.split)
qed

lemma loop_shift:
  assumes "ready p" "action_of (d_state_of p) (d_token p) = Some a" "a > 0"
  shows "parse_loop it p = parse_loop it (p\<lparr>stack := (nat a, d_val p) # stack p, d_token := d_nextToken p,
    d_val := d_nextVal p, d_nextVal := None, d_nextToken := UNDETERMINED\<rparr>)"
  using parse_body_ready [OF assms(1), of it] assms(2,3)
  by (simp add: parse_loop.simps [of it p] parse_round_def st_then_def pact_defs)

lemma loop_accept:
  assumes "ready p" "action_of (d_state_of p) (d_token p) = Some 0"
  shows "parse_loop it p = Some (PARSE_ACCEPT, p)"
  using parse_body_ready [OF assms(1), of it] assms(2)
  by (simp add: parse_loop.simps [of it p] parse_round_def praise_def)

definition parser_at :: "parser \<Rightarrow> nat \<Rightarrow> parser" where
  "parser_at p k = p\<lparr>d_token := fst (s_productionInfo ! k), stack := drop (snd (s_productionInfo ! k)) (stack p)\<rparr>"

lemma loop_reduce:
  assumes "ready p" "action_of (d_state_of p) (d_token p) = Some (- int k)" "0 < k"
    and "execute_action it k p = (Inr (), p')" "snd (s_productionInfo ! k) < length (stack p')"
  shows "parse_loop it p = parse_loop it (parser_at p' k)"
proof -
  obtain nt len where i: "s_productionInfo ! k = (nt, len)" by (cases "s_productionInfo ! k")
  have "reduce k p' = (Inr (), parser_at p' k)"
    using assms(5) by (simp add: reduce_def i st_then_def pact_defs pop_states_def parser_at_def)
  then show ?thesis
    using parse_body_ready [OF assms(1), of it] assms(2-4)
    by (simp add: parse_loop.simps [of it p] parse_round_def st_then_def)
qed

lemma loop_throw:
  assumes "ready p" "action_of (d_state_of p) (d_token p) = Some (- int k)" "0 < k"
    and "execute_action it k p = (Inl (Throw e), p')"
  shows "parse_loop it p = Some (Throw e, p')"
  using parse_body_ready [OF assms(1), of it] assms(2-4)
  by (simp add: parse_loop.simps [of it p] parse_round_def st_then_def)

text \<open>No state has an error item: a syntax error always ends the parse, the result is as it was.\<close>

lemma no_error_item: "st < 20 \<Longrightarrow> \<not> err_item (fst (s_state ! st ! 0))"
  using state_cases [of st] by (auto simp: err_item_def s_state_def)

lemma find_error_state_aborts:
  "stack p \<noteq> [] \<Longrightarrow> \<forall>e \<in> set (stack p). fst e < 20 \<Longrightarrow>
   \<exists>p'. find_error_state p = (Inl PARSE_ABORT, p') \<and> result p' = result p"
proof (induction p rule: find_error_state.induct)
  case (1 p)
  have n: "\<not> err_item (fst (s_state ! d_state_of p ! 0))"
    using 1(2,3) by (intro no_error_item) (auto simp: d_state_of_def hd_in_set)
  show ?case
  proof (cases "length (stack p) \<le> 1")
    case True
    with 1(2) n show ?thesis by (simp add: praise_def find_error_state.simps [of p])
  next
    case False
    then have p: "pop_states 1 p = (Inr (), p\<lparr>stack := drop 1 (stack p)\<rparr>)" by (simp add: pop_states_def)
    have "\<forall>e \<in> set (drop 1 (stack p)). fst e < 20" using 1(3) by (meson in_set_dropD)
    with 1(1) 1(2) n False p show ?thesis by (simp add: find_error_state.simps [of p])
  qed
qed

lemma loop_error:
  assumes "ready p" "action_of (d_state_of p) (d_token p) = None" "stack p \<noteq> []" "\<forall>e \<in> set (stack p). fst e < 20"
  shows "\<exists>p'. parse_loop it p = Some (PARSE_ABORT, p') \<and> result p' = result p"
proof -
  define p1 where "p1 = (if d_acceptedTokens p \<ge> d_requiredTokens p then p\<lparr>d_nErrors := d_nErrors p + 1\<rparr> else p)"
  have 1: "stack p1 = stack p" "result p1 = result p" by (simp_all add: p1_def)
  obtain p' where "find_error_state p1 = (Inl PARSE_ABORT, p')" "result p' = result p"
    using find_error_state_aborts [of p1] assms(3,4) 1 by auto
  moreover have "parse_body it p = (Inl UNEXPECTED_TOKEN, p)"
    using parse_body_ready [OF assms(1), of it] assms(2) by simp
  ultimately show ?thesis
    by (simp add: parse_loop.simps [of it p] parse_round_def errorRecovery_def Let_def p1_def [symmetric] st_then_def)
qed


subsection \<open>Semantic actions\<close>

definition conversion :: "(string \<Rightarrow> error + string) \<Rightarrow> nat \<Rightarrow> string \<Rightarrow> error + scalar_t" where
  "conversion it k text =
     (if k = 4 then Inr (Boolean_t (text = ''#t''))
      else if k = 5 then and_then (stoi text) (\<lambda>i. Inr (Integer_t i))
      else if k = 6 then and_then (stod text) (\<lambda>r. Inr (Real_t r))
      else if k = 7 then and_then (backslash_escape_decoder (unwrapped text)) (\<lambda>s. Inr (String_t s))
      else and_then (base64decode it (tl text)) (\<lambda>s. Inr (Binary_t s)))"

lemmas action_defs = execute_action_def action_body_def s_productionInfo_def scl_at_def seq_at_def
  store_def swap_cells_def push_back_def take_seq_def set_result_def get_val_def st_then_def pact_defs

lemma assign_scalar_null:
  "d_val p = None \<Longrightarrow> assign_scalar r p = (case r of Inl e \<Rightarrow> (Inl (Throw e), p)
     | Inr x \<Rightarrow> (Inr (), p\<lparr>cells := cells p @ [SCL x], d_val := Some (length (cells p))\<rparr>))"
  by (auto simp: assign_scalar_def lift_def get_val_def store_def st_then_def pact_defs split: sum.split)

lemma exec_terminal:
  assumes "k \<in> {4, 5, 6, 7, 8}" "stack p = (st, None) # stk" "d_token p = UNDETERMINED"
  shows "execute_action it k p =
    (case conversion it k (matched (d_scanner p)) of
       Inl e \<Rightarrow> (Inl (exceptionHandler (Throw e)), p\<lparr>d_val := None\<rparr>)
     | Inr x \<Rightarrow> (Inr (), p\<lparr>d_val := Some (length (cells p)), cells := cells p @ [SCL x]\<rparr>))"
proof -
  have "action_body it k (p\<lparr>d_val := None\<rparr>) = assign_scalar (conversion it k (matched (d_scanner p))) (p\<lparr>d_val := None\<rparr>)"
    using assms(1) by (auto simp: action_body_def conversion_def)
  moreover have "snd (s_productionInfo ! k) = 1" using assms(1) by (auto simp: s_productionInfo_def)
  ultimately show ?thesis
    using assms(2,3) by (simp add: execute_action_def assign_scalar_null split: sum.split)
qed

lemma exec_expression:
  assumes "d_token p = UNDETERMINED" "stack p = (st, Some i) # stk"
  shows "cells p ! i = SCL x \<Longrightarrow> execute_action it 1 p = (Inr (), p\<lparr>d_val := Some i, result := Scalar_t x\<rparr>)"
    and "cells p ! i = SEQ xs \<Longrightarrow> execute_action it 2 p = (Inr (), p\<lparr>d_val := Some i, result := Sequence_t xs, cells := (cells p)[i := SEQ []]\<rparr>)"
    and "cells p ! i = SEQ xs \<Longrightarrow> execute_action it 3 p = (Inr (), p\<lparr>d_val := Some i, result := Tuple_t xs, cells := (cells p)[i := SEQ []]\<rparr>)"
  using assms by (simp_all add: action_defs)

lemma exec_empty:
  assumes "d_token p \<noteq> UNDETERMINED" "d_val p = None"
  shows "execute_action it 9 p = (Inr (), p\<lparr>d_nextToken := d_token p, d_nextVal := None,
    d_val := Some (length (cells p)), cells := cells p @ [SEQ []]\<rparr>)"
  using assms by (simp add: action_defs)

lemma exec_series_done:
  assumes "d_token p \<noteq> UNDETERMINED" "stack p = (st, Some i) # stk" "cells p ! i = SEQ xs" "d_val p = None"
  shows "execute_action it 10 p = (Inr (), p\<lparr>d_nextToken := d_token p, d_nextVal := None, d_val := Some i\<rparr>)"
  using assms by (simp add: action_defs same_tag_def)

lemma exec_first:
  assumes "d_token p = UNDETERMINED" "stack p = (st, Some i) # stk" "cells p ! i = SCL x" "i < length (cells p)"
  shows "execute_action it 11 p = (Inr (), p\<lparr>d_val := Some (length (cells p)), cells := cells p @ [SEQ [x]]\<rparr>)"
  using assms by (simp add: action_defs same_tag_def nth_append)

lemma exec_next:
  assumes "d_token p = UNDETERMINED" "stack p = (st, Some j) # e # (st', Some i) # stk"
    and "cells p ! i = SEQ xs" "cells p ! j = SCL x" "i < length (cells p)"
  shows "execute_action it 12 p = (Inr (), p\<lparr>d_val := Some i, cells := (cells p)[i := SEQ (xs @ [x])]\<rparr>)"
  using assms by (simp add: action_defs same_tag_def)

lemma exec_bracket:
  assumes "d_token p = UNDETERMINED" "stack p = e # (st, Some i) # (st', None) # stk"
    and "cells p ! i = SEQ xs" "i < length (cells p)" "k = 13 \<or> k = 14"
  shows "execute_action it k p = (Inr (), p\<lparr>d_val := Some (length (cells p)),
    cells := (cells p @ [SEQ xs])[i := SEQ []]\<rparr>)"
  using assms by (auto simp: action_defs same_tag_def nth_append list_update_append)


subsection \<open>Runs\<close>

lemma loop_production:
  assumes "ready p" "action_of (d_state_of p) (d_token p) = Some (- int k)" "0 < k"
    and "execute_action it k p = (Inr (), p')" "s_productionInfo ! k = (nt, len)"
    and "drop len (stack p') = (s, v) # stk" "s < 20" "action_of s nt = Some g" "0 < g" "nt \<noteq> UNDETERMINED"
  shows "parse_loop it p = parse_loop it (p'\<lparr>stack := (nat g, d_val p') # (s, v) # stk, d_token := d_nextToken p',
    d_val := d_nextVal p', d_nextVal := None, d_nextToken := UNDETERMINED\<rparr>)"
proof -
  let ?q = "parser_at p' k"
  have q: "?q = p'\<lparr>d_token := nt, stack := (s, v) # stk\<rparr>" using assms(5,6) by (simp add: parser_at_def)
  have "len < length (stack p')" using assms(6) by (metis drop_eq_Nil leI list.distinct(1))
  then have "parse_loop it p = parse_loop it ?q" using loop_reduce [OF assms(1-4)] assms(5) by simp
  also have "\<dots> = parse_loop it (?q\<lparr>stack := (nat g, d_val ?q) # stack ?q, d_token := d_nextToken ?q,
    d_val := d_nextVal ?q, d_nextVal := None, d_nextToken := UNDETERMINED\<rparr>)"
    by (rule loop_shift) (use assms(7-10) in \<open>simp_all add: q ready_def d_state_of_def\<close>)
  finally show ?thesis by (simp add: q)
qed

text \<open>Between two transitions nothing but the stack, the look-ahead and the result is kept.\<close>

definition conf :: "parser \<Rightarrow> (nat \<times> stype) list \<Rightarrow> int \<Rightarrow> value_t \<Rightarrow> bool" where
  "conf p stk t r \<longleftrightarrow> stack p = stk \<and> d_token p = t \<and> d_nextToken p = UNDETERMINED \<and> d_val p = None \<and>
     d_nextVal p = None \<and> result p = r"

lemma confD: "conf p stk t r \<Longrightarrow> stack p = stk \<and> d_token p = t \<and> d_nextToken p = UNDETERMINED \<and> d_val p = None \<and>
     d_nextVal p = None \<and> result p = r"
  by (simp add: conf_def)

lemma ready_conf: "conf p ((s, v) # stk) t r \<Longrightarrow> s < 20 \<Longrightarrow> s \<notin> {0, 1, 10, 11, 12, 13, 15, 17} \<or> t \<noteq> UNDETERMINED \<Longrightarrow> ready p"
  using needs_token_states [of p] by (auto simp: ready_def conf_def d_state_of_def)

lemma state_conf: "conf p ((s, v) # stk) t r \<Longrightarrow> d_state_of p = s"
  by (simp add: conf_def d_state_of_def)

lemma run_read:
  assumes "conf p ((s, v) # stk) UNDETERMINED r" "s \<in> {0, 1, 10, 11, 12, 13, 15, 17}" "lex (d_scanner p) = Some (t, sc)"
  shows "\<exists>p'. parse_loop it p = parse_loop it p' \<and> conf p' ((s, v) # stk) (normal_token t) r \<and>
    d_scanner p' = sc \<and> cells p' = cells p"
proof -
  have "needs_token p" using needs_token_states [of p] assms(1,2) by (auto simp: state_conf)
  from loop_read [OF this _ _ assms(3), of it] assms(1) show ?thesis
    by (intro exI [of _ "p\<lparr>d_acceptedTokens := d_acceptedTokens p + 1, d_scanner := sc, d_token := normal_token t\<rparr>"])
      (simp add: conf_def)
qed

lemma run_shift:
  assumes "conf p ((s, v) # stk) t r" "s < 20" "action_of s t = Some a" "0 < a" "t \<noteq> UNDETERMINED"
  shows "\<exists>p'. parse_loop it p = parse_loop it p' \<and> conf p' ((nat a, None) # (s, v) # stk) UNDETERMINED r \<and>
    d_scanner p' = d_scanner p \<and> cells p' = cells p"
  using loop_shift [OF ready_conf [OF assms(1,2)], of a it] assms
  by (intro exI [of _ "p\<lparr>stack := (nat a, d_val p) # stack p, d_token := d_nextToken p,
    d_val := d_nextVal p, d_nextVal := None, d_nextToken := UNDETERMINED\<rparr>"]) (simp add: conf_def d_state_of_def)

definition is_scalar_token :: "int \<Rightarrow> bool" where
  "is_scalar_token t \<longleftrightarrow> t \<in> {257, 258, 259, 260, 261}"

definition scalar_state :: "nat \<Rightarrow> nat" where
  "scalar_state s = (if s = 0 then 2 else if s = 17 then 19 else 14)"

definition scalar_of :: "(string \<Rightarrow> error + string) \<Rightarrow> int \<Rightarrow> string \<Rightarrow> error + scalar_t" where
  "scalar_of it t text = conversion it (nat (t - 253)) text"

lemmas tokens = UNDETERMINED_def EOF_def

lemma run_scalar:
  assumes "conf p ((s, v) # stk) t r" "s \<in> {0, 10, 11, 17}" "is_scalar_token t"
  shows "scalar_of it t (matched (d_scanner p)) = Inr x \<Longrightarrow> \<exists>p'. parse_loop it p = parse_loop it p' \<and>
      conf p' ((scalar_state s, Some (length (cells p))) # (s, v) # stk) UNDETERMINED r \<and>
      d_scanner p' = d_scanner p \<and> cells p' = cells p @ [SCL x]"
    and "scalar_of it t (matched (d_scanner p)) = Inl e \<Longrightarrow> \<exists>p' e'. parse_loop it p = Some (Throw e', p') \<and> result p' = r \<and>
      exceptionHandler (Throw e) = Throw e'"
proof -
  let ?k = "nat (t - 253)"
  have t: "action_of s t = Some (t - 252)" "0 < t - 252" "t \<noteq> UNDETERMINED" "s < 20" "?k \<in> {4, 5, 6, 7, 8}"
    "action_of (nat (t - 252)) UNDETERMINED = Some (- int ?k)" "s_productionInfo ! ?k = (269, 1)"
    "action_of s 269 = Some (int (scalar_state s))" "0 < scalar_state s" "nat (t - 252) \<in> {5, 6, 7, 8, 9}"
    using assms(2,3) by (auto simp: is_scalar_token_def action_of_table tokens s_productionInfo_def scalar_state_def)
  obtain p1 where 1: "parse_loop it p = parse_loop it p1" "conf p1 ((nat (t - 252), None) # (s, v) # stk) UNDETERMINED r"
    "d_scanner p1 = d_scanner p" "cells p1 = cells p"
    using run_shift [OF assms(1) t(4,1,2,3)] by blast
  have rdy: "ready p1" by (rule ready_conf [OF 1(2)]) (use t(10) in auto)
  have act: "action_of (d_state_of p1) (d_token p1) = Some (- int ?k)" using t(6) confD [OF 1(2)] by (simp add: d_state_of_def)
  note ex = exec_terminal [OF t(5), of p1 "nat (t - 252)" "(s, v) # stk" it]
  show "\<exists>p'. parse_loop it p = parse_loop it p' \<and>
      conf p' ((scalar_state s, Some (length (cells p))) # (s, v) # stk) UNDETERMINED r \<and>
      d_scanner p' = d_scanner p \<and> cells p' = cells p @ [SCL x]" if x: "scalar_of it t (matched (d_scanner p)) = Inr x"
  proof -
    have e: "execute_action it ?k p1 = (Inr (), p1\<lparr>d_val := Some (length (cells p)), cells := cells p @ [SCL x]\<rparr>)"
      using ex confD [OF 1(2)] x 1(3,4) by (simp add: scalar_of_def)
    have "parse_loop it p1 = parse_loop it (p1\<lparr>d_val := Some (length (cells p)), cells := cells p @ [SCL x],
       stack := (scalar_state s, Some (length (cells p))) # (s, v) # stk, d_token := UNDETERMINED, d_val := None,
       d_nextVal := None, d_nextToken := UNDETERMINED\<rparr>)"
      using loop_production [OF rdy act _ e t(7), of s v stk "int (scalar_state s)"] t confD [OF 1(2)]
      by (auto simp: tokens)
    with 1 show ?thesis
      by (intro exI [of _ "p1\<lparr>d_val := Some (length (cells p)), cells := cells p @ [SCL x],
       stack := (scalar_state s, Some (length (cells p))) # (s, v) # stk, d_token := UNDETERMINED, d_val := None,
       d_nextVal := None, d_nextToken := UNDETERMINED\<rparr>"]) (simp add: conf_def)
  qed
  show "\<exists>p' e'. parse_loop it p = Some (Throw e', p') \<and> result p' = r \<and> exceptionHandler (Throw e) = Throw e'"
    if x: "scalar_of it t (matched (d_scanner p)) = Inl e"
  proof -
    obtain e' where e': "exceptionHandler (Throw e) = Throw e'"
      by (cases "e = Undefined") (auto simp: exceptionHandler_def)
    have "execute_action it ?k p1 = (Inl (Throw e'), p1\<lparr>d_val := None\<rparr>)"
      using ex confD [OF 1(2)] x 1(3) e' by (simp add: scalar_of_def)
    from loop_throw [OF rdy act _ this] t(5) 1 e' confD [OF 1(2)] show ?thesis by auto
  qed
qed


lemma conf_simps:
  assumes "conf p ((s, v) # stk) t r"
  shows "stack p = (s, v) # stk" "d_token p = t" "d_nextToken p = UNDETERMINED" "d_val p = None"
    "d_nextVal p = None" "result p = r" "d_state_of p = s"
  using assms by (simp_all add: conf_def d_state_of_def)

lemma run_production:
  assumes "conf p ((s, v) # stk) t r" "s < 20" "s \<notin> {0, 1, 10, 11, 12, 13, 15, 17} \<or> t \<noteq> UNDETERMINED"
    and "action_of s t = Some (- int k)" "0 < k" "s_productionInfo ! k = (nt, len)" "drop len ((s, v) # stk) = (s', v') # stk'"
    and "s' < 20" "action_of s' nt = Some (int g)" "0 < g" "nt \<noteq> UNDETERMINED"
    and "execute_action it k p = (Inr (), p1)" "stack p1 = stack p" "d_nextToken p1 = t" "d_nextVal p1 = None"
  shows "\<exists>p'. parse_loop it p = parse_loop it p' \<and> conf p' ((g, d_val p1) # (s', v') # stk') t (result p1) \<and>
    d_scanner p' = d_scanner p1 \<and> cells p' = cells p1"
proof -
  note c = conf_simps [OF assms(1)]
  have "parse_loop it p = parse_loop it (p1\<lparr>stack := (nat (int g), d_val p1) # (s', v') # stk', d_token := d_nextToken p1,
    d_val := d_nextVal p1, d_nextVal := None, d_nextToken := UNDETERMINED\<rparr>)"
    by (rule loop_production [OF ready_conf [OF assms(1-3)] _ assms(5) assms(12) assms(6)])
      (use assms c in simp_all)
  then show ?thesis
    by (intro exI [of _ "p1\<lparr>stack := (nat (int g), d_val p1) # (s', v') # stk', d_token := d_nextToken p1,
      d_val := d_nextVal p1, d_nextVal := None, d_nextToken := UNDETERMINED\<rparr>"]) (simp add: conf_def assms)
qed

lemma run_first:
  assumes "conf p ((14, Some i) # (s, v) # stk) UNDETERMINED r" "s = 10 \<or> s = 11" "cells p ! i = SCL x" "i < length (cells p)"
  shows "\<exists>p'. parse_loop it p = parse_loop it p' \<and> conf p' ((13, Some (length (cells p))) # (s, v) # stk) UNDETERMINED r \<and>
    d_scanner p' = d_scanner p \<and> cells p' = cells p @ [SEQ [x]]"
  using run_production [OF assms(1), of 11 271 1 s v stk 13 it] exec_first [of p 14 i "(s, v) # stk" x it]
    conf_simps [OF assms(1)] assms(2-4)
  by (auto simp: action_of_table s_productionInfo_def tokens)

lemma run_next:
  assumes "conf p ((19, Some j) # e # (13, Some i) # (s, v) # stk) UNDETERMINED r" "s = 10 \<or> s = 11"
    and "cells p ! i = SEQ xs" "cells p ! j = SCL x" "i < length (cells p)"
  shows "\<exists>p'. parse_loop it p = parse_loop it p' \<and> conf p' ((13, Some i) # (s, v) # stk) UNDETERMINED r \<and>
    d_scanner p' = d_scanner p \<and> cells p' = (cells p)[i := SEQ (xs @ [x])]"
  using run_production [OF assms(1), of 12 271 3 s v stk 13 it] exec_next [of p 19 j e 13 i "(s, v) # stk" xs x it]
    conf_simps [OF assms(1)] assms(2-5)
  by (auto simp: action_of_table s_productionInfo_def tokens)

definition series_state :: "nat \<Rightarrow> nat" where
  "series_state s = (if s = 10 then 12 else 15)"

lemma run_series_done:
  assumes "conf p ((13, Some i) # (s, v) # stk) t r" "s = 10 \<or> s = 11" "cells p ! i = SEQ xs"
    and "t \<noteq> 44" "t \<noteq> UNDETERMINED"
  shows "\<exists>p'. parse_loop it p = parse_loop it p' \<and> conf p' ((series_state s, Some i) # (s, v) # stk) t r \<and>
    d_scanner p' = d_scanner p \<and> cells p' = cells p"
  using run_production [OF assms(1), of 10 270 1 s v stk "series_state s" it] exec_series_done [of p 13 i "(s, v) # stk" xs it]
    conf_simps [OF assms(1)] assms(2-5)
  by (auto simp: action_of_table s_productionInfo_def tokens series_state_def)

lemma run_empty:
  assumes "conf p ((s, v) # stk) t r" "s = 10 \<or> s = 11" "\<not> is_scalar_token t" "t \<notin> {269, 270, 271}" "t \<noteq> UNDETERMINED"
  shows "\<exists>p'. parse_loop it p = parse_loop it p' \<and> conf p' ((series_state s, Some (length (cells p))) # (s, v) # stk) t r \<and>
    d_scanner p' = d_scanner p \<and> cells p' = cells p @ [SEQ []]"
proof -
  note c = conf_simps [OF assms(1)]
  have a: "action_of s t = Some (- int 9)" "action_of s 270 = Some (int (series_state s))" "0 < series_state s" "s < 20"
    using assms(2-4) by (auto simp: action_of_table is_scalar_token_def series_state_def)
  have e: "execute_action it 9 p = (Inr (), p\<lparr>d_nextToken := t, d_nextVal := None,
    d_val := Some (length (cells p)), cells := cells p @ [SEQ []]\<rparr>)"
    using exec_empty [of p it] c(2,4) assms(5) by simp
  show ?thesis
    using run_production [OF assms(1) a(4) disjI2 [OF assms(5)] a(1) _ _ _ a(4) a(2,3) _ e, of 0 v stk]
    by (simp add: s_productionInfo_def tokens c)
qed

lemma run_expression:
  assumes "conf p [(st, Some i), (0, None)] UNDETERMINED r"
  shows "st = 2 \<Longrightarrow> cells p ! i = SCL x \<Longrightarrow> \<exists>p'. parse_loop it p = parse_loop it p' \<and>
      conf p' [(1, Some i), (0, None)] UNDETERMINED (Scalar_t x) \<and> d_scanner p' = d_scanner p"
    and "st = 3 \<Longrightarrow> cells p ! i = SEQ xs \<Longrightarrow> \<exists>p'. parse_loop it p = parse_loop it p' \<and>
      conf p' [(1, Some i), (0, None)] UNDETERMINED (Sequence_t xs) \<and> d_scanner p' = d_scanner p"
    and "st = 4 \<Longrightarrow> cells p ! i = SEQ xs \<Longrightarrow> \<exists>p'. parse_loop it p = parse_loop it p' \<and>
      conf p' [(1, Some i), (0, None)] UNDETERMINED (Tuple_t xs) \<and> d_scanner p' = d_scanner p"
proof -
  note c = conf_simps [OF assms]
  have fin: "\<exists>p'. parse_loop it p = parse_loop it p' \<and> conf p' [(1, Some i), (0, None)] UNDETERMINED v \<and> d_scanner p' = d_scanner p"
    if "execute_action it k p = (Inr (), p1)" "(k, st) \<in> {(1, 2), (2, 3), (3, 4)}" "stack p1 = stack p" "d_nextToken p1 = UNDETERMINED"
      "d_nextVal p1 = None" "d_val p1 = Some i" "result p1 = v" "d_scanner p1 = d_scanner p" for k p1 v
    using run_production [OF assms, of k 268 1 0 None "[]" 1 it p1] that
    by (auto simp: action_of_table s_productionInfo_def tokens)
  note ex = exec_expression [OF c(2) c(1)]
  show "st = 2 \<Longrightarrow> cells p ! i = SCL x \<Longrightarrow> \<exists>p'. parse_loop it p = parse_loop it p' \<and>
      conf p' [(1, Some i), (0, None)] UNDETERMINED (Scalar_t x) \<and> d_scanner p' = d_scanner p"
    by (rule fin [OF ex(1)]) (simp_all add: c)
  show "st = 3 \<Longrightarrow> cells p ! i = SEQ xs \<Longrightarrow> \<exists>p'. parse_loop it p = parse_loop it p' \<and>
      conf p' [(1, Some i), (0, None)] UNDETERMINED (Sequence_t xs) \<and> d_scanner p' = d_scanner p"
    by (rule fin [OF ex(2)]) (simp_all add: c)
  show "st = 4 \<Longrightarrow> cells p ! i = SEQ xs \<Longrightarrow> \<exists>p'. parse_loop it p = parse_loop it p' \<and>
      conf p' [(1, Some i), (0, None)] UNDETERMINED (Tuple_t xs) \<and> d_scanner p' = d_scanner p"
    by (rule fin [OF ex(3)]) (simp_all add: c)
qed


subsection \<open>The tokens of an input\<close>

inductive reads :: "scanner \<Rightarrow> (int \<times> string) list \<Rightarrow> bool" where
  at_end: "lex s = Some (t, s') \<Longrightarrow> t \<le> 0 \<Longrightarrow> reads s []"
| token: "lex s = Some (t, s') \<Longrightarrow> 0 < t \<Longrightarrow> t < 262 \<Longrightarrow> reads s' ts \<Longrightarrow> reads s ((t, matched s') # ts)"

inductive_cases reads_Nil: "reads s []"
inductive_cases reads_Cons: "reads s (e # ts)"

lemma reads_exists: "fresh s \<Longrightarrow> \<exists>ts. reads s ts"
proof (induction "length (rest (d_input s))" arbitrary: s rule: less_induct)
  case less
  obtain t s' where l: "lex s = Some (t, s')" "fresh s'" "t < 262"
    "length (rest (d_input s')) < length (rest (d_input s)) \<or> t = 0 \<and> rest (d_input s') = []"
    using lex_total [OF less.prems] by blast
  show ?case
  proof (cases "0 < t")
    case True
    with less.hyps [OF _ l(2)] l show ?thesis by (auto intro: reads.token)
  next
    case False
    with reads.at_end [OF l(1)] show ?thesis by auto
  qed
qed

lemma run_token:
  assumes "conf p ((s, v) # stk) UNDETERMINED r" "s \<in> {0, 1, 10, 11, 12, 13, 15, 17}" "reads (d_scanner p) ts"
  shows "ts = [] \<Longrightarrow> \<exists>p'. parse_loop it p = parse_loop it p' \<and> conf p' ((s, v) # stk) EOF r \<and> cells p' = cells p"
    and "ts = (t, text) # ts' \<Longrightarrow> \<exists>p'. parse_loop it p = parse_loop it p' \<and> conf p' ((s, v) # stk) t r \<and>
      cells p' = cells p \<and> matched (d_scanner p') = text \<and> reads (d_scanner p') ts' \<and> 0 < t \<and> t < 262"
proof -
  show "\<exists>p'. parse_loop it p = parse_loop it p' \<and> conf p' ((s, v) # stk) EOF r \<and> cells p' = cells p" if n: "ts = []"
  proof -
    obtain t sc where "lex (d_scanner p) = Some (t, sc)" "t \<le> 0" using assms(3) n by (auto elim: reads_Nil)
    with run_read [OF assms(1,2), of t sc it] show ?thesis by (auto simp: normal_token_def)
  qed
  show "\<exists>p'. parse_loop it p = parse_loop it p' \<and> conf p' ((s, v) # stk) t r \<and>
      cells p' = cells p \<and> matched (d_scanner p') = text \<and> reads (d_scanner p') ts' \<and> 0 < t \<and> t < 262" if n: "ts = (t, text) # ts'"
  proof -
    obtain sc where "lex (d_scanner p) = Some (t, sc)" "0 < t" "t < 262" "matched sc = text" "reads sc ts'"
      using assms(3) n by (auto elim: reads_Cons)
    with run_read [OF assms(1,2), of t sc it] show ?thesis by (auto simp: normal_token_def)
  qed
qed

lemma run_error:
  assumes "conf p ((s, v) # stk) t r" "t \<noteq> UNDETERMINED" "action_of s t = None" "\<forall>e \<in> set ((s, v) # stk). fst e < 20"
  shows "\<exists>p'. parse_loop it p = Some (PARSE_ABORT, p') \<and> result p' = r"
  using loop_error [of p it] ready_conf [OF assms(1)] conf_simps [OF assms(1)] assms(2-4) by auto

lemma run_end:
  assumes "conf p [(1, v), (0, None)] UNDETERMINED r" "reads (d_scanner p) ts"
  shows "\<exists>p'. parse_loop it p = Some (if ts = [] then PARSE_ACCEPT else PARSE_ABORT, p') \<and> result p' = r"
proof (cases ts)
  case Nil
  from run_token(1) [OF assms(1) _ assms(2) Nil, of it] obtain p' where p': "parse_loop it p = parse_loop it p'"
    "conf p' [(1, v), (0, None)] EOF r" by auto
  have "parse_loop it p' = Some (PARSE_ACCEPT, p')"
    by (rule loop_accept [OF ready_conf [OF p'(2)]]) (use conf_simps [OF p'(2)] in \<open>simp_all add: action_of_table tokens\<close>)
  with p' Nil show ?thesis by (auto simp: conf_def)
next
  case (Cons e ts')
  obtain t w where e: "e = (t, w)" by (cases e)
  from run_token(2) [OF assms(1) _ assms(2) Cons [unfolded e], of it] obtain p' where p': "parse_loop it p = parse_loop it p'"
    "conf p' [(1, v), (0, None)] t r" "0 < t" by auto
  from run_error [OF p'(2), of it] p'(1,3) Cons show ?thesis by (auto simp: action_of_table tokens)
qed

definition closing :: "nat \<Rightarrow> int" where "closing s = (if s = 10 then 93 else 125)"
definition collection :: "nat \<Rightarrow> scalar_t list \<Rightarrow> value_t" where
  "collection s xs = (if s = 10 then Sequence_t xs else Tuple_t xs)"

lemma run_close:
  assumes "conf p ((series_state s, Some i) # [(s, None), (0, None)]) (closing s) r" "s = 10 \<or> s = 11"
    and "cells p ! i = SEQ xs" "i < length (cells p)"
  shows "\<exists>p' j. parse_loop it p = parse_loop it p' \<and> conf p' [(1, j), (0, None)] UNDETERMINED (collection s xs) \<and>
    d_scanner p' = d_scanner p"
proof -
  define k st g where k: "k = (if s = 10 then 13 else 14 :: nat)" and st: "st = (if s = 10 then 16 else 18 :: nat)"
    and g: "g = (if s = 10 then 3 else 4 :: nat)"
  have t: "action_of (series_state s) (closing s) = Some (int st)" "0 < int st" "series_state s < 20" "closing s \<noteq> UNDETERMINED" "st < 20"
    "st \<notin> {0, 1, 10, 11, 12, 13, 15, 17}" "action_of st UNDETERMINED = Some (- int k)" "0 < k" "s_productionInfo ! k = (if s = 10 then 272 else 273, 3)"
    "action_of 0 (if s = 10 then 272 else 273) = Some (int g)" "0 < g" "k = 13 \<or> k = 14"
    using assms(2) by (auto simp: action_of_table tokens s_productionInfo_def series_state_def closing_def k st g)
  obtain p1 where 1: "parse_loop it p = parse_loop it p1"
    "conf p1 ((st, None) # (series_state s, Some i) # [(s, None), (0, None)]) UNDETERMINED r"
    "d_scanner p1 = d_scanner p" "cells p1 = cells p"
    using run_shift [OF assms(1) t(3,1,2,4), of it] by auto
  let ?p2 = "p1\<lparr>d_val := Some (length (cells p1)), cells := (cells p1 @ [SEQ xs])[i := SEQ []]\<rparr>"
  have e: "execute_action it k p1 = (Inr (), ?p2)"
    using exec_bracket [of p1 "(st, None)" "series_state s" i s "[(0, None)]" xs k it] conf_simps [OF 1(2)] assms(3,4) 1(4) t(12) by simp
  have "\<exists>p'. parse_loop it p1 = parse_loop it p' \<and> conf p' ((g, d_val ?p2) # (0, None) # []) UNDETERMINED (result ?p2) \<and>
    d_scanner p' = d_scanner ?p2 \<and> cells p' = cells ?p2"
    by (rule run_production [OF 1(2) t(5) disjI1 [OF t(6)] t(7-9) _ _ t(10,11) _ e])
      (use conf_simps [OF 1(2)] in \<open>auto simp: tokens\<close>)
  then obtain p3 where 3: "parse_loop it p1 = parse_loop it p3" "conf p3 ((g, Some (length (cells p))) # (0, None) # []) UNDETERMINED r"
    "d_scanner p3 = d_scanner p" "cells p3 = (cells p @ [SEQ xs])[i := SEQ []]"
    using 1(3,4) conf_simps [OF 1(2)] by auto
  have c: "cells p3 ! length (cells p) = SEQ xs" using 3(4) assms(4) by (simp add: list_update_append nth_append)
  show ?thesis
    using run_expression(2) [OF 3(2) _ c, of it] run_expression(3) [OF 3(2) _ c, of it] 1(1) 3(1,3) assms(2)
    by (auto simp: g collection_def; blast)
qed


subsection \<open>A recursive descent parser for the grammar\<close>

datatype 'a parsed = Parsed 'a "(int \<times> string) list" | Rejected | Failed error

fun ref_series ::
  "(string \<Rightarrow> error + string) \<Rightarrow> int \<Rightarrow> scalar_t list \<Rightarrow> (int \<times> string) list \<Rightarrow> scalar_t list parsed" where
  "ref_series it close xs [] = Rejected"
| "ref_series it close xs ((t, w) # ts) =
     (if t = close then Parsed xs ts
      else if t = 44 then
        (case ts of
           [] \<Rightarrow> Rejected
         | (t', w') # ts' \<Rightarrow>
             if is_scalar_token t' then
               (case scalar_of it t' w' of
                  Inl e \<Rightarrow> Failed e
                | Inr x \<Rightarrow> ref_series it close (xs @ [x]) ts')
             else Rejected)
      else Rejected)"

definition ref_elements ::
  "(string \<Rightarrow> error + string) \<Rightarrow> int \<Rightarrow> (int \<times> string) list \<Rightarrow> scalar_t list parsed" where
  "ref_elements it close ts =
     (case ts of
        [] \<Rightarrow> Rejected
      | (t, w) # ts' \<Rightarrow>
          if is_scalar_token t then
            (case scalar_of it t w of Inl e \<Rightarrow> Failed e | Inr x \<Rightarrow> ref_series it close [x] ts')
          else if t = close then Parsed [] ts' else Rejected)"

definition map_parsed :: "('a \<Rightarrow> 'b) \<Rightarrow> 'a parsed \<Rightarrow> 'b parsed" where
  "map_parsed f r = (case r of Parsed x ts \<Rightarrow> Parsed (f x) ts | Rejected \<Rightarrow> Rejected | Failed e \<Rightarrow> Failed e)"

definition ref_expression :: "(string \<Rightarrow> error + string) \<Rightarrow> (int \<times> string) list \<Rightarrow> value_t parsed" where
  "ref_expression it ts =
     (case ts of
        [] \<Rightarrow> Rejected
      | (t, w) # ts' \<Rightarrow>
          if is_scalar_token t then
            (case scalar_of it t w of Inl e \<Rightarrow> Failed e | Inr x \<Rightarrow> Parsed (Scalar_t x) ts')
          else if t = 91 then map_parsed Sequence_t (ref_elements it 93 ts')
          else if t = 123 then map_parsed Tuple_t (ref_elements it 125 ts')
          else Rejected)"

text \<open>What a run from \<open>p\<close> with result \<open>r\<close> comes to: back in state 1 with a value, or an end.\<close>

definition runs_to :: "(string \<Rightarrow> error + string) \<Rightarrow> parser \<Rightarrow> value_t \<Rightarrow> value_t parsed \<Rightarrow> bool" where
  "runs_to it p r out \<longleftrightarrow>
     (case out of
        Parsed v ts \<Rightarrow> \<exists>p' j. parse_loop it p = parse_loop it p' \<and> conf p' [(1, j), (0, None)] UNDETERMINED v \<and>
          reads (d_scanner p') ts
      | Rejected \<Rightarrow> \<exists>p'. parse_loop it p = Some (PARSE_ABORT, p') \<and> result p' = r
      | Failed e \<Rightarrow> \<exists>p' e'. parse_loop it p = Some (Throw e', p') \<and> result p' = r \<and> exceptionHandler (Throw e) = Throw e')"

lemma runs_to_step: "parse_loop it p = parse_loop it p' \<Longrightarrow> runs_to it p' r x \<Longrightarrow> runs_to it p r x"
  by (simp add: runs_to_def cong: parsed.case_cong)

lemma runs_to_Rejected: "\<exists>p'. parse_loop it p = Some (PARSE_ABORT, p') \<and> result p' = r \<Longrightarrow> runs_to it p r Rejected"
  by (simp add: runs_to_def)

lemma small_states: "s = 10 \<or> s = 11 \<Longrightarrow> s < 20" "series_state s < 20"
  by (auto simp: series_state_def)

lemma series_state_reads: "series_state s \<in> {0, 1, 10, 11, 12, 13, 15, 17}"
  by (auto simp: series_state_def)

lemma not_closing: "t \<noteq> closing s \<Longrightarrow> action_of (series_state s) t = None"
  by (cases "s = 10") (auto simp: action_of_table series_state_def closing_def)

lemma run_series:
  assumes "s = 10 \<or> s = 11"
  shows "conf p ((13, Some i) # [(s, None), (0, None)]) UNDETERMINED r \<Longrightarrow> cells p ! i = SEQ xs \<Longrightarrow> i < length (cells p) \<Longrightarrow>
    reads (d_scanner p) ts \<Longrightarrow> runs_to it p r (map_parsed (collection s) (ref_series it (closing s) xs ts))"
proof (induction it "closing s" xs ts arbitrary: p rule: ref_series.induct)
  case (1 it xs)
  from run_token(1) [OF 1(1) _ 1(4) refl, of it] obtain p1 where p1: "parse_loop it p = parse_loop it p1"
    "conf p1 ((13, Some i) # [(s, None), (0, None)]) EOF r" "cells p1 = cells p" by auto
  from run_series_done [OF p1(2) assms, of xs it] 1(2) p1(3) obtain p2 where p2: "parse_loop it p1 = parse_loop it p2"
    "conf p2 ((series_state s, Some i) # [(s, None), (0, None)]) EOF r" by (auto simp: tokens)
  have "\<exists>p'. parse_loop it p2 = Some (PARSE_ABORT, p') \<and> result p' = r"
    by (rule run_error [OF p2(2)]) (use assms small_states in \<open>auto simp: tokens closing_def intro!: not_closing\<close>)
  with p1(1) p2(1) show ?case by (simp add: map_parsed_def runs_to_def)
next
  case (2 it xs t w ts)
  from run_token(2) [OF 2(2) _ 2(5) refl, of it] obtain p1 where p1: "parse_loop it p = parse_loop it p1"
    "conf p1 ((13, Some i) # [(s, None), (0, None)]) t r" "cells p1 = cells p" "reads (d_scanner p1) ts" "0 < t" by auto
  then have u: "t \<noteq> UNDETERMINED" by (simp add: tokens)
  show ?case
  proof (cases "t = 44")
    case False
    from run_series_done [OF p1(2) assms, of xs it] 2(3) p1(3) u False obtain p2 where p2: "parse_loop it p1 = parse_loop it p2"
      "conf p2 ((series_state s, Some i) # [(s, None), (0, None)]) t r" "cells p2 = cells p" "d_scanner p2 = d_scanner p1" by auto
    show ?thesis
    proof (cases "t = closing s")
      case True
      from run_close [OF p2(2) [unfolded True] assms, of xs it] 2(3,4) p2(3) obtain p3 j where "parse_loop it p2 = parse_loop it p3"
        "conf p3 [(1, j), (0, None)] UNDETERMINED (collection s xs)" "d_scanner p3 = d_scanner p2" by auto
      with p1 p2 True show ?thesis by (auto simp: map_parsed_def runs_to_def)
    next
      case no: False
      have "\<exists>p'. parse_loop it p2 = Some (PARSE_ABORT, p') \<and> result p' = r"
        by (rule run_error [OF p2(2) u not_closing [OF no]]) (use assms small_states in auto)
      with p1(1) p2(1) False no show ?thesis by (simp add: map_parsed_def runs_to_def)
    qed
  next
    case True
    then have nc: "t \<noteq> closing s" by (simp add: closing_def)
    have "action_of 13 t = Some 17" using True by (simp add: action_of_table)
    from run_shift [OF p1(2) _ this _ u, of it] obtain p2 where p2: "parse_loop it p1 = parse_loop it p2"
      "conf p2 ((17, None) # (13, Some i) # [(s, None), (0, None)]) UNDETERMINED r" "d_scanner p2 = d_scanner p1" "cells p2 = cells p"
      using p1(3) by auto
    have r2: "reads (d_scanner p2) ts" using p1(4) p2(3) by simp
    have abort: "\<exists>p'. parse_loop it p3 = Some (PARSE_ABORT, p') \<and> result p' = r"
      if "conf p3 ((17, None) # (13, Some i) # [(s, None), (0, None)]) t' r" "\<not> is_scalar_token t'" "t' \<noteq> 269" "t' \<noteq> UNDETERMINED" for p3 t'
      by (rule run_error [OF that(1,4)]) (use that(2,3) assms small_states in \<open>auto simp: action_of_table is_scalar_token_def\<close>)
    show ?thesis
    proof (cases ts)
      case Nil
      from run_token(1) [OF p2(2) _ r2 Nil, of it] obtain p3 where p3: "parse_loop it p2 = parse_loop it p3"
        "conf p3 ((17, None) # (13, Some i) # [(s, None), (0, None)]) EOF r" by auto
      from abort [OF p3(2)] p1(1) p2(1) p3(1) True nc Nil show ?thesis
        by (simp add: map_parsed_def runs_to_def tokens is_scalar_token_def)
    next
      case (Cons e ts')
      obtain t' w' where e: "e = (t', w')" by (cases e)
      from run_token(2) [OF p2(2) _ r2 Cons [unfolded e], of it] obtain p3 where p3: "parse_loop it p2 = parse_loop it p3"
        "conf p3 ((17, None) # (13, Some i) # [(s, None), (0, None)]) t' r" "cells p3 = cells p"
        "matched (d_scanner p3) = w'" "reads (d_scanner p3) ts'" "0 < t'" "t' < 262" using p2(4) by auto
      show ?thesis
      proof (cases "is_scalar_token t'")
        case no: False
        from abort [OF p3(2) no] p3(6,7) p1(1) p2(1) p3(1) True nc Cons e no show ?thesis
          by (simp add: map_parsed_def runs_to_def tokens)
      next
        case sc: True
        note rs = run_scalar [OF p3(2) _ sc, where it = it, unfolded p3(4)]
        show ?thesis
        proof (cases "scalar_of it t' w'")
          case (Inl err)
          with rs(2) [of err] p1(1) p2(1) p3(1) True nc Cons e sc show ?thesis
            by (auto simp: map_parsed_def runs_to_def)
        next
          case (Inr x)
          from rs(1) [of x] Inr obtain p4 where p4: "parse_loop it p3 = parse_loop it p4"
            "conf p4 ((19, Some (length (cells p))) # (17, None) # (13, Some i) # [(s, None), (0, None)]) UNDETERMINED r"
            "d_scanner p4 = d_scanner p3" "cells p4 = cells p @ [SCL x]"
            using p3(3) by (auto simp: scalar_state_def)
          from run_next [OF p4(2) assms, of xs x it] 2(3,4) p4(4) obtain p5 where p5: "parse_loop it p4 = parse_loop it p5"
            "conf p5 ((13, Some i) # [(s, None), (0, None)]) UNDETERMINED r" "d_scanner p5 = d_scanner p3"
            "cells p5 = (cells p @ [SCL x])[i := SEQ (xs @ [x])]" using p4(3) by (auto simp: nth_append)
          have "runs_to it p5 r (map_parsed (collection s) (ref_series it (closing s) (xs @ [x]) ts'))"
            by (rule 2(1) [OF nc True Cons e [symmetric] sc Inr p5(2)])
              (use 2(4) p3(5) p5(3,4) in \<open>simp_all add: nth_list_update nth_append\<close>)
          moreover have "parse_loop it p = parse_loop it p5" using p1(1) p2(1) p3(1) p4(1) p5(1) by simp
          ultimately show ?thesis using True nc Cons e sc Inr by (auto intro: runs_to_step)
        qed
      qed
    qed
  qed
qed


lemma run_elements:
  assumes "s = 10 \<or> s = 11" "conf p [(s, None), (0, None)] UNDETERMINED r" "reads (d_scanner p) ts"
  shows "runs_to it p r (map_parsed (collection s) (ref_elements it (closing s) ts))"
proof -
  have sr: "s \<in> {0, 1, 10, 11, 12, 13, 15, 17}" "s < 20" using assms(1) by auto
  have empty: "runs_to it p1 r (if t = closing s then Parsed (collection s []) ts' else Rejected)"
    if "conf p1 [(s, None), (0, None)] t r" "\<not> is_scalar_token t" "t \<notin> {269, 270, 271}" "t \<noteq> UNDETERMINED"
      "t = closing s \<longrightarrow> reads (d_scanner p1) ts'" for p1 t ts'
  proof -
    from run_empty [OF that(1) assms(1) that(2-4), of it] obtain p2 where p2: "parse_loop it p1 = parse_loop it p2"
      "conf p2 ((series_state s, Some (length (cells p1))) # [(s, None), (0, None)]) t r" "d_scanner p2 = d_scanner p1"
      "cells p2 = cells p1 @ [SEQ []]" by auto
    show ?thesis
    proof (cases "t = closing s")
      case True
      from run_close [OF p2(2) [unfolded True] assms(1), of "[]" it] p2(4) obtain p3 j where "parse_loop it p2 = parse_loop it p3"
        "conf p3 [(1, j), (0, None)] UNDETERMINED (collection s [])" "d_scanner p3 = d_scanner p2" by auto
      with p2 True that(5) show ?thesis by (auto simp: runs_to_def)
    next
      case False
      have "\<exists>p'. parse_loop it p2 = Some (PARSE_ABORT, p') \<and> result p' = r"
        by (rule run_error [OF p2(2) that(4) not_closing [OF False]]) (use assms(1) small_states in auto)
      with p2(1) False show ?thesis by (simp add: runs_to_def)
    qed
  qed
  show ?thesis
  proof (cases ts)
    case Nil
    from run_token(1) [OF assms(2) sr(1) assms(3) Nil, of it] obtain p1 where p1: "parse_loop it p = parse_loop it p1"
      "conf p1 [(s, None), (0, None)] EOF r" by auto
    have "runs_to it p1 r (if EOF = closing s then Parsed (collection s []) [] else Rejected)"
      by (rule empty [OF p1(2)]) (auto simp: is_scalar_token_def tokens closing_def)
    with p1(1) Nil show ?thesis by (auto simp: ref_elements_def map_parsed_def closing_def tokens intro: runs_to_step split: if_splits)
  next
    case (Cons e ts')
    obtain t w where e: "e = (t, w)" by (cases e)
    from run_token(2) [OF assms(2) sr(1) assms(3) Cons [unfolded e], of it] obtain p1 where p1: "parse_loop it p = parse_loop it p1"
      "conf p1 [(s, None), (0, None)] t r" "cells p1 = cells p" "matched (d_scanner p1) = w" "reads (d_scanner p1) ts'" "0 < t" "t < 262" by auto
    show ?thesis
    proof (cases "is_scalar_token t")
      case False
      have "runs_to it p1 r (if t = closing s then Parsed (collection s []) ts' else Rejected)"
        by (rule empty [OF p1(2) False]) (use p1(5-7) in \<open>auto simp: tokens\<close>)
      with p1(1) Cons e False show ?thesis
        by (auto simp: ref_elements_def map_parsed_def intro: runs_to_step split: if_splits)
    next
      case True
      have s: "s \<in> {0, 10, 11, 17}" using assms(1) by auto
      note rs = run_scalar [OF p1(2) s True, where it = it, unfolded p1(4)]
      show ?thesis
      proof (cases "scalar_of it t w")
        case (Inl err)
        with rs(2) [of err] p1(1) Cons e True show ?thesis by (auto simp: ref_elements_def map_parsed_def runs_to_def)
      next
        case (Inr x)
        from rs(1) [of x] Inr obtain p2 where p2: "parse_loop it p1 = parse_loop it p2"
          "conf p2 ((14, Some (length (cells p))) # [(s, None), (0, None)]) UNDETERMINED r"
          "d_scanner p2 = d_scanner p1" "cells p2 = cells p @ [SCL x]"
          using p1(3) assms(1) by (auto simp: scalar_state_def)
        from run_first [OF p2(2) assms(1), of x it] p2(4) obtain p3 where p3: "parse_loop it p2 = parse_loop it p3"
          "conf p3 ((13, Some (length (cells p2))) # [(s, None), (0, None)]) UNDETERMINED r" "d_scanner p3 = d_scanner p2"
          "cells p3 = cells p2 @ [SEQ [x]]" by auto
        have "runs_to it p3 r (map_parsed (collection s) (ref_series it (closing s) [x] ts'))"
          by (rule run_series [OF assms(1) p3(2)]) (use p1(5) p2(3) p3(3,4) in simp_all)
        moreover have "parse_loop it p = parse_loop it p3" using p1(1) p2(1) p3(1) by simp
        ultimately show ?thesis using Cons e True Inr by (auto simp: ref_elements_def intro: runs_to_step)
      qed
    qed
  qed
qed

lemma run_start:
  assumes "conf p [(0, None)] UNDETERMINED r" "reads (d_scanner p) ts"
  shows "runs_to it p r (ref_expression it ts)"
proof (cases ts)
  case Nil
  from run_token(1) [OF assms(1) _ assms(2) Nil, of it] obtain p1 where p1: "parse_loop it p = parse_loop it p1"
    "conf p1 [(0, None)] EOF r" by auto
  have "\<exists>p'. parse_loop it p1 = Some (PARSE_ABORT, p') \<and> result p' = r"
    by (rule run_error [OF p1(2)]) (auto simp: tokens action_of_table)
  with p1 Nil show ?thesis by (simp add: ref_expression_def runs_to_def)
next
  case (Cons e ts')
  obtain t w where e: "e = (t, w)" by (cases e)
  from run_token(2) [OF assms(1) _ assms(2) Cons [unfolded e], of it] obtain p1 where p1: "parse_loop it p = parse_loop it p1"
    "conf p1 [(0, None)] t r" "matched (d_scanner p1) = w" "reads (d_scanner p1) ts'" "0 < t" "t < 262" by auto
  then have u: "t \<noteq> UNDETERMINED" by (simp add: tokens)
  consider (scalar) "is_scalar_token t" | (bracket) s :: nat where "s = 10 \<or> s = 11" "t = (if s = 10 then 91 else 123)"
    | (other) "\<not> is_scalar_token t" "t \<noteq> 91" "t \<noteq> 123"
    by (cases "t = 91"; cases "t = 123") fastforce+
  then show ?thesis
  proof cases
    case scalar
    note rs = run_scalar [OF p1(2) _ scalar, where it = it, unfolded p1(3)]
    show ?thesis
    proof (cases "scalar_of it t w")
      case (Inl err)
      with rs(2) [of err] p1(1) Cons e scalar show ?thesis by (auto simp: ref_expression_def runs_to_def)
    next
      case (Inr x)
      from rs(1) [of x] Inr obtain p2 where p2: "parse_loop it p1 = parse_loop it p2"
        "conf p2 [(2, Some (length (cells p1))), (0, None)] UNDETERMINED r"
        "d_scanner p2 = d_scanner p1" "cells p2 = cells p1 @ [SCL x]"
        by (auto simp: scalar_state_def)
      from run_expression(1) [OF p2(2) refl, of x it] p2(4) obtain p3 where "parse_loop it p2 = parse_loop it p3"
        "conf p3 [(1, Some (length (cells p1))), (0, None)] UNDETERMINED (Scalar_t x)" "d_scanner p3 = d_scanner p2" by auto
      with p1(1,4) p2(1,3) Cons e scalar Inr show ?thesis by (auto simp: ref_expression_def runs_to_def)
    qed
  next
    case (bracket s)
    have "action_of 0 t = Some (int s)" using bracket by (auto simp: action_of_table)
    from run_shift [OF p1(2) _ this _ u, of it] bracket(1) obtain p2 where p2: "parse_loop it p1 = parse_loop it p2"
      "conf p2 [(s, None), (0, None)] UNDETERMINED r" "d_scanner p2 = d_scanner p1" by auto
    have "runs_to it p2 r (map_parsed (collection s) (ref_elements it (closing s) ts'))"
      by (rule run_elements [OF bracket(1) p2(2)]) (use p1(4) p2(3) in simp)
    then have "runs_to it p r (map_parsed (collection s) (ref_elements it (closing s) ts'))"
      using p1(1) p2(1) by (auto intro: runs_to_step)
    moreover have "collection 10 = Sequence_t" "collection 11 = Tuple_t" "closing 10 = 93" "closing 11 = 125"
      by (auto simp: collection_def closing_def fun_eq_iff)
    ultimately show ?thesis using bracket Cons e by (auto simp: ref_expression_def is_scalar_token_def)
  next
    case other
    have "\<exists>p'. parse_loop it p1 = Some (PARSE_ABORT, p') \<and> result p' = r"
      by (rule run_error [OF p1(2) u]) (use other p1(6) in \<open>auto simp: action_of_table is_scalar_token_def\<close>)
    with p1(1) Cons e other show ?thesis by (simp add: ref_expression_def runs_to_def)
  qed
qed

definition verdict :: "value_t parsed \<Rightarrow> (error + nat) \<times> value_t" where
  "verdict r =
     (case r of
        Parsed v ts \<Rightarrow> (Inr (if ts = [] then 0 else 1), v)
      | Rejected \<Rightarrow> (Inr 1, default_value)
      | Failed e \<Rightarrow> (Inl (if e = Undefined then Undefined else Runtime parse_error), default_value))"

lemma parse_verdict:
  assumes "reads sc ts"
  shows "\<exists>p'. parse it (new_parser sc) = Some (fst (verdict (ref_expression it ts)), p') \<and>
    result p' = snd (verdict (ref_expression it ts))"
proof -
  define p where "p = snd (st_then (push_state 0) (\<lambda>_. clearin) (new_parser sc))"
  have p: "conf p [(0, None)] UNDETERMINED default_value" "reads (d_scanner p) ts"
    using assms by (simp_all add: p_def st_then_def pact_defs clearin_def new_parser_def conf_def)
  note r = run_start [OF p, of it]
  show ?thesis
  proof (cases "ref_expression it ts")
    case (Parsed v ts')
    with r obtain p' j where p': "parse_loop it p = parse_loop it p'" "conf p' [(1, j), (0, None)] UNDETERMINED v"
      "reads (d_scanner p') ts'" by (auto simp: runs_to_def)
    from run_end [OF p'(2,3), of it] p'(1) Parsed show ?thesis
      by (auto simp: parse_def p_def [symmetric] verdict_def)
  next
    case Rejected
    with r show ?thesis by (auto simp: runs_to_def parse_def p_def [symmetric] verdict_def)
  next
    case (Failed e)
    with r show ?thesis
      by (auto simp: runs_to_def parse_def p_def [symmetric] verdict_def exceptionHandler_def split: if_splits)
  qed
qed


subsection \<open>The grammar\<close>

text \<open>
  The rules of \<open>grammar.bisonc++\<close> with the values of their semantic actions, over tokens (number
  and text). The tokens \<open>[\<close>, \<open>]\<close>, \<open>{\<close>, \<open>}\<close> and the comma are their character codes.
\<close>

inductive scalar_g :: "(string \<Rightarrow> error + string) \<Rightarrow> (int \<times> string) list \<Rightarrow> scalar_t \<Rightarrow> bool" for it where
  "is_scalar_token t \<Longrightarrow> scalar_of it t w = Inr x \<Longrightarrow> scalar_g it [(t, w)] x"

inductive series_g :: "(string \<Rightarrow> error + string) \<Rightarrow> (int \<times> string) list \<Rightarrow> scalar_t list \<Rightarrow> bool" for it where
  first: "scalar_g it ts x \<Longrightarrow> series_g it ts [x]"
| more: "series_g it ts xs \<Longrightarrow> scalar_g it us x \<Longrightarrow> series_g it (ts @ [(44, w)] @ us) (xs @ [x])"

inductive opt_series_g :: "(string \<Rightarrow> error + string) \<Rightarrow> (int \<times> string) list \<Rightarrow> scalar_t list \<Rightarrow> bool" for it where
  empty: "opt_series_g it [] []"
| series: "series_g it ts xs \<Longrightarrow> opt_series_g it ts xs"

inductive expression_g :: "(string \<Rightarrow> error + string) \<Rightarrow> (int \<times> string) list \<Rightarrow> value_t \<Rightarrow> bool" for it where
  scalar: "scalar_g it ts x \<Longrightarrow> expression_g it ts (Scalar_t x)"
| sequence: "opt_series_g it ts xs \<Longrightarrow> expression_g it ([(91, w)] @ ts @ [(93, w')]) (Sequence_t xs)"
| tuple: "opt_series_g it ts xs \<Longrightarrow> expression_g it ([(123, w)] @ ts @ [(125, w')]) (Tuple_t xs)"

text \<open>The tail of a series, read from the left.\<close>

inductive tail_g :: "(string \<Rightarrow> error + string) \<Rightarrow> (int \<times> string) list \<Rightarrow> scalar_t list \<Rightarrow> bool" for it where
  nil: "tail_g it [] []"
| cons: "scalar_g it [e] x \<Longrightarrow> tail_g it ts xs \<Longrightarrow> tail_g it ((44, w) # e # ts) (x # xs)"

lemma scalar_g_iff: "scalar_g it ts x \<longleftrightarrow> (\<exists>t w. ts = [(t, w)] \<and> is_scalar_token t \<and> scalar_of it t w = Inr x)"
  by (auto simp: scalar_g.simps)

lemma tail_snoc: "tail_g it ts xs \<Longrightarrow> scalar_g it [e] x \<Longrightarrow> tail_g it (ts @ [(44, w), e]) (xs @ [x])"
proof (induction rule: tail_g.induct)
  case nil
  then show ?case using tail_g.cons [OF nil tail_g.nil] by simp
next
  case (cons e' x' ts xs w')
  then show ?case using tail_g.cons [OF cons(1)] by simp
qed

lemma series_split: "series_g it ts xs \<longleftrightarrow> (\<exists>e x us ys. ts = e # us \<and> xs = x # ys \<and> scalar_g it [e] x \<and> tail_g it us ys)"
proof
  show "series_g it ts xs \<Longrightarrow> \<exists>e x us ys. ts = e # us \<and> xs = x # ys \<and> scalar_g it [e] x \<and> tail_g it us ys"
  proof (induction rule: series_g.induct)
    case (first ts x)
    then obtain e where "ts = [e]" by (auto simp: scalar_g_iff)
    with first tail_g.nil show ?case by blast
  next
    case (more ts xs us x w)
    then obtain e where "us = [e]" by (auto simp: scalar_g_iff)
    with more tail_snoc [of it _ _ e x w] show ?case by fastforce
  qed
next
  have "tail_g it us ys \<Longrightarrow> series_g it ts xs \<Longrightarrow> series_g it (ts @ us) (xs @ ys)" for us ys ts xs
  proof (induction arbitrary: ts xs rule: tail_g.induct)
    case (cons e x us ys w)
    from cons(3) [OF series_g.more [OF cons(4,1), of w]] show ?case by simp
  qed simp
  from this [of _ _ "[_]" "[_]"] show "\<exists>e x us ys. ts = e # us \<and> xs = x # ys \<and> scalar_g it [e] x \<and> tail_g it us ys \<Longrightarrow> series_g it ts xs"
    by (auto dest: series_g.first)
qed

lemma not_scalar_tokens: "\<not> is_scalar_token 44" "\<not> is_scalar_token 91" "\<not> is_scalar_token 93"
  "\<not> is_scalar_token 123" "\<not> is_scalar_token 125"
  by (simp_all add: is_scalar_token_def)

lemma ref_series_iff:
  assumes "close \<noteq> 44"
  shows "ref_series it close xs ts = Parsed zs ts' \<longleftrightarrow>
    (\<exists>us ys w. ts = us @ (close, w) # ts' \<and> tail_g it us ys \<and> zs = xs @ ys)"
proof
  show "ref_series it close xs ts = Parsed zs ts' \<Longrightarrow> \<exists>us ys w. ts = us @ (close, w) # ts' \<and> tail_g it us ys \<and> zs = xs @ ys"
    using assms
  proof (induction it close xs ts rule: ref_series.induct)
    case (2 it close xs t w ts)
    show ?case
    proof (cases "t = close")
      case True
      with 2(2) show ?thesis by (auto intro!: exI [of _ "[]"] tail_g.nil)
    next
      case False
      with 2(2) have t: "t = 44" by (auto split: if_splits)
      with False 2(2) obtain t' w' us where ts: "ts = (t', w') # us" by (auto split: list.splits)
      with 2(2) False t have s: "is_scalar_token t'" by (auto split: if_splits)
      with 2(2) False t ts obtain x where x: "scalar_of it t' w' = Inr x" by (auto split: sum.splits)
      from 2(1) [OF False t ts refl s x] 2(2,3) False t ts s x obtain vs ys w1 where
        v: "us = vs @ (close, w1) # ts'" "tail_g it vs ys" "zs = (xs @ [x]) @ ys" by auto
      have "tail_g it ((44, w) # (t', w') # vs) (x # ys)" by (rule tail_g.cons [OF _ v(2)]) (simp add: scalar_g_iff s x)
      with v ts t show ?thesis by (metis append_Cons append_Nil append_assoc)
    qed
  qed simp
next
  have "tail_g it us ys \<Longrightarrow> ref_series it close xs (us @ (close, w) # ts') = Parsed (xs @ ys) ts'" for us ys w xs
  proof (induction arbitrary: xs rule: tail_g.induct)
    case (cons e x us ys w)
    then show ?case using assms by (cases e) (auto simp: scalar_g_iff)
  qed simp
  then show "\<exists>us ys w. ts = us @ (close, w) # ts' \<and> tail_g it us ys \<and> zs = xs @ ys \<Longrightarrow> ref_series it close xs ts = Parsed zs ts'"
    by auto
qed

lemma ref_elements_iff:
  assumes "close \<noteq> 44" "\<not> is_scalar_token close"
  shows "ref_elements it close ts = Parsed zs ts' \<longleftrightarrow> (\<exists>us w. ts = us @ (close, w) # ts' \<and> opt_series_g it us zs)"
proof (cases ts)
  case Nil
  then show ?thesis by (simp add: ref_elements_def)
next
  case (Cons e us)
  obtain t w where e: "e = (t, w)" by (cases e)
  show ?thesis
  proof (cases "is_scalar_token t")
    case True
    with assms(2) have "t \<noteq> close" by auto
    then show ?thesis
      using True assms(1) Cons e
      by (cases "scalar_of it t w")
        (auto simp: ref_elements_def ref_series_iff opt_series_g.simps series_split scalar_g_iff Cons_eq_append_conv)
  next
    case False
    then show ?thesis
      using assms Cons e
      by (auto simp: ref_elements_def opt_series_g.simps series_split scalar_g_iff Cons_eq_append_conv)
  qed
qed

lemma map_parsed_eq: "map_parsed f r = Parsed v ts \<longleftrightarrow> (\<exists>x. r = Parsed x ts \<and> v = f x)"
  by (cases r) (auto simp: map_parsed_def)

lemma ref_expression_iff: "ref_expression it ts = Parsed v ts' \<longleftrightarrow> (\<exists>us. ts = us @ ts' \<and> expression_g it us v)"
proof (cases ts)
  case Nil
  then show ?thesis by (auto simp: ref_expression_def expression_g.simps scalar_g_iff)
next
  case (Cons e us)
  obtain t w where e: "e = (t, w)" by (cases e)
  have el: "ref_elements it 93 us = Parsed zs vs \<longleftrightarrow> (\<exists>us' w. us = us' @ (93, w) # vs \<and> opt_series_g it us' zs)"
    "ref_elements it 125 us = Parsed zs vs \<longleftrightarrow> (\<exists>us' w. us = us' @ (125, w) # vs \<and> opt_series_g it us' zs)" for zs vs
    by (rule ref_elements_iff; simp add: not_scalar_tokens)+
  consider "is_scalar_token t" | "t = 91" | "t = 123" | "\<not> is_scalar_token t" "t \<noteq> 91" "t \<noteq> 123" by blast
  then show ?thesis
  proof cases
    case 1
    then show ?thesis using Cons e not_scalar_tokens
      by (cases "scalar_of it t w") (auto simp: ref_expression_def expression_g.simps scalar_g_iff Cons_eq_append_conv)
  next
    case 2
    then show ?thesis using Cons e not_scalar_tokens
      by (auto simp: ref_expression_def map_parsed_eq expression_g.simps scalar_g_iff Cons_eq_append_conv el)
  next
    case 3
    then show ?thesis using Cons e not_scalar_tokens
      by (auto simp: ref_expression_def map_parsed_eq expression_g.simps scalar_g_iff Cons_eq_append_conv el)
  next
    case 4
    then show ?thesis using Cons e
      by (auto simp: ref_expression_def expression_g.simps scalar_g_iff Cons_eq_append_conv)
  qed
qed


subsection \<open>The tokens of a text\<close>

lemma next_token_shorter: "next_token w = (t, v, u) \<Longrightarrow> w \<noteq> [] \<Longrightarrow> length u < length w"
proof (induction w rule: next_token.induct)
  case (2 c w)
  show ?case
  proof (cases "longest_match (c # w)")
    case None
    with 2 show ?thesis by (cases w) auto
  next
    case (Some rn)
    obtain r n where rn: "rn = (r, n)" by (cases rn)
    note b = longest_match_bounds [OF Some [unfolded rn]]
    show ?thesis
    proof (cases "r = 5")
      case False
      with 2(3) Some rn b show ?thesis by auto
    next
      case True
      with 2(2) [OF Some rn [symmetric] True] 2(3) Some rn b show ?thesis
        by (cases "drop n (c # w) = []") auto
    qed
  qed
qed simp

lemma next_token_Nil_pos: "next_token w = (t, v, u) \<Longrightarrow> 0 < t \<Longrightarrow> w \<noteq> []"
  by auto

function all_tokens :: "string \<Rightarrow> (int \<times> string) list" where
  "all_tokens w = (case next_token w of (t, v, u) \<Rightarrow> if t \<le> 0 then [] else (t, v) # all_tokens u)"
  by pat_completeness auto
termination
proof (relation "measure length")
  fix w t v u and x :: "string \<times> string"
  assume "(t, x) = next_token w" "(v, u) = x" "\<not> t \<le> (0 :: int)"
  then show "(u, w) \<in> measure length"
    using next_token_shorter [of w t v u] next_token_Nil_pos [of w t v u] by auto
qed simp

declare all_tokens.simps [simp del]

lemma reads_all_tokens:
  "fresh s \<Longrightarrow> \<forall>c \<in> set (rest (d_input s)). \<not> is_negative c \<Longrightarrow> reads s (all_tokens (rest (d_input s)))"
proof (induction "rest (d_input s)" arbitrary: s rule: all_tokens.induct)
  case 1
  obtain t v u where n: "next_token (rest (d_input s)) = (t, v, u)" by (cases "next_token (rest (d_input s))")
  obtain s' where s': "lex s = Some (t, s')" "fresh s'" "matched s' = v" "rest (d_input s') = u"
    "set u \<subseteq> set (rest (d_input s))" using lex_next [OF 1(2,3) n] by blast
  have "t < 262" using lex_total [OF 1(2)] s'(1) by auto
  show ?case
  proof (cases "t \<le> 0")
    case True
    with n s'(1) show ?thesis by (simp add: all_tokens.simps [of "rest (d_input s)"] reads.at_end)
  next
    case False
    have "(v, rest (d_input s')) = (v, u)" using s'(4) by simp
    from 1(1) [OF n [symmetric] this False s'(2)] have "reads s' (all_tokens u)" using 1(3) s'(4,5) by auto
    with reads.token [OF s'(1) _ \<open>t < 262\<close>, of "all_tokens u"] False n s'(3)
    show ?thesis by (simp add: all_tokens.simps [of "rest (d_input s)"])
  qed
qed

lemma new_scanner_facts: "fresh (new_scanner w)" "rest (d_input (new_scanner w)) = w"
  by (simp_all add: fresh_def new_scanner_def new_input_def rest_def)

lemma reads_new_scanner: "\<forall>c \<in> set w. \<not> is_negative c \<Longrightarrow> reads (new_scanner w) (all_tokens w)"
  using reads_all_tokens [of "new_scanner w"] by (simp add: new_scanner_facts)

subsection \<open>The parser's properties\<close>

text \<open>
  C1. The parser accepts exactly the language of the grammar, with the grammar's value: for the
  tokens the scanner delivers, \<open>parse\<close> returns \<open>0\<close> with result \<open>v\<close> if and only if the grammar derives
  \<open>v\<close> from them. Shared semantic values never get mixed up.
\<close>

theorem parser_accepts_grammar:
  assumes "reads sc ts"
  shows "(\<exists>p'. parse it (new_parser sc) = Some (Inr 0, p') \<and> result p' = v) \<longleftrightarrow> expression_g it ts v"
proof -
  obtain p' where p': "parse it (new_parser sc) = Some (fst (verdict (ref_expression it ts)), p')"
    "result p' = snd (verdict (ref_expression it ts))" using parse_verdict [OF assms, of it] by blast
  show ?thesis
    using p' ref_expression_iff [of it ts _ "[]"]
    by (cases "ref_expression it ts") (auto simp: verdict_def split: if_splits)
qed

theorem parser_accepts_grammar_witness:
  "\<exists>p'. parse b64_dec (new_parser (new_scanner ''[7,#f]'')) = Some (Inr 0, p') \<and>
     result p' = Sequence_t [Integer_t 7, Boolean_t False]"
proof -
  have t: "all_tokens ''[7,#f]'' = [(91, ''[''), (258, ''7''), (44, '',''), (257, ''#f''), (93, '']'')]"
    by code_simp
  have r: "reads (new_scanner ''[7,#f]'') [(91, ''[''), (258, ''7''), (44, '',''), (257, ''#f''), (93, '']'')]"
    using reads_new_scanner [of "''[7,#f]''"] by (simp add: t is_negative_def)
  have s: "scalar_g b64_dec [(258, ''7'')] (Integer_t 7)" "scalar_g b64_dec [(257, ''#f'')] (Boolean_t False)"
    by (simp_all add: scalar_g_iff is_scalar_token_def scalar_of_def conversion_def stoi_def split_sign_def
        is_digit_def read_digits_def digit_value_def with_minus_def)
  have "expression_g b64_dec ([(91, ''['')] @ ([(258, ''7'')] @ [(44, '','')] @ [(257, ''#f'')]) @ [(93, '']'')])
     (Sequence_t ([Integer_t 7] @ [Boolean_t False]))"
    by (intro expression_g.sequence opt_series_g.series series_g.intros s)
  then show ?thesis using parser_accepts_grammar [OF r, of b64_dec] by simp
qed

lemma syntax_error_result_parts:
  assumes "reads sc ts"
  shows "ts = us @ e # vs \<Longrightarrow> expression_g it us v \<Longrightarrow>
      \<exists>p'. parse it (new_parser sc) = Some (Inr 1, p') \<and> result p' = v"
    and "\<nexists>us vs v. ts = us @ vs \<and> expression_g it us v \<Longrightarrow>
      \<exists>r p'. parse it (new_parser sc) = Some (r, p') \<and> r \<in> {Inr 1, Inl (Runtime parse_error), Inl Undefined} \<and>
        result p' = default_value"
proof -
  obtain p' where p': "parse it (new_parser sc) = Some (fst (verdict (ref_expression it ts)), p')"
    "result p' = snd (verdict (ref_expression it ts))" using parse_verdict [OF assms, of it] by blast
  show "\<exists>p'. parse it (new_parser sc) = Some (Inr 1, p') \<and> result p' = v" if "ts = us @ e # vs" "expression_g it us v"
  proof -
    have "ref_expression it ts = Parsed v (e # vs)" using that ref_expression_iff by blast
    with p' show ?thesis by (simp add: verdict_def)
  qed
  show "\<exists>r p'. parse it (new_parser sc) = Some (r, p') \<and> r \<in> {Inr 1, Inl (Runtime parse_error), Inl Undefined} \<and>
        result p' = default_value" if "\<nexists>us vs v. ts = us @ vs \<and> expression_g it us v"
  proof (cases "ref_expression it ts")
    case (Parsed v ts')
    with ref_expression_iff that show ?thesis by blast
  qed (use p' in \<open>auto simp: verdict_def\<close>)
qed



lemma scalar_of_undefined: "scalar_of it t w = Inl Undefined \<Longrightarrow> base64decode it (tl w) = Inl Undefined"
proof -
  have e: "escape_decode st s \<noteq> Inl Undefined" for st s
    by (induction st s rule: escape_decode.induct) (auto simp: and_then_def split: sum.splits option.splits)
  have d: "stoi s \<noteq> Inl Undefined" "stod s \<noteq> Inl Undefined" for s
    by (auto simp: stoi_def stod_def Let_def split: prod.split option.split)
  assume "scalar_of it t w = Inl Undefined"
  then show ?thesis
    using e [of none_st "unwrapped w"] d [of w]
    by (auto simp: scalar_of_def conversion_def and_then_def backslash_escape_decoder_def split: if_splits sum.splits)
qed

lemma scalar_of_undefined_ex: "scalar_of it t w = Inl Undefined \<Longrightarrow> \<exists>w. base64decode it w = Inl Undefined"
  using scalar_of_undefined by blast

lemma ref_series_undefined: "ref_series it close xs ts = Failed Undefined \<Longrightarrow> \<exists>w. base64decode it w = Inl Undefined"
  by (induction it close xs ts rule: ref_series.induct)
    (auto split: if_splits list.splits sum.splits intro: scalar_of_undefined_ex)

lemma ref_expression_undefined: "ref_expression it ts = Failed Undefined \<Longrightarrow> \<exists>w. base64decode it w = Inl Undefined"
  by (auto simp: ref_expression_def ref_elements_def map_parsed_def split: list.splits if_splits sum.splits parsed.splits;
      (erule scalar_of_undefined_ex | erule ref_series_undefined))



end
