(* ===== verification/Object_Visitor.thy ===== *)
theory Object_Visitor
  imports Client_Context
begin

text \<open>
  The visitor base class (\<open>object_visitor.h\<close>, \<open>object_visitor.cpp\<close>) and the double dispatch of
  \<open>accept\<close>. A visitor is the record of its virtual functions, each an operation on the state \<open>'s\<close>
  that the concrete visitor works on; its base class part is the indentation level.
\<close>

record ('e, 'g, 's) object_visitor =
  visit_object :: "addr \<Rightarrow> ('s, unit) act"
  visit_event :: "addr \<Rightarrow> ('s, unit) act"
  visit_node :: "addr \<Rightarrow> ('s, unit) act"
  visit_param :: "type_tag \<Rightarrow> addr \<Rightarrow> ('s, unit) act"

text \<open>The functions a class does not override end in \<open>visit(object*)\<close>.\<close>

definition default_visitor :: "(addr \<Rightarrow> ('s, unit) act) \<Rightarrow> ('e, 'g, 's) object_visitor" where
  "default_visitor f = \<lparr>visit_object = f, visit_event = f, visit_node = f, visit_param = (\<lambda>tag. f)\<rparr>"

definition accept :: "('e, 'g) leaf heap \<Rightarrow> ('e, 'g, 's) object_visitor \<Rightarrow> addr \<Rightarrow> ('s, unit) act" where
  "accept h v a =
     (case h a of
        None \<Rightarrow> throw Undefined
      | Some ob \<Rightarrow>
          (case accept_tag (klass ob) of
             Visit_object \<Rightarrow> visit_object v a
           | Visit_event \<Rightarrow> visit_event v a
           | Visit_node \<Rightarrow> visit_node v a
           | Visit_param tag \<Rightarrow> visit_param v tag a))"

subsection \<open>Indentation\<close>

definition indentation :: "64 word \<Rightarrow> string" where
  "indentation baselevel = concat (replicate (unat baselevel) ''  '')"

definition increment_indentation :: "64 word \<Rightarrow> 64 word \<Rightarrow> 64 word" where
  "increment_indentation levels baselevel = baselevel + levels"

definition decrement_indentation :: "64 word \<Rightarrow> 64 word \<Rightarrow> 64 word" where
  "decrement_indentation levels baselevel = (if baselevel \<ge> levels then baselevel - levels else 0)"

text \<open>The loop towards the root; \<open>None\<close> is undefined behaviour, as for \<open>fq_name\<close>.\<close>

partial_function (option) parent_indentation :: "'x heap \<Rightarrow> addr option \<Rightarrow> string option" where
  "parent_indentation h it =
     (case it of
        None \<Rightarrow> Some []
      | Some a \<Rightarrow>
          (case h a of
             None \<Rightarrow> None
           | Some ob \<Rightarrow> Option.bind (parent_indentation h (oparent ob)) (\<lambda>s. Some (''  '' @ s))))"

definition write_indentation :: "64 word \<Rightarrow> 'x heap \<Rightarrow> addr \<Rightarrow> error + string" where
  "write_indentation baselevel h te =
     (case h te of
        None \<Rightarrow> Inl Undefined
      | Some ob \<Rightarrow>
          (case parent_indentation h (oparent ob) of
             None \<Rightarrow> Inl Undefined
           | Some s \<Rightarrow> Inr (indentation baselevel @ s)))"

subsection \<open>Indentation and depth\<close>

text \<open>An object is indented by its depth: the number of objects above it.\<close>

lemma line_parent_indentation:
  assumes "tree_ok h"
  shows "line (parent_of h) a xs \<Longrightarrow> a \<in> dom h \<Longrightarrow>
    parent_indentation h (Some a) = Some (concat (replicate (length xs) ''  ''))"
proof (induction rule: line.induct)
  case (root a)
  then obtain ob where "h a = Some ob" "oparent ob = None" by (auto simp: parent_of_def split: option.splits)
  then show ?case by (simp add: parent_indentation.simps)
next
  case (up a p xs)
  then obtain ob where ob: "h a = Some ob" "oparent ob = Some p" by (auto simp: parent_of_def split: option.splits)
  have "p \<in> dom h" using parent_in_dom [OF assms up(1)] by simp
  with up(3) have "parent_indentation h (Some p) = Some (concat (replicate (length xs) ''  ''))" by simp
  then show ?case by (subst parent_indentation.simps) (simp add: ob)
qed

lemma write_indentation_depth:
  assumes "tree_ok h" "line (parent_of h) a (a # xs)" "a \<in> dom h"
  shows "write_indentation base h a = Inr (indentation base @ concat (replicate (length xs) ''  ''))"
proof -
  obtain ob where ob: "h a = Some ob" using assms(3) by blast
  show ?thesis
  proof (cases "oparent ob")
    case None
    from assms(2) have "xs = []" by (cases rule: line.cases) (auto simp: parent_of_def ob None)
    with ob None show ?thesis by (simp add: write_indentation_def parent_indentation.simps)
  next
    case (Some p)
    then have p: "parent_of h a = Some p" by (simp add: parent_of_def ob)
    from assms(2) have l: "line (parent_of h) p xs" using p by (cases rule: line.cases) auto
    have "p \<in> dom h" using parent_in_dom [OF assms(1) p] .
    from line_parent_indentation [OF assms(1) l this] ob Some
    show ?thesis by (simp add: write_indentation_def)
  qed
qed

end
