(* ===== verification/Cli_Visitors.thy ===== *)
theory Cli_Visitors
  imports Object_Visitor Cli_Codec
begin

text \<open>
  The visitors behind the CLI's discovery requests: \<open>browse_visitor\<close> prints the tree with all
  readable values, \<open>tree_visitor\<close> one line per object with its kind. Both write to a stream of
  their own; \<open>browse_visitor\<close> also reads parameters, which may run user handlers, so its state is
  the world together with the stream. \<open>h\<close> is the tree as the traversal found it: reading does not
  change names, links or levels.
\<close>

subsection \<open>browse_visitor\<close>

definition on_fst :: "('w, 'a) act \<Rightarrow> ('w \<times> 'o, 'a) act" where
  "on_fst f wo = (case wo of (w, out) \<Rightarrow> (case f w of (r, w') \<Rightarrow> (r, (w', out))))"

definition write_out :: "(ostream \<Rightarrow> ostream) \<Rightarrow> ('w \<times> ostream, unit) act" where
  "write_out f wo = (case wo of (w, out) \<Rightarrow> (Inr (), (w, f out)))"

definition print_indentation :: "'x heap \<Rightarrow> addr \<Rightarrow> ('w \<times> ostream, unit) act" where
  "print_indentation h a = (case write_indentation 0 h a of Inl e \<Rightarrow> throw e | Inr s \<Rightarrow> write_out (put s))"

definition browse_visit_object ::
  "bool \<Rightarrow> (string \<Rightarrow> string) \<Rightarrow> ('e, 'g) leaf heap \<Rightarrow> addr \<Rightarrow> (('e, 'g) world \<times> ostream, unit) act" where
  "browse_visit_object big it h a =
     (case h a of
        None \<Rightarrow> throw Undefined
      | Some ob \<Rightarrow>
          if \<not> read_interface (klass ob) then ret ()
          else st_then (print_indentation h a) (\<lambda>_.
               st_then (write_out (put ((if oparent ob \<noteq> None then '':'' else []) @ oname ob))) (\<lambda>_.
               st_then (write_out (put '' = '')) (\<lambda>_.
               st_then (on_fst (generic_value big a)) (\<lambda>g.
               st_then (write_out (encode_value it g)) (\<lambda>_.
               write_out (put [CHR 0x0A])))))))"

definition browse_visit_node :: "('e, 'g) leaf heap \<Rightarrow> addr \<Rightarrow> (('e, 'g) world \<times> ostream, unit) act" where
  "browse_visit_node h a =
     (case h a of
        None \<Rightarrow> throw Undefined
      | Some ob \<Rightarrow>
          st_then (print_indentation h a) (\<lambda>_.
          st_then (if oparent ob \<noteq> None then write_out (put '':'') else ret ()) (\<lambda>_.
          write_out (put (oname ob @ [CHR 0x0A])))))"

definition browse_visitor ::
  "bool \<Rightarrow> (string \<Rightarrow> string) \<Rightarrow> ('e, 'g) leaf heap \<Rightarrow>
   ('e, 'g, ('e, 'g) world \<times> ostream) object_visitor" where
  "browse_visitor big it h =
     (default_visitor (browse_visit_object big it h))\<lparr>visit_node := browse_visit_node h\<rparr>"

subsection \<open>tree_visitor\<close>

definition print_fq_name :: "('e, 'g) leaf heap \<Rightarrow> addr \<Rightarrow> string \<Rightarrow> ('w \<times> ostream, unit) act" where
  "print_fq_name h a text =
     (case fq_name h a of None \<Rightarrow> throw Undefined | Some s \<Rightarrow> write_out (put (s @ text)))"

definition write_param ::
  "('e, 'g) leaf heap \<Rightarrow> string \<Rightarrow> addr \<Rightarrow> ('w \<times> ostream, unit) act" where
  "write_param h type a =
     (case h a of
        None \<Rightarrow> throw Undefined
      | Some ob \<Rightarrow> print_fq_name h a ('' PARAM '' @ (if owritelevel ob = Forbidden then ''RO'' else ''RW'') @
          '' '' @ type @ [CHR 0x0A]))"

text \<open>
  The overloads of \<open>visit\<close> for the type tags; the tags without one (sequences of binaries or of
  sequences) do not compile, so no parameter has them.
\<close>

fun tag_text :: "type_tag \<Rightarrow> string" where
  "tag_text boolean_tag = ''BOOLEAN''"
| "tag_text integer_tag = ''INTEGER''"
| "tag_text real_tag = ''REAL''"
| "tag_text string_tag = ''STRING''"
| "tag_text binary_tag = ''BINARY''"
| "tag_text (sequence_tag t) = tag_text t @ ''_SEQ''"
| "tag_text tuple_tag = ''TUPLE''"

definition tree_visitor :: "('e, 'g) leaf heap \<Rightarrow> ('e, 'g, 'w \<times> ostream) object_visitor" where
  "tree_visitor h =
     \<lparr>visit_object = (\<lambda>a. print_fq_name h a ('' UNKNOWN'' @ [CHR 0x0A])),
      visit_event = (\<lambda>a. print_fq_name h a ('' EVENT'' @ [CHR 0x0A])),
      visit_node = (\<lambda>a. print_fq_name h a ('' NODE'' @ [CHR 0x0A])),
      visit_param = (\<lambda>tag. write_param h (tag_text tag))\<rparr>"

subsection \<open>What the tree visitor prints\<close>

text \<open>The line of an object, as a function of the tree.\<close>

definition kind_text :: "('e, 'g) leaf object \<Rightarrow> string" where
  "kind_text ob =
     (case klass ob of
        Plain_k \<Rightarrow> ''UNKNOWN''
      | Node_k cs \<Rightarrow> ''NODE''
      | Dictionary_k cs cc ts \<Rightarrow> ''NODE''
      | Leaf_k l \<Rightarrow>
          if event_kind (kind l) then ''EVENT''
          else ''PARAM '' @ (if owritelevel ob = Forbidden then ''RO '' else ''RW '') @
               tag_text (type_tag_of (lhint l) (ltype l)))"

definition tree_line :: "('e, 'g) leaf heap \<Rightarrow> addr \<Rightarrow> string" where
  "tree_line h a = the (fq_name h a) @ '' '' @ kind_text (the (h a)) @ [CHR 0x0A]"

lemma write_simps [simp]: "write_out f (w, out) = (Inr (), (w, f out))"
  by (simp add: write_out_def)

lemma tree_visit:
  assumes "tree_ok h" "a \<in> dom h"
  shows "accept h (tree_visitor h) a = write_out (put (tree_line h a))"
proof -
  obtain s where s: "fq_name h a = Some s" using fq_name_total [OF assms] by blast
  obtain ob where ob: "h a = Some ob" using assms(2) by blast
  show ?thesis
    by (cases "klass ob")
      (simp_all add: accept_def ob accept_tag_def tree_visitor_def print_fq_name_def write_param_def s
        tree_line_def kind_text_def)
qed

lemma each_write:
  "(\<And>x. x \<in> set xs \<Longrightarrow> f x = write_out (put (g x))) \<Longrightarrow> each f xs (w, out) = (Inr (), (w, put (concat (map g xs)) out))"
proof (induction xs arbitrary: out)
  case (Cons x xs)
  then show ?case by (simp add: st_then_def)
qed (simp add: ret_def)

text \<open>Browsing with the tree visitor prints the lines of the objects below the start, in preorder.\<close>

lemma browse_tree:
  assumes "tree_ok h" "finite (dom h)" "a \<in> dom h" "card (dom h) \<le> n"
  shows "browse_object n c h (accept h (tree_visitor h)) (Some a) (w, out) =
    (Inr (), (w, put (concat (map (tree_line h) (preorder n (effective_userlevel c) h a))) out))"
    and "distinct (preorder n (effective_userlevel c) h a)"
    and "set (preorder n (effective_userlevel c) h a) = {b. seen (effective_userlevel c) h a b}"
proof -
  obtain xs where l: "line (parent_of h) a xs" using line_exists tree_okD(4) [OF assms(1,3)] by blast
  then have "xs \<noteq> []" by (cases rule: line.cases) auto
  then have less: "card (dom h) < n + length xs" using assms(4) by (cases xs) auto
  note b = browse_preorder [OF assms(1,2) l assms(3) less, of "effective_userlevel c" "accept h (tree_visitor h)"]
  then show "distinct (preorder n (effective_userlevel c) h a)"
    and s: "set (preorder n (effective_userlevel c) h a) = {b. seen (effective_userlevel c) h a b}" by blast+
  have "b \<in> dom h" if "seen (effective_userlevel c) h a b" for b
    using that by (induction rule: seen.induct) (auto simp: assms(3) visible_def split: option.splits)
  then have "each (accept h (tree_visitor h)) (preorder n (effective_userlevel c) h a) (w, out) =
     (Inr (), (w, put (concat (map (tree_line h) (preorder n (effective_userlevel c) h a))) out))"
    using s by (intro each_write tree_visit [OF assms(1)]) auto
  then show "browse_object n c h (accept h (tree_visitor h)) (Some a) (w, out) =
    (Inr (), (w, put (concat (map (tree_line h) (preorder n (effective_userlevel c) h a))) out))"
    using b unfolding browse_object_def by metis
qed

end
