(* ===== verification/Clisrv_Context.thy ===== *)
theory Clisrv_Context
  imports Cli_Visitors Cli_Grammar
begin

text \<open>
  The request/response protocol of the command line: \<open>cli_context_base\<close> and \<open>clisrv_context\<close>
  (\<open>src/cli/cli_context_base.cpp\<close>, \<open>clisrv_context.cpp\<close>). User supplied callbacks are functions on
  the application state, like parameter handlers. Boost.Asio is modelled by what it documents: one
  operation is outstanding at a time, a write sends the whole buffer, a read completes with the
  bytes up to and including the first newline.
\<close>

subsection \<open>cli_context_base\<close>

datatype request_t = get_r | set_r | signal_r | browse_r | tree_r | subscribe_r | unsubscribe_r

record 'e cli_callbacks =
  userlevel_cb :: "client \<Rightarrow> userlevel \<Rightarrow> string \<Rightarrow> ('e, bool) handler"
  connect_event_cb :: "(bool \<Rightarrow> bool \<Rightarrow> string \<Rightarrow> ('e, unit) handler) option"
  request_cb :: "(request_t \<Rightarrow> string \<Rightarrow> string \<Rightarrow> ('e, unit) handler) option"

definition initial_callbacks :: "'e cli_callbacks" where
  "initial_callbacks =
     \<lparr>userlevel_cb = (\<lambda>c ul password e. (Inr False, e)), connect_event_cb = None, request_cb = None\<rparr>"

definition install_userlevel_callback where
  "install_userlevel_callback f (cb :: 'e cli_callbacks) = cb\<lparr>userlevel_cb := f\<rparr>"

definition install_connection_event_callback where
  "install_connection_event_callback f (cb :: 'e cli_callbacks) = cb\<lparr>connect_event_cb := f\<rparr>"

definition install_request_callback where
  "install_request_callback f (cb :: 'e cli_callbacks) = cb\<lparr>request_cb := f\<rparr>"

text \<open>\<open>if (request_cb_) request_cb_(type, request, remote_endpoint())\<close>\<close>

definition tell_request ::
  "'e cli_callbacks \<Rightarrow> request_t \<Rightarrow> string \<Rightarrow> string \<Rightarrow> (('e, 'g) world, unit) act" where
  "tell_request cb t request peer =
     (case request_cb cb of Some f \<Rightarrow> run_handler (f t request peer) | None \<Rightarrow> ret ())"

definition tell_connection ::
  "'e cli_callbacks \<Rightarrow> bool \<Rightarrow> bool \<Rightarrow> string \<Rightarrow> (('e, 'g) world, unit) act" where
  "tell_connection cb pubsub connect peer =
     (case connect_event_cb cb of Some f \<Rightarrow> run_handler (f pubsub connect peer) | None \<Rightarrow> ret ())"

subsection \<open>Reading a request line\<close>

definition is_space :: "char \<Rightarrow> bool" where
  "is_space c \<longleftrightarrow> c \<in> set [CHR 0x20, CHR 0x09, CHR 0x0A, CHR 0x0B, CHR 0x0C, CHR 0x0D]"

definition is_bracket_or_space :: "char \<Rightarrow> bool" where
  "is_bracket_or_space c \<longleftrightarrow> is_space c \<or> c = CHR ''('' \<or> c = CHR '')''"

definition trim_if :: "(char \<Rightarrow> bool) \<Rightarrow> string \<Rightarrow> string" where
  "trim_if P s = rev (dropWhile P (rev (dropWhile P s)))"

text \<open>
  \<open>stream >> word\<close>. In a trimmed request the stream is at its end exactly when no character is
  left, so the rest of the text is the whole state of the stream.
\<close>

definition read_word :: "string \<Rightarrow> string \<times> string" where
  "read_word s = (let t = dropWhile is_space s
     in (takeWhile (\<lambda>c. \<not> is_space c) t, dropWhile (\<lambda>c. \<not> is_space c) t))"

definition to_lower :: "char \<Rightarrow> char" where
  "to_lower c = (if 65 \<le> (of_char c :: nat) \<and> (of_char c :: nat) \<le> 90 then char_of ((of_char c :: nat) + 32) else c)"

definition INT_MAX :: int where "INT_MAX = 2147483647"
definition INT_MIN :: int where "INT_MIN = - 2147483648"

text \<open>
  \<open>stream >> ul\<close> for an \<open>int\<close> that is \<open>INT_MAX\<close> before: at the end of the stream it stays; without
  a digit it becomes zero; out of range it becomes the nearest limit. The last component says
  whether the stream is still good.
\<close>

definition read_int :: "string \<Rightarrow> int \<times> string \<times> bool" where
  "read_int s =
     (let t = dropWhile is_space s
      in if t = [] then (INT_MAX, [], False)
         else let neg = (hd t = CHR ''-'');
                  u = (if hd t = CHR ''-'' \<or> hd t = CHR ''+'' then tl t else t);
                  ds = takeWhile is_digit u;
                  v = (if neg then - int (read_digits ds) else int (read_digits ds))
              in if ds = [] then (0, u, False)
                 else if v > INT_MAX then (INT_MAX, dropWhile is_digit u, False)
                 else if v < INT_MIN then (INT_MIN, dropWhile is_digit u, False)
                 else (v, dropWhile is_digit u, True))"

text \<open>\<open>stream >> ul >> std::ws; std::getline(stream, password)\<close> and the trimming of the quotes.\<close>

definition read_userlevel :: "string \<Rightarrow> userlevel \<times> string" where
  "read_userlevel s = (case read_int s of (ul, tail, ok) \<Rightarrow>
     (ul, trim_if (\<lambda>c. c = CHR 0x22)
            (if ok then takeWhile (\<lambda>c. c \<noteq> CHR 0x0A) (dropWhile is_space tail) else [])))"

definition strip_quote :: "string \<Rightarrow> string" where
  "strip_quote uri = (if uri \<noteq> [] \<and> hd uri = CHR 0x27 then tl uri else uri)"

text \<open>Parsing the value with a scanner and a parser of its own; \<open>parse\<close> always returns.\<close>

definition parse_value :: "(string \<Rightarrow> error + string) \<Rightarrow> string \<Rightarrow> error + value_t" where
  "parse_value dec s =
     (case parse dec (new_parser (new_scanner s)) of
        None \<Rightarrow> Inl Undefined
      | Some (Inl e, p) \<Rightarrow> Inl e
      | Some (Inr n, p) \<Rightarrow> Inr (result p))"

subsection \<open>process_request\<close>

text \<open>
  What the requests of one connection need to know: Boost.Signals2, the byte order, the address of
  the dictionary, the callbacks, the base64 iterators, the peer and the depth of the stack.
\<close>

record ('e, 'g) cli_env =
  signals_of :: "'g signals"
  big_endian :: bool
  dict :: addr
  callbacks :: "'e cli_callbacks"
  b64_enc_it :: "string \<Rightarrow> string"
  b64_dec_it :: "string \<Rightarrow> error + string"
  remote_endpoint :: string
  stack_depth :: nat

type_synonym ('e, 'g) cli_state = "(client \<times> ('e, 'g) world) \<times> ostream"

definition with_world :: "(('e, 'g) world, 'a) act \<Rightarrow> (('e, 'g) cli_state, 'a) act" where
  "with_world f = on_fst (on_world f)"

definition with_client :: "(client \<Rightarrow> (('e, 'g) world, 'a) act) \<Rightarrow> (('e, 'g) cli_state, 'a) act" where
  "with_client f = on_fst (\<lambda>(c, w). on_world (f c) (c, w))"

definition on_client :: "(client, 'a) act \<Rightarrow> (client \<times> 'w, 'a) act" where
  "on_client f cw = (case cw of (c, w) \<Rightarrow> (case f c of (r, c') \<Rightarrow> (r, (c', w))))"

definition from_result :: "error + 'a \<Rightarrow> ('w, 'a) act" where
  "from_result r w = (r, w)"

definition find_target :: "('e, 'g) cli_env \<Rightarrow> string \<Rightarrow> (('e, 'g) world, addr option) act" where
  "find_target E uri w = (find_descendant_object (tree w) (dict E) uri CHR '':'', w)"

text \<open>\<open>encoder(static_cast<integer_t>(userlevel()))\<close>\<close>

definition print_userlevel :: "(('e, 'g) cli_state, unit) act" where
  "print_userlevel s = (case s of ((c, w), out) \<Rightarrow> write_out (put_integer (word_of_int (cul c))) s)"

definition change_ul :: "('e, 'g) cli_env \<Rightarrow> string \<Rightarrow> (('e, 'g) cli_state, unit) act" where
  "change_ul E tail = (case read_userlevel tail of (ul, password) \<Rightarrow>
     st_then (with_client (\<lambda>c. run_handler (userlevel_cb (callbacks E) c ul password))) (\<lambda>ok.
       if \<not> ok then throw (Runtime access_denied_error)
       else st_then (on_fst (on_client (set_userlevel ul))) (\<lambda>_.
            st_then print_userlevel (\<lambda>_. write_out (put [CHR 0x0A])))))"

text \<open>\<open>browse\<close> and \<open>tree\<close>: the visitor prints to a stream of its own, copied when it is done.\<close>

definition discover ::
  "('e, 'g) cli_env \<Rightarrow> (('e, 'g) leaf heap \<Rightarrow> ('e, 'g, ('e, 'g) world \<times> ostream) object_visitor) \<Rightarrow>
   string \<Rightarrow> (('e, 'g) cli_state, unit) act" where
  "discover E visitor uri =
     st_then (if uri \<noteq> [] then with_world (find_target E uri) else ret (Some (dict E))) (\<lambda>obj.
     st_then (with_client (\<lambda>c w.
         case browse_object (stack_depth E) c (tree w) (accept (tree w) (visitor (tree w))) obj (w, new_ostream []) of
           (Inl e, (w', temp)) \<Rightarrow> (Inl e, w')
         | (Inr u, (w', temp)) \<Rightarrow> (Inr (buf temp), w'))) (\<lambda>text. write_out (put text)))"

definition run_operation ::
  "('e, 'g) cli_env \<Rightarrow> string \<Rightarrow> string \<Rightarrow> string \<Rightarrow> value_t option \<Rightarrow> (('e, 'g) cli_state, unit) act" where
  "run_operation E request op uri value =
     (let tell = (\<lambda>t. with_world (tell_request (callbacks E) t request (remote_endpoint E)))
      in if (op = ''get'' \<or> op = ''param-ref'') \<and> uri \<noteq> [] \<and> value = None then
           st_then (tell get_r) (\<lambda>_.
           st_then (if uri = ''ul'' then print_userlevel
                    else st_then (with_world (find_target E uri)) (\<lambda>obj.
                         st_then (with_client (\<lambda>c. get_parameter (big_endian E) (dict E) c obj)) (\<lambda>g.
                         write_out (encode_value (b64_enc_it E) g)))) (\<lambda>_.
           write_out (put [CHR 0x0A])))
         else if (op = ''set'' \<or> op = ''param-set!'') \<and> uri \<noteq> [] \<and> value \<noteq> None then
           st_then (tell set_r) (\<lambda>_.
           st_then (with_world (find_target E uri)) (\<lambda>obj.
           st_then (with_client (\<lambda>c. set_parameter (signals_of E) (big_endian E) (dict E) c obj (the value))) (\<lambda>_.
           write_out (put (''0'' @ [CHR 0x0A])))))
         else if (op = ''signal'' \<or> op = ''exec'') \<and> uri \<noteq> [] \<and> value = None then
           st_then (tell signal_r) (\<lambda>_.
           st_then (with_world (find_target E uri)) (\<lambda>obj.
           st_then (with_client (\<lambda>c. signal_event (dict E) c obj)) (\<lambda>_.
           write_out (put (''()'' @ [CHR 0x0A])))))
         else if (op = ''browse'' \<or> op = ''param-disp'') \<and> value = None then
           st_then (tell browse_r) (\<lambda>_. discover E (browse_visitor (big_endian E) (b64_enc_it E)) uri)
         else if op = ''tree'' \<and> value = None then
           st_then (tell tree_r) (\<lambda>_. discover E tree_visitor uri)
         else throw (Runtime parse_error))"

text \<open>The body of the \<open>try\<close> block: the special command, or a value and an operation.\<close>

definition run_request :: "('e, 'g) cli_env \<Rightarrow> string \<Rightarrow> string \<Rightarrow> (('e, 'g) cli_state, unit) act" where
  "run_request E request trimmed =
     (let (op0, tail1) = read_word trimmed; (uri0, tail) = read_word tail1;
          op = map to_lower op0; uri = strip_quote uri0
      in if op = ''exec'' \<and> uri = ''change-ul'' then change_ul E tail
         else st_then (if tail = [] then ret None
                       else from_result (map_sum id Some (parse_value (b64_dec_it E) tail))) (\<lambda>value.
              run_operation E request op uri value))"

definition put_code :: "error_codes \<Rightarrow> ostream \<Rightarrow> ostream" where
  "put_code e = put_integer (word_of_int (code_value e))"

text \<open>The \<open>catch\<close> clauses: exceptions are reported, anything else does not come back.\<close>

definition report :: "error + unit \<Rightarrow> (('e, 'g) cli_state, unit) act" where
  "report r = (case r of
     Inr u \<Rightarrow> ret ()
   | Inl Assertion_failed \<Rightarrow> throw Assertion_failed
   | Inl Undefined \<Rightarrow> throw Undefined
   | Inl (Runtime ex) \<Rightarrow>
       write_out (\<lambda>out. put ('': '' @ what ex @ [CHR 0x0A]) (put_code (code ex) (put ''ERROR '' out)))
   | Inl _ \<Rightarrow>
       write_out (\<lambda>out. put ('': Unknown error'' @ [CHR 0x0A]) (put_code UNKNOWN_ERROR (put ''ERROR '' out))))"

definition prompt :: string where "prompt = ''> ''"

definition process_request ::
  "('e, 'g) cli_env \<Rightarrow> string \<Rightarrow> ((client \<times> ('e, 'g) world) \<times> string, unit) act" where
  "process_request E request st =
     (let trimmed = trim_if is_bracket_or_space request
      in if trimmed = [] then (Inr (), st)
         else (case st of (cw, outbuf) \<Rightarrow>
           (case run_request E request trimmed (cw, new_ostream outbuf) of (r, s') \<Rightarrow>
             (case st_then (report r) (\<lambda>_. write_out (put prompt)) s' of
                (r', (cw', out)) \<Rightarrow> (r', (cw', buf out))))))"

subsection \<open>The connection\<close>

text \<open>
  What is outstanding at the socket. An exception that leaves a handler ends in the event loop,
  undefined behaviour anywhere: \<open>Crashed\<close>.
\<close>

datatype async_op = Write_pending | Read_pending | Closed | Crashed error

text \<open>\<open>wire\<close> holds the bytes the peer has sent and nobody has read, \<open>sent\<close> those written to it.\<close>

record ('e, 'g) clisrv_context =
  serves :: "client \<times> ('e, 'g) world"
  inbuf :: string
  outbuf :: string
  pending :: async_op
  wire :: string
  sent :: string

definition new_clisrv_context ::
  "('e, 'g) cli_env \<Rightarrow> addr \<Rightarrow> userlevel \<Rightarrow> ('e, 'g) world \<Rightarrow> error + ('e, 'g) clisrv_context" where
  "new_clisrv_context E a ul w =
     (case tell_connection (callbacks E) False True (remote_endpoint E) w of
        (Inl e, w') \<Rightarrow> Inl e
      | (Inr u, w') \<Rightarrow> Inr \<lparr>serves = (new_client a ul, w'), inbuf = [], outbuf = [], pending = Closed, wire = [], sent = []\<rparr>)"

definition banner :: string where
  "banner = ''DeCoF command line'' @ [CHR 0x0A] @ prompt"

definition preload :: "('e, 'g) clisrv_context \<Rightarrow> ('e, 'g) clisrv_context" where
  "preload st = st\<lparr>outbuf := outbuf st @ banner, pending := Write_pending\<rparr>"

definition disconnect_clisrv :: "('e, 'g) cli_env \<Rightarrow> ('e, 'g) clisrv_context \<Rightarrow> ('e, 'g) clisrv_context" where
  "disconnect_clisrv E st =
     (case on_world (tell_connection (callbacks E) False False (remote_endpoint E)) (serves st) of
        (Inl e, cw) \<Rightarrow> st\<lparr>serves := cw, pending := Crashed e\<rparr>
      | (Inr u, cw) \<Rightarrow> st\<lparr>serves := cw, pending := Closed\<rparr>)"

definition write_handler :: "('e, 'g) cli_env \<Rightarrow> bool \<Rightarrow> ('e, 'g) clisrv_context \<Rightarrow> ('e, 'g) clisrv_context" where
  "write_handler E error st =
     (if \<not> error then st\<lparr>pending := Read_pending\<rparr> else disconnect_clisrv E st)"

definition read_handler ::
  "('e, 'g) cli_env \<Rightarrow> bool \<Rightarrow> nat \<Rightarrow> ('e, 'g) clisrv_context \<Rightarrow> ('e, 'g) clisrv_context" where
  "read_handler E error bytes_transferred st =
     (if \<not> error then
        (case process_request E (take bytes_transferred (inbuf st)) (serves st, outbuf st) of
           (Inl e, (cw, out)) \<Rightarrow> st\<lparr>serves := cw, outbuf := out, pending := Crashed e\<rparr>
         | (Inr u, (cw, out)) \<Rightarrow>
             st\<lparr>serves := cw, inbuf := drop bytes_transferred (inbuf st), outbuf := out, pending := Write_pending\<rparr>)
      else disconnect_clisrv E st)"

text \<open>
  The events of the socket: bytes arrive, the outstanding write completes, the outstanding read
  takes up to \<open>n\<close> bytes and completes if there is a newline, the outstanding operation fails.
\<close>

datatype socket_event = Arrived string | Written | Received nat | Failed nat

definition upto_newline :: "string \<Rightarrow> nat" where
  "upto_newline s = Suc (length (takeWhile (\<lambda>c. c \<noteq> CHR 0x0A) s))"

fun clisrv_event ::
  "('e, 'g) cli_env \<Rightarrow> socket_event \<Rightarrow> ('e, 'g) clisrv_context \<Rightarrow> ('e, 'g) clisrv_context" where
  "clisrv_event E (Arrived s) st = st\<lparr>wire := wire st @ s\<rparr>"
| "clisrv_event E Written st =
     (if pending st = Write_pending
      then write_handler E False (st\<lparr>sent := sent st @ outbuf st, outbuf := []\<rparr>) else st)"
| "clisrv_event E (Received n) st =
     (if pending st = Read_pending
      then let st1 = st\<lparr>inbuf := inbuf st @ take n (wire st), wire := drop n (wire st)\<rparr>
           in if CHR 0x0A \<in> set (inbuf st1) then read_handler E False (upto_newline (inbuf st1)) st1 else st1
      else st)"
| "clisrv_event E (Failed n) st =
     (case pending st of
        Write_pending \<Rightarrow>
          write_handler E True (st\<lparr>sent := sent st @ take n (outbuf st), outbuf := drop n (outbuf st)\<rparr>)
      | Read_pending \<Rightarrow>
          read_handler E True 0 (st\<lparr>inbuf := inbuf st @ take n (wire st), wire := drop n (wire st)\<rparr>)
      | _ \<Rightarrow> st)"

definition clisrv_run ::
  "('e, 'g) cli_env \<Rightarrow> socket_event list \<Rightarrow> ('e, 'g) clisrv_context \<Rightarrow> ('e, 'g) clisrv_context" where
  "clisrv_run E evs st = fold (clisrv_event E) evs st"

subsection \<open>What a connection promises\<close>

text \<open>
  The specification: the bytes that have arrived are cut into lines, each line is a request, and
  the answers are sent in order, with the replies of one request to the next being the only state.
\<close>

fun complete_lines :: "string \<Rightarrow> string list" where
  "complete_lines [] = []"
| "complete_lines (c # s) =
     (if c = CHR 0x0A then [c] # complete_lines s
      else if CHR 0x0A \<in> set s then (c # hd (complete_lines s)) # tl (complete_lines s) else [])"

fun answered ::
  "('e, 'g) cli_env \<Rightarrow> string list \<Rightarrow> client \<times> ('e, 'g) world \<Rightarrow> error + string \<times> client \<times> ('e, 'g) world" where
  "answered E [] cw = Inr ([], cw)"
| "answered E (l # ls) cw =
     (case process_request E l (cw, []) of
        (Inl e, st) \<Rightarrow> Inl e
      | (Inr u, (cw', text)) \<Rightarrow> and_then (answered E ls cw') (\<lambda>(texts, cw''). Inr (text @ texts, cw'')))"

fun arrived :: "socket_event list \<Rightarrow> string" where
  "arrived [] = []"
| "arrived (Arrived s # evs) = s @ arrived evs"
| "arrived (ev # evs) = arrived evs"

fun undisturbed :: "socket_event list \<Rightarrow> bool" where
  "undisturbed [] = True"
| "undisturbed (Failed n # evs) = False"
| "undisturbed (ev # evs) = undisturbed evs"

definition is_line :: "string \<Rightarrow> bool" where
  "is_line l \<longleftrightarrow> (\<exists>s. l = s @ [CHR 0x0A] \<and> CHR 0x0A \<notin> set s)"

lemma complete_lines_line: "CHR 0x0A \<notin> set s \<Longrightarrow> complete_lines (s @ CHR 0x0A # r) = (s @ [CHR 0x0A]) # complete_lines r"
  by (induction s) auto

lemma complete_lines_none: "CHR 0x0A \<notin> set s \<Longrightarrow> complete_lines s = []"
  by (induction s) auto

lemma complete_lines_concat: "list_all is_line ls \<Longrightarrow> complete_lines (concat ls @ r) = ls @ complete_lines r"
proof (induction ls)
  case (Cons l ls)
  then obtain s where "l = s @ [CHR 0x0A]" "CHR 0x0A \<notin> set s" by (auto simp: is_line_def)
  with Cons show ?case by (simp add: complete_lines_line)
qed simp

lemma answered_append:
  "answered E (ls @ ms) cw =
   and_then (answered E ls cw) (\<lambda>(text, cw'). and_then (answered E ms cw') (\<lambda>(texts, cw''). Inr (text @ texts, cw'')))"
proof (induction ls arbitrary: cw)
  case Nil
  show ?case by (cases "answered E ms cw") auto
next
  case (Cons l ls)
  obtain r cw' t where p: "process_request E l (cw, []) = (r, (cw', t))" by (metis surj_pair)
  show ?case
  proof (cases r)
    case (Inr u)
    show ?thesis
      by (cases "answered E ls cw'"; cases "answered E ms (snd (projr (answered E ls cw')))")
        (auto simp: p Inr Cons split: prod.splits)
  qed (simp add: p)
qed

lemma split_line: "CHR 0x0A \<in> set s \<Longrightarrow> is_line (take (upto_newline s) s)"
proof -
  assume n: "CHR 0x0A \<in> set s"
  have "s = takeWhile (\<lambda>c. c \<noteq> CHR 0x0A) s @ dropWhile (\<lambda>c. c \<noteq> CHR 0x0A) s" by simp
  moreover obtain r where "dropWhile (\<lambda>c. c \<noteq> CHR 0x0A) s = CHR 0x0A # r"
    using n by (cases "dropWhile (\<lambda>c. c \<noteq> CHR 0x0A) s") (auto dest: dropWhile_neq_Cons_hd)
  ultimately have s: "s = takeWhile (\<lambda>c. c \<noteq> CHR 0x0A) s @ CHR 0x0A # r" by simp
  have "take (upto_newline s) s = takeWhile (\<lambda>c. c \<noteq> CHR 0x0A) s @ [CHR 0x0A]"
    by (subst (2) s) (simp add: upto_newline_def)
  moreover have "CHR 0x0A \<notin> set (takeWhile (\<lambda>c. c \<noteq> CHR 0x0A) s)" by (auto dest: set_takeWhileD)
  ultimately show ?thesis by (auto simp: is_line_def)
qed

text \<open>
  The invariant of a running connection: \<open>ls\<close> are the lines answered so far, everything read or
  on the wire is still to come, and what is sent or about to be sent are the answers.
\<close>

definition answering ::
  "('e, 'g) cli_env \<Rightarrow> client \<times> ('e, 'g) world \<Rightarrow> string \<Rightarrow> ('e, 'g) clisrv_context \<Rightarrow> bool" where
  "answering E cw all st \<longleftrightarrow> (\<exists>ls text. list_all is_line ls \<and> all = concat ls @ inbuf st @ wire st \<and>
     answered E ls cw = Inr (text, serves st) \<and> sent st @ outbuf st = banner @ text \<and>
     (pending st = Write_pending \<or> pending st = Read_pending \<and> outbuf st = []))"


lemma answering_start:
  assumes "new_clisrv_context E a ul w = Inr st"
  shows "answering E (serves st) [] (preload st)"
  using assms
  by (auto simp: answering_def preload_def new_clisrv_context_def split: prod.splits sum.splits intro!: exI [of _ "[]"])

lemma answering_arrived: "answering E cw a st \<Longrightarrow> answering E cw (a @ s) (clisrv_event E (Arrived s) st)"
  unfolding answering_def by fastforce

lemma answering_written: "answering E cw a st \<Longrightarrow> answering E cw a (clisrv_event E Written st)"
  unfolding answering_def by (auto simp: write_handler_def)

lemma answered_prefix: "answered E (ls @ ms) cw = Inr x \<Longrightarrow> \<exists>y. answered E ls cw = Inr y"
  by (cases "answered E ls cw") (auto simp: answered_append)

text \<open>One line: what \<open>read_handler\<close> does to a connection whose output is empty.\<close>

lemma answering_line:
  assumes inv: "answering E cw a st" and p: "pending st = Read_pending" and n: "CHR 0x0A \<in> set (inbuf st)"
    and ok: "answered E (complete_lines (a @ later)) cw = Inr x"
  shows "answering E cw a (read_handler E False (upto_newline (inbuf st)) st)"
    and "pending (read_handler E False (upto_newline (inbuf st)) st) = Write_pending"
    and "inbuf (read_handler E False (upto_newline (inbuf st)) st) = drop (upto_newline (inbuf st)) (inbuf st)"
    and "wire (read_handler E False (upto_newline (inbuf st)) st) = wire st"
proof -
  let ?k = "upto_newline (inbuf st)"
  let ?l = "take ?k (inbuf st)"
  from inv p obtain ls t where ls: "list_all is_line ls" "a = concat ls @ inbuf st @ wire st"
    "answered E ls cw = Inr (t, serves st)" "sent st = banner @ t" "outbuf st = []"
    by (auto simp: answering_def)
  have l: "is_line ?l" by (rule split_line [OF n])
  have a: "a = concat (ls @ [?l]) @ drop ?k (inbuf st) @ wire st"
    by (simp add: ls(2))
  have "complete_lines (a @ later) = (ls @ [?l]) @ complete_lines (drop ?k (inbuf st) @ wire st @ later)"
    unfolding a using complete_lines_concat [of "ls @ [?l]"] ls(1) l by simp
  with ok obtain y where "answered E (ls @ [?l]) cw = Inr y"
    using answered_prefix by metis
  then have "and_then (answered E [?l] (serves st)) (\<lambda>(texts, cw''). Inr (t @ texts, cw'')) = Inr y"
    by (simp add: answered_append [of E ls] ls(3))
  then obtain t1 cw1 where r: "process_request E ?l (serves st, []) = (Inr (), (cw1, t1))"
    by (cases "process_request E ?l (serves st, [])") (auto split: sum.splits)
  have h: "read_handler E False ?k st =
      st\<lparr>serves := cw1, inbuf := drop ?k (inbuf st), outbuf := t1, pending := Write_pending\<rparr>"
    by (simp add: read_handler_def ls(5) r)
  show "pending (read_handler E False ?k st) = Write_pending" "wire (read_handler E False ?k st) = wire st"
    "inbuf (read_handler E False ?k st) = drop ?k (inbuf st)" by (simp_all add: h)
  have "answered E (ls @ [?l]) cw = Inr (t @ t1, cw1)" by (simp add: answered_append ls(3) r)
  then show "answering E cw a (read_handler E False ?k st)"
    unfolding answering_def h using ls(1,4) l a by (intro exI [of _ "ls @ [?l]"] exI [of _ "t @ t1"]) simp
qed

lemma answering_received:
  assumes inv: "answering E cw a st" and ok: "answered E (complete_lines (a @ later)) cw = Inr x"
  shows "answering E cw a (clisrv_event E (Received n) st)"
proof (cases "pending st = Read_pending")
  case True
  let ?st = "st\<lparr>inbuf := inbuf st @ take n (wire st), wire := drop n (wire st)\<rparr>"
  have i: "answering E cw a ?st" using inv unfolding answering_def by simp
  show ?thesis using answering_line(1) [OF i _ _ ok] i True by (simp add: Let_def)
qed (use inv in simp)

lemma answering_run:
  assumes "answered E (complete_lines (a @ arrived evs)) cw = Inr x" "undisturbed evs" "answering E cw a st"
  shows "answering E cw (a @ arrived evs) (clisrv_run E evs st)"
  using assms
proof (induction evs arbitrary: a st)
  case Nil
  then show ?case by (simp add: clisrv_run_def)
next
  case (Cons ev evs)
  have "answering E cw (a @ arrived [ev]) (clisrv_event E ev st)"
  proof (cases ev)
    case (Arrived s)
    with answering_arrived [OF Cons.prems(3)] show ?thesis by simp
  next
    case Written
    with answering_written [OF Cons.prems(3)] show ?thesis by simp
  next
    case (Received n)
    with answering_received [OF Cons.prems(3,1)] show ?thesis by simp
  next
    case (Failed n)
    with Cons.prems(2) show ?thesis by simp
  qed
  moreover have "arrived (ev # evs) = arrived [ev] @ arrived evs" by (cases ev) simp_all
  moreover have "undisturbed evs" using Cons.prems(2) by (cases ev) simp_all
  ultimately show ?case using Cons.IH [of "a @ arrived [ev]"] Cons.prems(1) by (simp add: clisrv_run_def)
qed

text \<open>Liveness: every round of a completed write and a completed read answers a line, if there is one.\<close>

definition drain :: "nat \<Rightarrow> socket_event list" where
  "drain n = concat (replicate n [Written, Received n])"

lemma arrived_append [simp]: "arrived (xs @ ys) = arrived xs @ arrived ys"
  by (induction xs rule: arrived.induct) simp_all

lemma undisturbed_append [simp]: "undisturbed (xs @ ys) \<longleftrightarrow> undisturbed xs \<and> undisturbed ys"
  by (induction xs rule: undisturbed.induct) simp_all

lemma round_answers:
  assumes inv: "answering E cw a st" and ok: "answered E (complete_lines a) cw = Inr x"
    and n: "length (wire st) \<le> n"
  shows "let st' = clisrv_event E (Received n) (clisrv_event E Written st)
    in answering E cw a st' \<and> wire st' = [] \<and>
       (if CHR 0x0A \<in> set (inbuf st @ wire st)
        then length (inbuf st') < length (inbuf st @ wire st) \<and> pending st' = Write_pending
        else pending st' = Read_pending \<and> inbuf st' = inbuf st @ wire st)"
proof -
  obtain s1 where s1: "clisrv_event E Written st = s1" by blast
  obtain s2 where s2: "s1\<lparr>inbuf := inbuf s1 @ take n (wire s1), wire := drop n (wire s1)\<rparr> = s2" by blast
  have i1: "answering E cw a s1" using answering_written [OF inv] s1 by simp
  have p1: "pending s1 = Read_pending" "inbuf s1 = inbuf st" "wire s1 = wire st"
    using inv by (auto simp: answering_def write_handler_def s1 [symmetric])
  have i2: "answering E cw a s2" using i1 unfolding answering_def s2 [symmetric] by simp
  have f: "inbuf s2 = inbuf st @ wire st" "wire s2 = []" "pending s2 = Read_pending"
    using n p1 by (simp_all add: s2 [symmetric])
  have ev: "clisrv_event E (Received n) s1 =
      (if CHR 0x0A \<in> set (inbuf s2) then read_handler E False (upto_newline (inbuf s2)) s2 else s2)"
    using p1(1) by (simp add: s2 Let_def)
  have u: "0 < upto_newline s" for s by (simp add: upto_newline_def)
  show ?thesis
  proof (cases "CHR 0x0A \<in> set (inbuf s2)")
    case True
    then have "length (drop (upto_newline (inbuf s2)) (inbuf s2)) < length (inbuf s2)"
      using u [of "inbuf s2"] by (cases "inbuf s2") auto
    then show ?thesis
      using answering_line [OF i2 f(3) True, of "[]"] ok True f unfolding s1 ev by (simp add: Let_def)
  next
    case False
    then show ?thesis using i2 f unfolding s1 ev by (simp add: Let_def)
  qed
qed

lemma drained:
  assumes "answering E cw a st" "answered E (complete_lines a) cw = Inr x"
    "length (inbuf st @ wire st) < k" "length (wire st) \<le> n"
  shows "let st' = clisrv_run E (concat (replicate k [Written, Received n])) st
    in answering E cw a st' \<and> wire st' = [] \<and> pending st' = Read_pending \<and> CHR 0x0A \<notin> set (inbuf st')"
  using assms
proof (induction k arbitrary: st)
  case (Suc k)
  let ?st = "clisrv_event E (Received n) (clisrv_event E Written st)"
  have step: "clisrv_run E (concat (replicate (Suc k) [Written, Received n])) st =
      clisrv_run E (concat (replicate k [Written, Received n])) ?st"
    by (simp add: clisrv_run_def)
  note r = round_answers [OF Suc.prems(1,2,4), unfolded Let_def]
  show ?case
  proof (cases "CHR 0x0A \<in> set (inbuf st @ wire st)")
    case True
    with r Suc.prems(3) show ?thesis
      unfolding step by (intro Suc.IH) (auto intro: Suc.prems(2))
  next
    case False
    have idle: "clisrv_run E (concat (replicate k [Written, Received n])) s = s"
      if "pending s = Read_pending" "wire s = []" "CHR 0x0A \<notin> set (inbuf s)" for s
    proof -
      have w: "s\<lparr>wire := []\<rparr> = s" using that(2) by (cases s) simp
      show ?thesis using that by (induction k) (simp_all add: clisrv_run_def w)
    qed
    show ?thesis unfolding step using r False idle [of ?st] by (simp add: Let_def)
  qed
qed simp

lemma answering_prefix:
  assumes "answering E cw a st" "answered E (complete_lines a) cw = Inr (text, cw')"
  shows "\<exists>later. banner @ text = sent st @ later"
    and "CHR 0x0A \<notin> set (inbuf st) \<Longrightarrow> wire st = [] \<Longrightarrow> pending st = Read_pending \<Longrightarrow>
      sent st = banner @ text \<and> serves st = cw'"
proof -
  from assms(1) obtain ls t where ls: "list_all is_line ls" "a = concat ls @ inbuf st @ wire st"
    "answered E ls cw = Inr (t, serves st)" "sent st @ outbuf st = banner @ t"
    "pending st = Write_pending \<or> pending st = Read_pending \<and> outbuf st = []"
    unfolding answering_def by blast
  have c: "complete_lines a = ls @ complete_lines (inbuf st @ wire st)"
    unfolding ls(2) by (rule complete_lines_concat [OF ls(1)])
  then obtain t' where t': "text = t @ t'"
    using assms(2) ls(3) by (auto simp: answered_append and_then_eq_Inr)
  then have "banner @ text = sent st @ outbuf st @ t'" using ls(4) by (metis append.assoc)
  then show "\<exists>later. banner @ text = sent st @ later" by blast
  assume "CHR 0x0A \<notin> set (inbuf st)" "wire st = []" "pending st = Read_pending"
  with c have "complete_lines a = ls" "outbuf st = []" using ls(5) by (auto simp: complete_lines_none)
  with assms(2) ls(3,4) show "sent st = banner @ text \<and> serves st = cw'" by auto
qed

text \<open>
  C8. The peer of a CLI connection gets the banner and then the answers to its complete lines, in
  order and nothing else, however its bytes are cut into packets and whatever the socket does in
  which order: at any time what it has received is a prefix of that, and when it stops sending it
  receives all of it, after at most one round of writing and reading per byte it has sent.
\<close>

theorem connection_answers:
  assumes "new_clisrv_context E a ul w = Inr st0" and "undisturbed evs"
    and "answered E (complete_lines (arrived evs)) (serves st0) = Inr (text, cw)"
  shows "let st = clisrv_run E evs (preload st0);
      st' = clisrv_run E (drain (Suc (length (arrived evs)))) st
    in (\<exists>later. banner @ text = sent st @ later) \<and> sent st' = banner @ text \<and> serves st' = cw"
proof -
  let ?st = "clisrv_run E evs (preload st0)"
  have i: "answering E (serves st0) (arrived evs) ?st"
    using answering_run [of E "[]" evs, OF _ assms(2) answering_start [OF assms(1)]] assms(3) by simp
  have "length (inbuf ?st @ wire ?st) < Suc (length (arrived evs))" "length (wire ?st) \<le> Suc (length (arrived evs))"
    using i unfolding answering_def by (auto dest: arg_cong [where f = length])
  note d = drained [OF i assms(3) this, folded drain_def, unfolded Let_def]
  show ?thesis
    using answering_prefix(1) [OF i assms(3)] answering_prefix(2) [OF _ assms(3)] d by (simp add: Let_def)
qed

definition sample_env :: "(nat, (connection \<times> slot) list) cli_env" where
  "sample_env = \<lparr>signals_of = list_signals, big_endian = False, dict = 0, callbacks = initial_callbacks,
     b64_enc_it = b64_enc, b64_dec_it = b64_dec, remote_endpoint = ''peer'', stack_depth = 9\<rparr>"

lemma sample_start:
  "new_clisrv_context sample_env 9 Normal w = Inr \<lparr>serves = (new_client 9 Normal, w), inbuf = [], outbuf = [],
     pending = Closed, wire = [], sent = []\<rparr>"
  by (simp add: new_clisrv_context_def tell_connection_def sample_env_def initial_callbacks_def ret_def)

theorem connection_answers_witness:
  "sent (clisrv_run sample_env (drain 9) (clisrv_run sample_env [Arrived ''get'', Written, Received 2, Arrived '' ul'', Arrived [CHR 0x0A, CHR ''x'']]
      (preload (projr (new_clisrv_context sample_env 9 Normal (sample_world (Event None))))))) =
   banner @ ''3'' @ [CHR 0x0A] @ prompt"
proof -
  let ?cw = "(new_client 9 Normal, sample_world (Event None))"
  let ?evs = "[Arrived ''get'', Written, Received 2, Arrived '' ul'', Arrived [CHR 0x0A, CHR ''x'']]"
  have d: "digits 10 3 = ''3''" by code_simp
  have l: "complete_lines (''get'' @ '' ul'' @ [CHR 0x0A, CHR ''x'']) = [''get ul'' @ [CHR 0x0A]]" by simp
  have "process_request sample_env (''get ul'' @ [CHR 0x0A]) (?cw, []) = (Inr (), (?cw, ''3'' @ [CHR 0x0A] @ prompt))"
    by (simp add: process_request_def trim_if_def is_bracket_or_space_def is_space_def run_request_def read_word_def
        to_lower_def strip_quote_def run_operation_def tell_request_def sample_env_def initial_callbacks_def
        with_world_def on_fst_def on_world_def ret_def st_then_def print_userlevel_def put_integer_def report_def
        new_client_def Normal_def show_int_def new_ostream_def d)
  then have "answered sample_env (complete_lines (arrived ?evs)) ?cw = Inr (''3'' @ [CHR 0x0A] @ prompt, ?cw)"
    using l by simp
  then have "let st = clisrv_run sample_env ?evs (preload (projr (new_clisrv_context sample_env 9 Normal (sample_world (Event None)))));
      st' = clisrv_run sample_env (drain (Suc (length (arrived ?evs)))) st
    in (\<exists>later. banner @ ''3'' @ [CHR 0x0A] @ prompt = sent st @ later) \<and>
       sent st' = banner @ ''3'' @ [CHR 0x0A] @ prompt \<and> serves st' = ?cw"
    unfolding sample_start sum.sel by (intro connection_answers [OF sample_start]) simp_all
  then show ?thesis by (simp add: Let_def numeral_eq_Suc)
qed
end
