(* ===== verification/Cli_Round_Trip.thy ===== *)
theory Cli_Round_Trip
  imports Clisrv_Context Session
begin

text \<open>
  The round trip of the CLI protocol: what the encoder (\<open>encoder.cpp\<close>) writes, the scanner and the
  parser (\<open>lex.cpp\<close>, \<open>parse.cpp\<close>) read back, and what that means for a client that sets a
  parameter with one request and gets it with the next.
\<close>


subsection \<open>One token\<close>

text \<open>A text that drives the automaton into a final state it cannot leave by what follows.\<close>

definition token_end :: "nat \<Rightarrow> string \<Rightarrow> bool" where
  "token_end q r \<longleftrightarrow> r = [] \<or> dfa_step q (hd r) = None"

lemma best_run:
  "dfa_run q w = Some q' \<Longrightarrow> dfa_rule q' = Some k \<Longrightarrow> token_end q' r \<Longrightarrow> best q (w @ r) = Some (k, length w)"
proof (induction w arbitrary: q)
  case Nil
  then show ?case by (cases r) (auto simp: token_end_def)
qed (auto split: option.splits)

lemma next_token_run:
  assumes "dfa_run 0 w = Some q" "dfa_rule q = Some k" "token_end q r" "w \<noteq> []" "k \<noteq> 5"
  shows "next_token (w @ r) = (token_of k w, w, r)"
proof -
  have "longest_match (w @ r) = Some (k, length w)"
    using best_run [OF assms(1-3)] by (simp add: best_longest)
  with assms(4,5) show ?thesis by (cases w) simp_all
qed

lemma all_tokens_run:
  assumes "dfa_run 0 w = Some q" "dfa_rule q = Some k" "token_end q r" "w \<noteq> []" "k \<noteq> 5" "0 < token_of k w"
  shows "all_tokens (w @ r) = (token_of k w, w) # all_tokens r"
  using next_token_run [OF assms(1-5)] assms(6) by (subst all_tokens.simps) simp

lemma all_tokens_Nil: "all_tokens [] = []"
  by (subst all_tokens.simps) simp

lemma dfa_run_append: "dfa_run q (v @ w) = Option.bind (dfa_run q v) (\<lambda>q'. dfa_run q' w)"
  by (induction v arbitrary: q) (auto split: option.split)

lemma dfa_run_many: "list_all P w \<Longrightarrow> (\<And>c. P c \<Longrightarrow> dfa_step q c = Some q) \<Longrightarrow> dfa_run q w = Some q"
  by (induction w) auto

text \<open>Punctuation: one character, and what it ends.\<close>

lemma punctuation:
  assumes "c \<in> {CHR '','', CHR ''['', CHR '']'', CHR ''{'', CHR ''}''}"
  shows "all_tokens (c # r) = (of_char c, [c]) # all_tokens r"
    and "dfa_step 5 c = None" "dfa_step 8 c = None" "dfa_step 10 c = None" "dfa_step 12 c = None"
proof -
  have "dfa_run 0 [c] = Some 2" using assms by (auto simp: dfa_steps class_defs)
  moreover have "token_of 6 [c] = of_char c" using assms by (auto simp: token_of_def signed_char_def is_negative_def)
  moreover have "0 < (of_char c :: int)" using assms by auto
  ultimately show "all_tokens (c # r) = (of_char c, [c]) # all_tokens r"
    using all_tokens_run [of "[c]" 2 6 r] by (simp add: dfa_rules token_end_def dfa_steps)
  show "dfa_step 5 c = None" "dfa_step 8 c = None" "dfa_step 10 c = None" "dfa_step 12 c = None"
    using assms by (auto simp: dfa_steps class_defs)
qed

subsection \<open>The text of a scalar is one token\<close>

text \<open>The scalars the parser can read back: 32 bit integers, and nothing printed with \<open>%g\<close>.\<close>

fun readable_scalar :: "scalar_t \<Rightarrow> bool" where
  "readable_scalar (Integer_t i) = (- (2 ^ 31) \<le> sint i \<and> sint i < 2 ^ 31)"
| "readable_scalar (Real_t r) = False"
| "readable_scalar x = True"

fun scalar_text :: "(string \<Rightarrow> string) \<Rightarrow> scalar_t \<Rightarrow> string" where
  "scalar_text enc (Boolean_t b) = (if b then ''#t'' else ''#f'')"
| "scalar_text enc (Integer_t i) = show_int (sint i)"
| "scalar_text enc (Real_t r) = show_double 17 r"
| "scalar_text enc (String_t s) = CHR 0x22 # concat (map escaped s) @ [CHR 0x22]"
| "scalar_text enc (Binary_t b) = CHR ''&'' # base64_encode enc b"

fun scalar_token :: "scalar_t \<Rightarrow> int" where
  "scalar_token (Boolean_t b) = BOOLEAN"
| "scalar_token (Integer_t i) = INTEGER"
| "scalar_token (Real_t r) = REAL"
| "scalar_token (String_t s) = STRING"
| "scalar_token (Binary_t b) = BINARY"

text \<open>Boost's encoder writes characters of the base64 alphabet only.\<close>

definition base64_text :: "(string \<Rightarrow> string) \<Rightarrow> bool" where
  "base64_text enc \<longleftrightarrow> (\<forall>bin. list_all is_base64 (enc bin))"

lemma run_digits: "list_all is_digit w \<Longrightarrow> dfa_run 8 w = Some 8"
  by (rule dfa_run_many [of is_digit]) (auto simp: dfa_steps class_defs)

lemma digits_list_all: "list_all is_digit (digits 10 n)"
  using digits_all_digits by (simp add: list_all_iff)

lemma run_number: "dfa_run 0 (digits 10 n) = Some 8" "dfa_run 6 (digits 10 n) = Some 8"
proof -
  obtain c w where d: "digits 10 n = c # w" by (cases "digits 10 n") simp_all
  with digits_list_all [of n] have c: "is_digit c" "list_all is_digit w" by simp_all
  have "dfa_step 0 c = Some 8" using c(1) char_apart(2) [of c] by (auto simp: dfa_steps class_defs)
  with d run_digits [OF c(2)] show "dfa_run 0 (digits 10 n) = Some 8" by simp
  have "dfa_step 6 c = Some 8" using c(1) by (auto simp: dfa_steps class_defs)
  with d run_digits [OF c(2)] show "dfa_run 6 (digits 10 n) = Some 8" by simp
qed

lemma run_int: "dfa_run 0 (show_int i) = Some 8"
  by (simp add: show_int_def run_number dfa_steps is_blank_def)

lemma hex_digit_any: "d < 16 \<Longrightarrow> is_any (digit_char d) \<and> digit_char d \<noteq> CHR 0x22 \<and> digit_char d \<noteq> CHR 0x5C"
  by (auto simp: digit_char_def class_defs of_char_of)

lemma run_escaped: "dfa_run 9 (escaped c) = Some 9"
proof -
  have b: "(of_char c :: nat) < 256" by simp
  show ?thesis
  proof (cases "is_plain c")
    case True
    then show ?thesis by (auto simp: escaped_def is_plain_def dfa_steps class_defs)
  next
    case False
    show ?thesis
    proof (cases "escape_letter c")
      case None
      have "(of_char c :: nat) div 16 < 16" "(of_char c :: nat) mod 16 < 16" using b by arith+
      with None False show ?thesis
        using hex_digit_any by (simp add: escaped_def hex2_def dfa_steps class_defs)
    next
      case (Some l)
      have "is_dot l" using Some by (auto simp: escape_letter_def class_defs split: if_splits)
      with Some False show ?thesis by (simp add: escaped_def dfa_steps is_any_def)
    qed
  qed
qed

lemma run_string: "dfa_run 0 (CHR 0x22 # concat (map escaped s) @ [CHR 0x22]) = Some 10"
proof -
  have nine: "dfa_run 9 (concat (map escaped s)) = Some 9"
    by (induction s) (simp_all add: dfa_run_append run_escaped)
  have "dfa_run 3 (w @ [CHR 0x22]) = dfa_run 9 (w @ [CHR 0x22])" for w
    by (cases w) (simp_all add: dfa_steps)
  with nine show ?thesis by (simp add: dfa_run_append dfa_steps is_blank_def)
qed

lemma run_binary:
  assumes "base64_text enc"
  shows "dfa_run 0 (CHR ''&'' # base64_encode enc b) = Some 5"
proof -
  have "list_all is_base64 (base64_encode enc b)"
    using assms by (auto simp: base64_text_def base64_encode_def list_all_iff is_base64_def)
  then have "dfa_run 5 (base64_encode enc b) = Some 5" by (rule dfa_run_many) (simp add: dfa_steps)
  then show ?thesis by (simp add: dfa_steps is_blank_def)
qed

lemma scalar_token_text:
  assumes "base64_text enc" "readable_scalar x" "r = [] \<or> hd r \<in> {CHR '','', CHR '']'', CHR ''}''}"
  shows "all_tokens (scalar_text enc x @ r) = (scalar_token x, scalar_text enc x) # all_tokens r"
proof -
  have e: "token_end q r" if "q \<in> {5, 8, 10, 12}" for q
    using assms(3) punctuation(2-5) [of "hd r"] that by (auto simp: token_end_def)
  show ?thesis
  proof (cases x)
    case (Boolean_t b)
    then show ?thesis
      using all_tokens_run [of "scalar_text enc x" 12 0 r] e [of 12]
      by (auto simp: dfa_steps dfa_rules is_blank_def token_of_def BOOLEAN_def)
  next
    case (Integer_t i)
    then show ?thesis
      using all_tokens_run [of "scalar_text enc x" 8 1 r] e [of 8] run_int [of "sint i"]
      by (auto simp: dfa_rules token_of_def INTEGER_def show_int_def)
  next
    case (Real_t d)
    with assms(2) show ?thesis by simp
  next
    case (String_t s)
    then show ?thesis
      using all_tokens_run [of "scalar_text enc x" 10 3 r] e [of 10] run_string [of s]
      by (simp add: dfa_rules token_of_def STRING_def del: dfa_run.simps)
  next
    case (Binary_t b)
    then show ?thesis
      using all_tokens_run [of "scalar_text enc x" 5 4 r] e [of 5] run_binary [OF assms(1), of b]
      by (simp add: dfa_rules token_of_def BINARY_def del: dfa_run.simps)
  qed
qed

subsection \<open>The value of the token\<close>

lemma takeWhile_list_all: "list_all P w \<Longrightarrow> takeWhile P w = w"
  by (induction w) simp_all

lemma stoi_show_int:
  assumes "- (2 ^ 31) \<le> sint (i :: 64 word)" "sint i < 2 ^ 31"
  shows "stoi (show_int (sint i)) = Inr i"
proof -
  have "digits 10 n = c # w \<Longrightarrow> c \<noteq> CHR ''-''" for n c w
    using digits_list_all [of n] char_apart(4) by auto
  then have "split_sign (digits 10 n) = (False, digits 10 n)" for n
    by (cases "digits 10 n") (auto simp: split_sign_def)
  moreover have "split_sign (CHR ''-'' # w) = (True, w)" for w by (simp add: split_sign_def)
  ultimately have s: "split_sign (show_int (sint i)) = (sint i < 0, digits 10 (nat \<bar>sint i\<bar>))"
    by (simp add: show_int_def)
  have v: "with_minus (sint i < 0) (nat \<bar>sint i\<bar>) = sint i" by (simp add: with_minus_def)
  show ?thesis
    unfolding stoi_def s using assms
    by (simp add: takeWhile_list_all [OF digits_list_all] read_digits_inverse v Let_def)
qed

lemma scalar_of_text:
  assumes "base64_iterators enc dec" "readable_scalar x"
  shows "scalar_of dec (scalar_token x) (scalar_text enc x) = Inr x" "is_scalar_token (scalar_token x)"
proof -
  show "is_scalar_token (scalar_token x)"
    by (cases x) (simp_all add: is_scalar_token_def BOOLEAN_def INTEGER_def REAL_def STRING_def BINARY_def)
  show "scalar_of dec (scalar_token x) (scalar_text enc x) = Inr x"
    using assms(2) base64_decode_encode [OF assms(1)] stoi_show_int
    by (cases x) (simp_all add: scalar_of_def conversion_def BOOLEAN_def INTEGER_def REAL_def STRING_def BINARY_def
        unwrapped_def escape_round_trip)
qed

subsection \<open>Values\<close>

text \<open>
  In a collection no string may need a hexadecimal escape: it would leave the stream in
  hexadecimal mode for the integers that follow.
\<close>

fun decimal_scalar :: "scalar_t \<Rightarrow> bool" where
  "decimal_scalar (String_t s) = (\<not> list_ex hex_escaped s)"
| "decimal_scalar x = True"

fun readable_value :: "value_t \<Rightarrow> bool" where
  "readable_value (Scalar_t x) = readable_scalar x"
| "readable_value (Sequence_t xs) = list_all (\<lambda>x. readable_scalar x \<and> decimal_scalar x) xs"
| "readable_value (Tuple_t xs) = list_all (\<lambda>x. readable_scalar x \<and> decimal_scalar x) xs"

text \<open>The elements after the first, with the comma before each.\<close>

definition tail_text :: "(string \<Rightarrow> string) \<Rightarrow> scalar_t list \<Rightarrow> string" where
  "tail_text enc xs = concat (map (\<lambda>x. CHR '','' # scalar_text enc x) xs)"

fun elements_text :: "(string \<Rightarrow> string) \<Rightarrow> scalar_t list \<Rightarrow> string" where
  "elements_text enc [] = []"
| "elements_text enc (x # xs) = scalar_text enc x @ tail_text enc xs"

fun value_text :: "(string \<Rightarrow> string) \<Rightarrow> value_t \<Rightarrow> string" where
  "value_text enc (Scalar_t x) = scalar_text enc x"
| "value_text enc (Sequence_t xs) = CHR ''['' # elements_text enc xs @ '']''"
| "value_text enc (Tuple_t xs) = CHR ''{'' # elements_text enc xs @ ''}''"

lemma encode_scalar_text:
  "\<not> hexfield os \<Longrightarrow> buf (encode_scalar enc x os) = buf os @ scalar_text enc x"
  "\<not> hexfield os \<Longrightarrow> decimal_scalar x \<Longrightarrow> \<not> hexfield (encode_scalar enc x os)"
  by (cases x; simp add: put_integer_def encode_string_buf encode_string_hexfield)+

lemma encode_elements_text:
  "\<not> hexfield os \<Longrightarrow> list_all decimal_scalar xs \<Longrightarrow>
   buf (encode_elements enc xs os) = buf os @ elements_text enc xs \<and> \<not> hexfield (encode_elements enc xs os)"
proof (induction enc xs os rule: encode_elements.induct)
  case (3 enc x y xs os)
  have h: "\<not> hexfield (put '','' (encode_scalar enc x os))" "list_all decimal_scalar (y # xs)"
    using encode_scalar_text(2) [OF 3(2)] 3(3) by simp_all
  from 3(1) [OF h] show ?case
    by (simp add: encode_scalar_text(1) [OF 3(2)] tail_text_def)
qed (simp_all add: encode_scalar_text tail_text_def)

lemma encode_value_text:
  assumes "readable_value v"
  shows "buf (encode_value enc v (new_ostream out)) = out @ value_text enc v"
proof -
  have "list_all decimal_scalar xs" if "list_all (\<lambda>x. readable_scalar x \<and> decimal_scalar x) xs" for xs
    using that by (simp add: list_all_iff)
  then show ?thesis
    using assms encode_elements_text [of "put c (new_ostream out)" _ enc for c]
    by (cases v) (simp_all add: encode_scalar_text new_ostream_def)
qed

lemma ref_series_text:
  assumes "base64_iterators enc dec" "base64_text enc" "list_all readable_scalar xs"
    "c \<in> {CHR '']'', CHR ''}''}"
  shows "ref_series dec (of_char c) ys (all_tokens (tail_text enc xs @ [c])) = Parsed (ys @ xs) []"
  using assms(3)
proof (induction xs arbitrary: ys)
  case Nil
  have "all_tokens [c] = [(of_char c, [c])]"
    using punctuation(1) [of c "[]"] assms(4) by (auto simp: all_tokens_Nil)
  then show ?case by (simp add: tail_text_def)
next
  case (Cons x xs)
  let ?r = "tail_text enc xs @ [c]"
  have r: "?r = [] \<or> hd ?r \<in> {CHR '','', CHR '']'', CHR ''}''}"
    using assms(4) by (cases xs) (auto simp: tail_text_def)
  have "all_tokens (tail_text enc (x # xs) @ [c]) =
      (44, '','') # (scalar_token x, scalar_text enc x) # all_tokens ?r"
    using punctuation(1) [of "CHR '',''" "scalar_text enc x @ ?r"] scalar_token_text [OF assms(2) _ r, of x] Cons.prems
    by (simp add: tail_text_def)
  moreover have "(44 :: int) \<noteq> of_char c" using assms(4) by auto
  ultimately show ?case
    using scalar_of_text [OF assms(1), of x] Cons by simp
qed

lemma ref_elements_text:
  assumes "base64_iterators enc dec" "base64_text enc" "list_all readable_scalar xs"
    "c \<in> {CHR '']'', CHR ''}''}"
  shows "ref_elements dec (of_char c) (all_tokens (elements_text enc xs @ [c])) = Parsed xs []"
proof (cases xs)
  case Nil
  have "all_tokens [c] = [(of_char c, [c])]"
    using punctuation(1) [of c "[]"] assms(4) by (auto simp: all_tokens_Nil)
  moreover have "\<not> is_scalar_token (of_char c)" using assms(4) by (auto simp: is_scalar_token_def)
  ultimately show ?thesis by (simp add: Nil ref_elements_def)
next
  case (Cons x ys)
  let ?r = "tail_text enc ys @ [c]"
  have r: "?r = [] \<or> hd ?r \<in> {CHR '','', CHR '']'', CHR ''}''}"
    using assms(4) by (cases ys) (auto simp: tail_text_def)
  have "all_tokens (elements_text enc xs @ [c]) = (scalar_token x, scalar_text enc x) # all_tokens ?r"
    using scalar_token_text [OF assms(2) _ r, of x] assms(3) Cons by simp
  then show ?thesis
    using scalar_of_text [OF assms(1), of x] assms(3) Cons ref_series_text [OF assms(1,2) _ assms(4), of ys "[x]"]
    by (simp add: ref_elements_def)
qed

lemma ref_expression_text:
  assumes "base64_iterators enc dec" "base64_text enc" "readable_value v"
  shows "ref_expression dec (all_tokens (value_text enc v)) = Parsed v []"
proof (cases v)
  case (Scalar_t x)
  then show ?thesis
    using scalar_token_text [OF assms(2), of x "[]"] scalar_of_text [OF assms(1), of x] assms(3)
    by (simp add: ref_expression_def all_tokens_Nil)
next
  case (Sequence_t xs)
  then have xs: "list_all readable_scalar xs" using assms(3) by (simp add: list_all_iff)
  have "ref_elements dec 93 (all_tokens (elements_text enc xs @ '']'')) = Parsed xs []"
    using ref_elements_text [OF assms(1,2) xs, of "CHR '']''"] by simp
  then show ?thesis
    using Sequence_t punctuation(1) [of "CHR ''[''" "elements_text enc xs @ '']''"]
    by (simp add: ref_expression_def is_scalar_token_def map_parsed_def)
next
  case (Tuple_t xs)
  then have xs: "list_all readable_scalar xs" using assms(3) by (simp add: list_all_iff)
  have "ref_elements dec 125 (all_tokens (elements_text enc xs @ ''}'')) = Parsed xs []"
    using ref_elements_text [OF assms(1,2) xs, of "CHR ''}''"] by simp
  then show ?thesis
    using Tuple_t punctuation(1) [of "CHR ''{''" "elements_text enc xs @ ''}''"]
    by (simp add: ref_expression_def is_scalar_token_def map_parsed_def)
qed

subsection \<open>From the text to the value\<close>

definition ascii :: "string \<Rightarrow> bool" where
  "ascii s \<longleftrightarrow> list_all (\<lambda>c. \<not> is_negative c) s"

lemma ascii_simps [simp]:
  "ascii []" "ascii (c # s) \<longleftrightarrow> \<not> is_negative c \<and> ascii s" "ascii (s @ t) \<longleftrightarrow> ascii s \<and> ascii t"
  by (simp_all add: ascii_def)

lemma ascii_base64: "list_all is_base64 s \<Longrightarrow> ascii s"
  by (auto simp: ascii_def list_all_iff is_base64_def is_digit_def is_negative_def)

lemma ascii_digits: "ascii (digits 10 n)"
  using digits_list_all [of n] by (auto simp: ascii_def list_all_iff is_digit_def is_negative_def)

lemma ascii_escaped: "ascii (escaped c)"
proof -
  have d: "\<not> is_negative (digit_char d)" if "d < 16" for d
    using that by (simp add: digit_char_def is_negative_def of_char_of)
  have b: "(of_char c :: nat) < 256" by simp
  have "\<not> is_negative l" if "escape_letter c = Some l" for l
    using that by (auto simp: escape_letter_def is_negative_def split: if_splits)
  moreover have "(of_char c :: nat) div 16 < 16" "(of_char c :: nat) mod 16 < 16" using b by arith+
  ultimately show ?thesis
    using d by (auto simp: escaped_def hex2_def is_plain_def is_negative_def split: option.split)
qed

lemma ascii_scalar_text: "base64_text enc \<Longrightarrow> readable_scalar x \<Longrightarrow> ascii (scalar_text enc x)"
proof (cases x)
  case (String_t s)
  have "ascii (concat (map escaped s))" by (induction s) (simp_all add: ascii_escaped)
  then show ?thesis by (simp add: String_t is_negative_def)
next
  case (Binary_t b)
  assume "base64_text enc"
  then have "ascii (enc b)" by (simp add: base64_text_def ascii_base64)
  moreover have "ascii (replicate n CHR ''='')" for n by (induction n) (simp_all add: is_negative_def)
  ultimately show ?thesis by (simp add: Binary_t base64_encode_def is_negative_def)
qed (auto simp: show_int_def ascii_digits is_negative_def)

lemma ascii_value_text: "base64_text enc \<Longrightarrow> readable_value v \<Longrightarrow> ascii (value_text enc v)"
proof -
  assume e: "base64_text enc" "readable_value v"
  have t: "ascii (tail_text enc xs)" if "list_all readable_scalar xs" for xs
    using that by (induction xs) (simp_all add: tail_text_def ascii_scalar_text [OF e(1)] is_negative_def)
  have "ascii (elements_text enc xs)" if "list_all readable_scalar xs" for xs
    using that t by (cases xs) (simp_all add: ascii_scalar_text [OF e(1)])
  then show ?thesis
    using e by (cases v) (simp_all add: ascii_scalar_text is_negative_def list_all_iff)
qed

text \<open>The blank that separates the value from the name in a request.\<close>

lemma all_tokens_blank:
  assumes "r = [] \<or> \<not> is_blank (hd r)"
  shows "all_tokens (CHR '' '' # r) = all_tokens r"
proof -
  have "dfa_run 0 '' '' = Some 1" by (simp add: dfa_steps is_blank_def)
  moreover have "token_end 1 r" using assms by (auto simp: token_end_def dfa_steps)
  ultimately have "longest_match (CHR '' '' # r) = Some (5, 1)"
    using best_run [of 0 "'' ''" 1 5 r] unfolding best_longest [symmetric] by (simp add: dfa_rules)
  then show ?thesis by (simp add: all_tokens.simps [of "CHR '' '' # r"] all_tokens.simps [of r])
qed

lemma value_text_start: "value_text enc v \<noteq> [] \<and> \<not> is_space (hd (value_text enc v))" if "readable_value v"
proof -
  have d: "\<not> is_space (hd (digits 10 n))" for n
  proof -
    obtain c w where "digits 10 n = c # w" by (cases "digits 10 n") simp_all
    with digits_list_all [of n] show ?thesis by (auto simp: is_space_def is_digit_def)
  qed
  have "scalar_text enc x \<noteq> [] \<and> \<not> is_space (hd (scalar_text enc x))" if "readable_scalar x" for x
    using that d by (cases x) (simp_all add: is_space_def show_int_def)
  then show ?thesis using that by (cases v) (simp_all add: is_space_def)
qed

lemma parse_value_verdict:
  assumes "ascii s" "ref_expression dec (all_tokens s) = Parsed v []"
  shows "parse_value dec s = Inr v"
proof -
  have "reads (new_scanner s) (all_tokens s)"
    using assms(1) by (intro reads_new_scanner) (simp add: ascii_def list_all_iff)
  from parse_verdict [OF this, of dec] assms(2) show ?thesis
    by (auto simp: parse_value_def verdict_def)
qed

lemma parse_value_text:
  assumes "base64_iterators enc dec" "base64_text enc" "readable_value v"
  shows "parse_value dec (value_text enc v) = Inr v" "parse_value dec (CHR '' '' # value_text enc v) = Inr v"
proof -
  have a: "ascii (value_text enc v)" by (rule ascii_value_text [OF assms(2,3)])
  show "parse_value dec (value_text enc v) = Inr v"
    by (rule parse_value_verdict [OF a ref_expression_text [OF assms]])
  have "all_tokens (CHR '' '' # value_text enc v) = all_tokens (value_text enc v)"
    using value_text_start [OF assms(3), of enc] by (intro all_tokens_blank) (auto simp: is_blank_def is_space_def)
  then show "parse_value dec (CHR '' '' # value_text enc v) = Inr v"
    using a by (intro parse_value_verdict) (simp_all add: is_negative_def ref_expression_text [OF assms])
qed

text \<open>
  C20. What the encoder prints the parser reads back: booleans, 32 bit integers, strings and
  binaries of any bytes, and sequences and tuples of them in which no string needs a hexadecimal
  escape, also empty ones. (Boost's base64 iterators are inverse to each other and write the base64
  alphabet.)
\<close>

theorem cli_value_round_trip:
  assumes "base64_iterators enc dec" and "base64_text enc" and "readable_value v"
  shows "parse_value dec (buf (encode_value enc v (new_ostream []))) = Inr v"
  by (simp add: encode_value_text [OF assms(3)] parse_value_text [OF assms])

lemma b64_char_base64: "n < 64 \<Longrightarrow> is_base64 (b64_char n)"
proof -
  have "list_all is_base64 b64_alphabet" by (simp add: b64_alphabet_def is_base64_def is_digit_def)
  then show "n < 64 \<Longrightarrow> is_base64 (b64_char n)"
    by (simp add: b64_char_def list_all_length b64_alphabet_facts(1))
qed

lemma b64_enc_text: "base64_text b64_enc"
proof -
  have b: "(of_char c :: nat) < 256" for c by simp
  have "list_all is_base64 (b64_enc s)" for s
  proof (induction s rule: b64_enc.induct)
    case (2 a)
    have "of_char a * 65536 < (16777216 :: nat)" using b [of a] by linarith
    from b64_group(1,2) [OF this] show ?case by (simp add: Let_def b64_char_base64)
  next
    case (3 a b)
    have "of_char a * 65536 + of_char b * 256 < (16777216 :: nat)"
      using byte_lt [of a] byte_lt [of b] by linarith
    from b64_group(1-3) [OF this] show ?case by (simp add: Let_def b64_char_base64)
  next
    case (4 a b c s)
    have "of_char a * 65536 + of_char b * 256 + of_char c < (16777216 :: nat)"
      using byte_lt [of a] byte_lt [of b] byte_lt [of c] by linarith
    from b64_group(1-4) [OF this] 4 show ?case by (simp add: Let_def b64_char_base64)
  qed simp
  then show ?thesis by (simp add: base64_text_def)
qed

theorem cli_value_round_trip_witness:
  "parse_value b64_dec (buf (encode_value b64_enc
     (Tuple_t [String_t ''a\"b'', Integer_t (- 5), Binary_t [CHR 0x00], Boolean_t False]) (new_ostream []))) =
   Inr (Tuple_t [String_t ''a\"b'', Integer_t (- 5), Binary_t [CHR 0x00], Boolean_t False])"
  by (rule cli_value_round_trip [OF b64_iterators b64_enc_text])
    (simp add: hex_escaped_def is_plain_def escape_letter_def)

subsection \<open>Requests word by word\<close>

definition uri_ok :: "string \<Rightarrow> bool" where
  "uri_ok uri \<longleftrightarrow> uri \<noteq> [] \<and> list_all (\<lambda>c. \<not> is_bracket_or_space c) uri \<and> hd uri \<noteq> CHR 0x27"

lemma trim_line:
  assumes "s \<noteq> []" "\<not> is_bracket_or_space (hd s)" "\<not> is_bracket_or_space (last s)"
  shows "trim_if is_bracket_or_space (s @ [CHR 0x0A]) = s"
proof -
  have "dropWhile is_bracket_or_space (s @ [CHR 0x0A]) = s @ [CHR 0x0A]" using assms(1,2) by (cases s) auto
  moreover have "is_bracket_or_space CHR 0x0A" by (simp add: is_bracket_or_space_def is_space_def)
  moreover have "dropWhile is_bracket_or_space (rev s) = rev s"
    using assms(1,3) by (cases s rule: rev_cases) auto
  ultimately show ?thesis by (simp add: trim_if_def)
qed

lemma words_append:
  assumes "list_all (\<lambda>c. \<not> is_space c) w" "r = [] \<or> is_space (hd r)"
  shows "takeWhile (\<lambda>c. \<not> is_space c) (w @ r) = w" "dropWhile (\<lambda>c. \<not> is_space c) (w @ r) = r"
  using assms by (induction w) (cases r; simp)+

lemma read_word_append:
  assumes "list_all (\<lambda>c. \<not> is_space c) w" "w \<noteq> []" "r = [] \<or> is_space (hd r)"
  shows "read_word (w @ r) = (w, r)" "read_word (CHR '' '' # w @ r) = (w, r)"
proof -
  have "dropWhile is_space (w @ r) = w @ r" using assms(1,2) by (cases w) auto
  moreover have "is_space CHR '' ''" by (simp add: is_space_def)
  ultimately show "read_word (w @ r) = (w, r)" "read_word (CHR '' '' # w @ r) = (w, r)"
    using words_append [OF assms(1,3)] by (simp_all add: read_word_def Let_def)
qed

lemma uri_words: "uri_ok uri \<Longrightarrow> list_all (\<lambda>c. \<not> is_space c) uri \<and> uri \<noteq> [] \<and> strip_quote uri = uri"
  by (auto simp: uri_ok_def is_bracket_or_space_def list_all_iff strip_quote_def)

lemma uri_last: "uri_ok uri \<Longrightarrow> \<not> is_bracket_or_space (last uri)"
  by (simp add: uri_ok_def list_all_iff)

lemma last_token_char:
  assumes "base64_text enc" "readable_scalar x"
  shows "scalar_text enc x \<noteq> [] \<and> \<not> is_bracket_or_space (last (scalar_text enc x))"
proof -
  have d: "digits 10 n \<noteq> [] \<and> \<not> is_bracket_or_space (last (digits 10 n))" for n
  proof -
    have "is_digit (last (digits 10 n))" using digits_all_digits [of n] by (meson digits_not_Nil last_in_set)
    then show ?thesis by (auto simp: is_bracket_or_space_def is_space_def is_digit_def)
  qed
  have b: "\<not> is_bracket_or_space (last (CHR ''&'' # base64_encode enc bin))" for bin
  proof (cases "base64_encode enc bin = []")
    case False
    have "list_all is_base64 (base64_encode enc bin)"
      using assms(1) by (auto simp: base64_text_def base64_encode_def list_all_iff is_base64_def)
    with False have "is_base64 (last (base64_encode enc bin))" by (simp add: list_all_iff)
    with False show ?thesis
      by (auto simp: is_base64_def is_bracket_or_space_def is_space_def is_digit_def)
  qed (simp add: is_bracket_or_space_def is_space_def)
  show ?thesis
    using assms(2) d b by (cases x) (simp_all add: show_int_def is_bracket_or_space_def is_space_def)
qed

lemma value_text_last:
  assumes "base64_text enc" "readable_value v"
  shows "\<not> is_bracket_or_space (last (value_text enc v))"
  using assms last_token_char by (cases v) (simp_all add: is_bracket_or_space_def is_space_def)

subsection \<open>Setting and getting by text\<close>

lemma process_line:
  assumes "s \<noteq> []" "\<not> is_bracket_or_space (hd s)" "\<not> is_bracket_or_space (last s)"
    and "run_request E (s @ [CHR 0x0A]) s (cw, new_ostream out) = (Inr (), (cw', os))"
  shows "process_request E (s @ [CHR 0x0A]) (cw, out) = (Inr (), (cw', buf os @ prompt))"
  using assms by (simp add: process_request_def trim_line report_def ret_def st_then_def Let_def)

lemma set_request:
  assumes "uri_ok uri" "request_cb (callbacks E) = None"
    and "find_descendant_object (tree w) (dict E) uri CHR '':'' = Inr obj"
    and "base64_iterators (b64_enc_it E) (b64_dec_it E)" "base64_text (b64_enc_it E)" "readable_value g"
    and "set_parameter (signals_of E) (big_endian E) (dict E) c obj g w = (Inr (), w')"
  shows "process_request E (''set '' @ uri @ '' '' @ value_text (b64_enc_it E) g @ [CHR 0x0A]) ((c, w), out) =
    (Inr (), ((c, w'), out @ ''0'' @ [CHR 0x0A] @ prompt))"
proof -
  let ?v = "CHR '' '' # value_text (b64_enc_it E) g"
  let ?s = "''set'' @ CHR '' '' # uri @ ?v"
  note u = uri_words [OF assms(1)]
  have v: "value_text (b64_enc_it E) g \<noteq> []" using value_text_start [OF assms(6)] by blast
  have r1: "read_word ?s = (''set'', CHR '' '' # uri @ ?v)"
    by (rule read_word_append(1)) (simp_all add: is_space_def)
  have r2: "read_word (CHR '' '' # uri @ ?v) = (uri, ?v)"
    by (rule read_word_append(2)) (use u in \<open>simp_all add: is_space_def\<close>)
  have p: "parse_value (b64_dec_it E) ?v = Inr g" by (rule parse_value_text(2) [OF assms(4-6)])
  have "run_request E (?s @ [CHR 0x0A]) ?s ((c, w), new_ostream out) =
      (Inr (), ((c, w'), put (''0'' @ [CHR 0x0A]) (new_ostream out)))"
    using u assms(2,3,7)
    by (simp add: run_request_def r1 r2 p Let_def to_lower_def from_result_def run_operation_def
        tell_request_def with_world_def with_client_def on_fst_def on_world_def ret_def st_then_def find_target_def
        del: append_Cons append.append_Cons)
  from process_line [OF _ _ _ this] value_text_last [OF assms(5,6)] v show ?thesis
    by (simp add: is_bracket_or_space_def is_space_def new_ostream_def)
qed

lemma get_request:
  assumes "uri_ok uri" "uri \<noteq> ''ul''" "request_cb (callbacks E) = None"
    and "find_descendant_object (tree w) (dict E) uri CHR '':'' = Inr obj"
    and "get_parameter (big_endian E) (dict E) c obj w = (Inr g, w')" "readable_value g"
  shows "process_request E (''get '' @ uri @ [CHR 0x0A]) ((c, w), out) =
    (Inr (), ((c, w'), out @ value_text (b64_enc_it E) g @ [CHR 0x0A] @ prompt))"
proof -
  let ?s = "''get'' @ CHR '' '' # uri"
  note u = uri_words [OF assms(1)]
  have r1: "read_word ?s = (''get'', CHR '' '' # uri)"
    by (rule read_word_append(1)) (simp_all add: is_space_def)
  have r2: "read_word (CHR '' '' # uri) = (uri, [])"
    using read_word_append(2) [of uri "[]"] u by simp
  have "run_request E (?s @ [CHR 0x0A]) ?s ((c, w), new_ostream out) =
      (Inr (), ((c, w'), put [CHR 0x0A] (encode_value (b64_enc_it E) g (new_ostream out))))"
    using u assms(2-5)
    by (simp add: run_request_def r1 r2 Let_def to_lower_def run_operation_def
        tell_request_def with_world_def with_client_def on_fst_def on_world_def ret_def st_then_def find_target_def
        del: append_Cons append.append_Cons)
  from process_line [OF _ _ _ this] uri_last [OF assms(1)] u show ?thesis
    by (simp add: is_bracket_or_space_def is_space_def encode_value_text [OF assms(6)])
qed

text \<open>
  C10. End to end: a client that may write a managed parameter sets it with the text of a value
  and is answered \<open>0\<close>; every slot is notified once; and any client that may read the parameter and
  gets it then is answered with the very same text - provided the value is one the parser can read
  back and the verify handler lets it pass.
\<close>

theorem cli_set_get:
  assumes "may_write (dict E) c a w" and "leaf_at w a = Some l" and "kind l = Managed_readwrite old f"
    and "fq_name (tree w) a = Some fqn" and "tree w a = Some ob" and "effective_userlevel c' \<le> oreadlevel ob"
    and "find_descendant_object (tree w) (dict E) uri CHR '':'' = Inr (Some a)"
    and "from_generic (big_endian E) (lhint l) (ltype l) g = Inr v"
    and "to_generic (big_endian E) (lhint l) (ltype l) v = Inr g"
    and "\<not> cpp_eq old v" and "run_verify f v (app w) = (Inr (), s)"
    and "uri_ok uri" and "uri \<noteq> ''ul''" and "request_cb (callbacks E) = None"
    and "base64_iterators (b64_enc_it E) (b64_dec_it E)" and "base64_text (b64_enc_it E)" and "readable_value g"
  shows "let text = buf (encode_value (b64_enc_it E) g (new_ostream []));
      w' = set_leaf a (l\<lparr>kind := Managed_readwrite v f\<rparr>) w
        \<lparr>app := s, deliveries := deliveries w @ notify_slots (signals_of E) l fqn g\<rparr>
    in process_request E (''set '' @ uri @ '' '' @ text @ [CHR 0x0A]) ((c, w), out) =
         (Inr (), ((c, w'), out @ ''0'' @ [CHR 0x0A] @ prompt)) \<and>
       process_request E (''get '' @ uri @ [CHR 0x0A]) ((c', w'), out') =
         (Inr (), ((c', w'), out' @ text @ [CHR 0x0A] @ prompt))"
proof -
  have set: "set_parameter (signals_of E) (big_endian E) (dict E) c (Some a) g w = (Inr (), written (signals_of E) a l v f s fqn g w)"
    and get: "get_parameter (big_endian E) (dict E) c' (Some a) (written (signals_of E) a l v f s fqn g w) =
      (Inr g, written (signals_of E) a l v f s fqn g w)"
    and out: "outline (tree (written (signals_of E) a l v f s fqn g w)) = outline (tree w)"
    by (rule managed_set_get [OF assms(1-6,8-11)])+
  have find: "find_descendant_object (tree (written (signals_of E) a l v f s fqn g w)) (dict E) uri CHR '':'' = Inr (Some a)"
    using outline_find_descendant [OF out] assms(7) by simp
  show ?thesis
    using set_request [OF assms(12,14,7,15-17) set] get_request [OF assms(12-14) find get assms(17)]
    by (simp add: Let_def encode_value_text [OF assms(17)] flip: written_def)
qed

lemma sample_env_simps: "signals_of sample_env = list_signals" "big_endian sample_env = False" "dict sample_env = 0"
  "callbacks sample_env = initial_callbacks" "b64_enc_it sample_env = b64_enc" "b64_dec_it sample_env = b64_dec"
  by (simp_all add: sample_env_def)

theorem cli_set_get_witness:
  "fst (process_request sample_env (''set p 5'' @ [CHR 0x0A])
     ((sample_client, sample_world (Managed_readwrite (VInt 3) None)), [])) = Inr () \<and>
   snd (snd (process_request sample_env (''set p 5'' @ [CHR 0x0A])
     ((sample_client, sample_world (Managed_readwrite (VInt 3) None)), []))) = ''0'' @ [CHR 0x0A] @ prompt"
proof -
  let ?w = "sample_world (Managed_readwrite (VInt 3) None)"
  have v: "from_generic False none (CInt True 32) (Scalar_t (Integer_t 5)) = Inr (VInt 5)"
    "to_generic False none (CInt True 32) (VInt 5) = Inr (Scalar_t (Integer_t 5))"
    by (simp_all add: from_generic_def plain_from_generic_def scalar_from_generic_def integral_from_generic_def
        to_generic_def scalar_to_generic_def convert_lossless_integer_def int_min_def int_max_def)
  have f: "find_descendant_object (tree ?w) 0 ''p'' CHR '':'' = Inr (Some 1)"
    by (simp add: find_descendant_object.simps find_child_def children_of_def sample_world_def)
  have printed: "buf (encode_value b64_enc (Scalar_t (Integer_t 5)) (new_ostream [])) = ''5''" by code_simp
  have "\<exists>ob. tree ?w 1 = Some ob \<and> effective_userlevel (new_client 8 Normal) \<le> oreadlevel ob"
    by (simp add: sample_world_def effective_userlevel_def new_client_def userlevel_defs)
  then obtain ob where ob: "tree ?w 1 = Some ob" "effective_userlevel (new_client 8 Normal) \<le> oreadlevel ob" by blast
  note r = cli_set_get [of sample_env sample_client 1 ?w, unfolded sample_env_simps, OF sample_facts(4) sample_facts(2) _
      sample_facts(3) ob, of "VInt 3" None "''p''" "Scalar_t (Integer_t 5)" "VInt 5" 0 "[]" "[]"]
  show ?thesis
    using r v f printed b64_iterators b64_enc_text
    by (simp add: sample_param_def run_verify_def uri_ok_def is_bracket_or_space_def is_space_def
        initial_callbacks_def Let_def sample_world_def)
qed

subsection \<open>Discovery and errors\<close>

lemma tree_words: "read_word ''tree'' = (''tree'', [])" "read_word [] = ([], [])" "map to_lower ''tree'' = ''tree''"
  by (simp_all add: read_word_def is_space_def to_lower_def)

lemma tree_request_at:
  assumes "tree_ok (tree w)" "finite (dom (tree w))" "dict E \<in> dom (tree w)" "card (dom (tree w)) \<le> stack_depth E"
    and "request_cb (callbacks E) = None"
  shows "process_request E (''tree'' @ [CHR 0x0A]) ((c, w), out) =
    (Inr (), ((c, w), out @ concat (map (tree_line (tree w))
       (preorder (stack_depth E) (effective_userlevel c) (tree w) (dict E))) @ prompt))"
proof -
  let ?t = "concat (map (tree_line (tree w)) (preorder (stack_depth E) (effective_userlevel c) (tree w) (dict E)))"
  have "discover E tree_visitor [] ((c, w), new_ostream out) = (Inr (), ((c, w), put ?t (new_ostream out)))"
    using browse_tree(1) [OF assms(1-4), of c w "new_ostream []"]
    by (simp add: discover_def with_client_def on_fst_def on_world_def st_then_def new_ostream_def)
  then have "run_request E (''tree'' @ [CHR 0x0A]) ''tree'' ((c, w), new_ostream out) =
      (Inr (), ((c, w), put ?t (new_ostream out)))"
    using assms(5)
    by (simp add: run_request_def tree_words strip_quote_def run_operation_def tell_request_def with_world_def
        on_fst_def on_world_def ret_def st_then_def to_lower_def)
  from process_line [OF _ _ _ this] show ?thesis
    by (simp add: is_bracket_or_space_def is_space_def new_ostream_def)
qed

text \<open>
  The request \<open>tree\<close> is answered with one line for every object the client can reach through
  readable children, and for no other, each exactly once, the dictionary first: its fully qualified
  name, what it is, and for a parameter whether it may be written and its type. Nothing changes.
\<close>

theorem cli_tree_lists_objects:
  assumes "tree_ok (tree w)" and "finite (dom (tree w))" and "dict E \<in> dom (tree w)"
    and "card (dom (tree w)) \<le> stack_depth E" and "request_cb (callbacks E) = None"
  shows "\<exists>xs. process_request E (''tree'' @ [CHR 0x0A]) ((c, w), out) =
      (Inr (), ((c, w), out @ concat (map (tree_line (tree w)) xs) @ prompt)) \<and>
    distinct xs \<and> hd xs = dict E \<and> set xs = {b. Client_Context.seen (effective_userlevel c) (tree w) (dict E) b}"
proof -
  have "card (dom (tree w)) \<noteq> 0" using assms(2,3) by auto
  then obtain n where "stack_depth E = Suc n" using assms(4) by (cases "stack_depth E") auto
  then have "hd (preorder (stack_depth E) (effective_userlevel c) (tree w) (dict E)) = dict E" by simp
  with tree_request_at [OF assms] browse_tree(2,3) [OF assms(1-4), of c] show ?thesis by blast
qed

theorem cli_tree_lists_objects_witness:
  "\<exists>xs. process_request sample_env (''tree'' @ [CHR 0x0A]) ((sample_client, sample_world (Event None)), []) =
      (Inr (), ((sample_client, sample_world (Event None)), concat (map (tree_line (tree (sample_world (Event None)))) xs) @ prompt)) \<and>
    hd xs = 0"
proof -
  have d: "dom (tree (sample_world (Event None))) = {0, 1}" by (auto simp: sample_world_def)
  from cli_tree_lists_objects [OF sample_world_tree_ok, of "Event None" sample_env sample_client "[]"]
  show ?thesis unfolding d by (auto simp: sample_env_def initial_callbacks_def)
qed

text \<open>What the client reads when the library refuses.\<close>

definition error_reply :: "runtime_error \<Rightarrow> string" where
  "error_reply e = ''ERROR '' @ show_int (code_value (code e)) @ '': '' @ what e @ [CHR 0x0A] @ prompt"

lemma process_error:
  assumes "s \<noteq> []" "\<not> is_bracket_or_space (hd s)" "\<not> is_bracket_or_space (last s)"
    and "run_request E (s @ [CHR 0x0A]) s (cw, new_ostream out) = (Inl (Runtime e), (cw', new_ostream out'))"
  shows "process_request E (s @ [CHR 0x0A]) (cw, out) = (Inr (), (cw', out' @ error_reply e))"
proof -
  have "sint (word_of_int (code_value (code e)) :: 64 word) = code_value (code e)"
    by (cases e) simp_all
  then show ?thesis
    using assms by (simp add: process_request_def trim_line report_def st_then_def Let_def put_code_def
        put_integer_def new_ostream_def error_reply_def)
qed

lemma run_words:
  assumes "uri_ok uri" "r = [] \<or> is_space (hd r)" "op \<in> {''get'', ''set'', ''exec''}" "op = ''exec'' \<Longrightarrow> uri \<noteq> ''change-ul''"
  shows "run_request E request (op @ CHR '' '' # uri @ r) =
    st_then (if r = [] then ret None else from_result (map_sum id Some (parse_value (b64_dec_it E) r)))
      (\<lambda>value. run_operation E request op uri value)"
proof -
  note u = uri_words [OF assms(1)]
  have 1: "read_word (op @ CHR '' '' # uri @ r) = (op, CHR '' '' # uri @ r)"
    using assms(3) by (intro read_word_append(1)) (auto simp: is_space_def)
  have 2: "read_word (CHR '' '' # uri @ r) = (uri, r)"
    using u assms(2) by (intro read_word_append(2)) simp_all
  have "map to_lower op = op" using assms(3) by (auto simp: to_lower_def)
  then show ?thesis using u assms(4) by (auto simp: run_request_def 1 2 Let_def)
qed

lemmas run_defs = run_operation_def tell_request_def with_world_def with_client_def on_fst_def on_world_def
  ret_def st_then_def find_target_def from_result_def

lemma last_request:
  assumes "uri_ok uri"
  shows "\<not> is_bracket_or_space (last (op @ CHR '' '' # uri))"
  using uri_last [OF assms] uri_words [OF assms] by simp

text \<open>
  C35. A denied or mistaken request is answered with the error's code and text and changes nothing:
  getting, setting or executing an object that does not exist, has no such interface or lies beyond
  the client's userlevel.
\<close>

theorem cli_errors_reported:
  assumes "idle (dict E) w" and "uri_ok uri" and "uri \<noteq> ''ul''" and "uri \<noteq> ''change-ul''"
    and "request_cb (callbacks E) = None"
    and "find_descendant_object (tree w) (dict E) uri CHR '':'' = Inr obj"
    and "base64_iterators (b64_enc_it E) (b64_dec_it E)" and "base64_text (b64_enc_it E)" and "readable_value g"
  shows "(read_denied read_interface c obj w = Some e \<longrightarrow>
      process_request E (''get '' @ uri @ [CHR 0x0A]) ((c, w), out) = (Inr (), ((c, w), out @ error_reply e))) \<and>
    (write_denied write_interface c obj w = Some e \<longrightarrow>
      process_request E (''set '' @ uri @ '' '' @ value_text (b64_enc_it E) g @ [CHR 0x0A]) ((c, w), out) =
        (Inr (), ((c, w), out @ error_reply e))) \<and>
    (write_denied event_interface c obj w = Some e \<longrightarrow>
      process_request E (''exec '' @ uri @ [CHR 0x0A]) ((c, w), out) = (Inr (), ((c, w), out @ error_reply e)))"
proof (intro conjI impI)
  note d = cast_denied [OF assms(1), where e = e and c = c and obj = obj]
  note w = run_words [OF assms(2), of "[]", simplified] run_words [OF assms(2), of "CHR '' '' # r" for r]
  note u = uri_words [OF assms(2)] last_request [OF assms(2)]
  have b: "\<not> is_bracket_or_space CHR ''g''" "\<not> is_bracket_or_space CHR ''s''" "\<not> is_bracket_or_space CHR ''e''"
    by (simp_all add: is_bracket_or_space_def is_space_def)
  {
    assume "read_denied read_interface c obj w = Some e"
    then have "get_parameter (big_endian E) (dict E) c obj w = (Inl (Runtime e), w)" by (rule d(3))
    then have "run_request E ((''get'' @ CHR '' '' # uri) @ [CHR 0x0A]) (''get'' @ CHR '' '' # uri) ((c, w), new_ostream out) =
        (Inl (Runtime e), ((c, w), new_ostream out))"
      using u(1) assms(3,5,6) by (subst w(1)) (simp_all add: run_defs)
    from process_error [OF _ _ u(2) this] b
    show "process_request E (''get '' @ uri @ [CHR 0x0A]) ((c, w), out) = (Inr (), ((c, w), out @ error_reply e))" by simp
  next
    let ?v = "CHR '' '' # value_text (b64_enc_it E) g"
    assume "write_denied write_interface c obj w = Some e"
    then have "set_parameter (signals_of E) (big_endian E) (dict E) c obj g w = (Inl (Runtime e), w)" by (rule d(1))
    then have r: "run_request E ((''set'' @ CHR '' '' # uri @ ?v) @ [CHR 0x0A]) (''set'' @ CHR '' '' # uri @ ?v)
        ((c, w), new_ostream out) = (Inl (Runtime e), ((c, w), new_ostream out))"
      using u(1) assms(5,6) by (subst w(2)) (simp_all add: run_defs parse_value_text(2) [OF assms(7-9)] is_space_def)
    have "\<not> is_bracket_or_space (last (''set'' @ CHR '' '' # uri @ ?v))"
      using value_text_last [OF assms(8,9)] value_text_start [OF assms(9), of "b64_enc_it E"] by simp
    from process_error [OF _ _ this r] b
    show "process_request E (''set '' @ uri @ '' '' @ value_text (b64_enc_it E) g @ [CHR 0x0A]) ((c, w), out) =
        (Inr (), ((c, w), out @ error_reply e))" by simp
  next
    assume "write_denied event_interface c obj w = Some e"
    then have "signal_event (dict E) c obj w = (Inl (Runtime e), w)" by (rule d(2))
    then have "run_request E ((''exec'' @ CHR '' '' # uri) @ [CHR 0x0A]) (''exec'' @ CHR '' '' # uri) ((c, w), new_ostream out) =
        (Inl (Runtime e), ((c, w), new_ostream out))"
      using u(1) assms(4-6) by (subst w(1)) (simp_all add: run_defs)
    from process_error [OF _ _ u(2) this] b
    show "process_request E (''exec '' @ uri @ [CHR 0x0A]) ((c, w), out) = (Inr (), ((c, w), out @ error_reply e))" by simp
  }
qed

theorem cli_errors_reported_witness:
  "process_request sample_env (''get q'' @ [CHR 0x0A]) ((sample_client, sample_world (Event None)), []) =
     (Inr (), ((sample_client, sample_world (Event None)), error_reply invalid_parameter_error))"
proof -
  have f: "find_descendant_object (tree (sample_world (Event None))) (dict sample_env) ''q'' CHR '':'' = Inr None"
    by (simp add: find_descendant_object.simps find_child_def children_of_def sample_world_def sample_env_def)
  have i: "idle (dict sample_env) (sample_world (Event None))"
    using sample_facts(1) by (simp add: sample_env_simps)
  from cli_errors_reported [OF i _ _ _ _ f, THEN conjunct1, of "Scalar_t (Boolean_t True)" sample_client invalid_parameter_error "[]"]
  show ?thesis
    using b64_iterators b64_enc_text
    by (simp add: uri_ok_def is_bracket_or_space_def is_space_def sample_env_simps initial_callbacks_def read_denied_def)
qed
end
