(* ===== verification/Pubsub_Context.thy ===== *)
theory Pubsub_Context
  imports Cli_Round_Trip Update_Container
begin

text \<open>
  The publish/subscribe connection of the command line (\<open>src/cli/pubsub_context.cpp\<close>): requests to
  subscribe and unsubscribe, the updates the signals deliver, and the chain of writes that empties
  the queue of updates into the socket. As for the request/response connection, Boost.Asio is what
  it documents; here a read and a write are outstanding independently.

  Error texts are appended to the output buffer even while a write is outstanding. Asio's
  documentation says that this invalidates the buffers the write works on; the model gives it the
  benign meaning, that the write goes on with the bytes it was started with.
\<close>

subsection \<open>State\<close>

record ('e, 'g) pubsub_env = "('e, 'g) cli_env" +
  clock :: "nat \<Rightarrow> time_point"
  put_time :: "time_point \<Rightarrow> string"

text \<open>
  \<open>readings\<close> counts the readings of the system clock, \<open>in_flight\<close> the bytes of the outstanding
  write; \<open>crashed\<close> is the exception, if one has left a handler.
\<close>

record ('e, 'g) pubsub_context =
  pserves :: "client \<times> ('e, 'g) world"
  pinbuf :: string
  poutbuf :: string
  socket_send_buf_size :: nat
  pending_updates :: update_container
  writing_active :: bool
  readings :: nat
  in_flight :: nat
  reading :: bool
  is_open :: bool
  crashed :: "error option"
  pwire :: string
  psent :: string

definition new_pubsub_context ::
  "('e, 'g) pubsub_env \<Rightarrow> addr \<Rightarrow> userlevel \<Rightarrow> nat \<Rightarrow> ('e, 'g) world \<Rightarrow> error + ('e, 'g) pubsub_context" where
  "new_pubsub_context E a ul send_buf_size w =
     (case tell_connection (callbacks E) True True (remote_endpoint E) w of
        (Inl e, w') \<Rightarrow> Inl e
      | (Inr u, w') \<Rightarrow> Inr
          \<lparr>pserves = (new_client a ul, w'), pinbuf = [], poutbuf = [], socket_send_buf_size = send_buf_size,
           pending_updates = new_container, writing_active = False, readings = 0, in_flight = 0,
           reading = False, is_open = True, crashed = None, pwire = [], psent = []\<rparr>)"

subsection \<open>Writing\<close>

text \<open>\<open>operator<<\<close> for \<open>iso8601_time\<close> depends on the time zone and is an argument, \<open>put_time\<close>.\<close>

definition write_update :: "('e, 'g) pubsub_env \<Rightarrow> update \<Rightarrow> ostream \<Rightarrow> ostream" where
  "write_update E u out = (case u of (uri, v, t) \<Rightarrow>
     put ('')'' @ [CHR 0x0A]) (encode_value (b64_enc_it E) v
       (put (''('' @ put_time E t @ [CHR '' '', CHR 0x27] @ uri @ '' '') out)))"

partial_function (option) write_updates ::
  "('e, 'g) pubsub_env \<Rightarrow> nat \<Rightarrow> update_container \<Rightarrow> ostream \<Rightarrow> ((error + unit) \<times> update_container \<times> ostream) option"
  where
  "write_updates E limit c out =
     (if \<not> is_empty c \<and> length (buf out) < limit then
        (case pop_front c of
           Inl e \<Rightarrow> Some (Inl e, c, out)
         | Inr (u, c') \<Rightarrow> write_updates E limit c' (write_update E u out))
      else Some (Inr (), c, out))"

definition preload_writing :: "('e, 'g) pubsub_env \<Rightarrow> (('e, 'g) pubsub_context, unit) act" where
  "preload_writing E st =
     (if writing_active st then (Inr (), st)
      else case write_updates E (socket_send_buf_size st) (pending_updates st) (new_ostream (poutbuf st)) of
             None \<Rightarrow> (Inl Undefined, st)
           | Some (Inl e, c, out) \<Rightarrow> (Inl e, st\<lparr>pending_updates := c, poutbuf := buf out\<rparr>)
           | Some (Inr u, c, out) \<Rightarrow>
               if buf out = [] then (Inr (), st\<lparr>pending_updates := c, poutbuf := buf out\<rparr>)
               else (Inr (), st\<lparr>pending_updates := c, poutbuf := buf out, in_flight := length (buf out),
                       writing_active := True\<rparr>))"

text \<open>\<open>std::chrono::system_clock::now()\<close>\<close>

definition read_clock :: "('e, 'g) pubsub_env \<Rightarrow> (('e, 'g) pubsub_context, time_point) act" where
  "read_clock E st = (Inr (clock E (readings st)), st\<lparr>readings := Suc (readings st)\<rparr>)"

definition root_name :: "('e, 'g) pubsub_env \<Rightarrow> (('e, 'g) pubsub_context, string) act" where
  "root_name E st = (map_sum id oname (deref (tree (snd (pserves st))) (dict E)), st)"

definition enqueue :: "string \<Rightarrow> value_t \<Rightarrow> time_point \<Rightarrow> (('e, 'g) pubsub_context, unit) act" where
  "enqueue uri v now st =
     (case push uri v now (pending_updates st) of
        Inl e \<Rightarrow> (Inl e, st)
      | Inr c \<Rightarrow> (Inr (), st\<lparr>pending_updates := c\<rparr>))"

definition cut_root :: "string \<Rightarrow> string \<Rightarrow> string" where
  "cut_root root uri = (if uri \<noteq> root then drop (length root + 1) uri else uri)"

definition notify :: "('e, 'g) pubsub_env \<Rightarrow> string \<Rightarrow> value_t \<Rightarrow> (('e, 'g) pubsub_context, unit) act" where
  "notify E uri v =
     st_then (root_name E) (\<lambda>root.
     st_then (read_clock E) (\<lambda>now.
     st_then (enqueue (cut_root root uri) v now) (\<lambda>_.
     preload_writing E)))"

subsection \<open>Requests\<close>

definition on_serves :: "(client \<times> ('e, 'g) world, 'a) act \<Rightarrow> (('e, 'g) pubsub_context, 'a) act" where
  "on_serves f st = (case f (pserves st) of (r, cw) \<Rightarrow> (r, st\<lparr>pserves := cw\<rparr>))"

text \<open>
  \<open>observe\<close> with \<open>notify\<close> bound to this context as the slot: what it delivers to the slot arrives
  through \<open>notify\<close>, before the result.
\<close>

definition deliveries_to :: "slot \<Rightarrow> delivery list \<Rightarrow> delivery list" where
  "deliveries_to s ds = filter (\<lambda>d. fst d = s) ds"

definition observe_here :: "('e, 'g) pubsub_env \<Rightarrow> addr option \<Rightarrow> (('e, 'g) pubsub_context, unit) act" where
  "observe_here E obj st =
     (case pserves st of (c, w) \<Rightarrow>
       (case observe (signals_of E) (big_endian E) (dict E) obj (c, w) of
          (r, (c', w')) \<Rightarrow>
            st_then (each (\<lambda>(s, uri, v). notify E uri v)
                (deliveries_to (cid c) (drop (length (deliveries w)) (deliveries w'))))
              (\<lambda>_ st'. (r, st')) (st\<lparr>pserves := (c', w')\<rparr>)))"

definition ul_name :: "('e, 'g) pubsub_env \<Rightarrow> (('e, 'g) pubsub_context, unit) act" where
  "ul_name E = st_then (root_name E) (\<lambda>root st.
     notify E (root @ '':ul'') (Scalar_t (Integer_t (word_of_int (cul (fst (pserves st)))))) st)"

definition pubsub_change_ul :: "('e, 'g) pubsub_env \<Rightarrow> string \<Rightarrow> (('e, 'g) pubsub_context, unit) act" where
  "pubsub_change_ul E tail = (case read_userlevel tail of (ul, password) \<Rightarrow>
     st_then (\<lambda>st. on_serves (on_world (run_handler (userlevel_cb (callbacks E) (fst (pserves st)) ul password))) st) (\<lambda>ok.
       if \<not> ok then throw (Runtime access_denied_error)
       else st_then (on_serves (on_client (set_userlevel ul))) (\<lambda>_. ul_name E)))"

definition run_pubsub :: "('e, 'g) pubsub_env \<Rightarrow> string \<Rightarrow> string \<Rightarrow> string \<Rightarrow> (('e, 'g) pubsub_context, unit) act" where
  "run_pubsub E request command uri =
     (let tell = (\<lambda>t. on_serves (on_world (tell_request (callbacks E) t request (remote_endpoint E))));
          find = on_serves (on_world (find_target (cli_env.truncate E) uri))
      in if command = ''subscribe'' \<or> command = ''add'' then
           st_then (tell subscribe_r) (\<lambda>_.
             if uri = ''ul'' then ul_name E else st_then find (observe_here E))
         else if command = ''unsubscribe'' \<or> command = ''remove'' then
           st_then (tell unsubscribe_r) (\<lambda>_.
           st_then find (\<lambda>obj. on_serves (unobserve (signals_of E) (dict E) obj)))
         else throw (Runtime unknown_operation_error))"

text \<open>The error texts; \<open>uri\<close> is still empty if the command had none.\<close>

definition say :: "string \<Rightarrow> (('e, 'g) pubsub_context, unit) act" where
  "say s st = (Inr (), st\<lparr>poutbuf := poutbuf st @ s\<rparr>)"

definition complain ::
  "('e, 'g) pubsub_env \<Rightarrow> error_codes \<Rightarrow> string \<Rightarrow> (('e, 'g) pubsub_context, unit) act" where
  "complain E ec explanation =
     st_then (read_clock E) (\<lambda>now.
     st_then (say (''(Error: '' @ show_int (code_value ec) @ '' ('' @ put_time E now @ '' '' @
         [CHR 0x27] @ ''COMMAND_ERROR) '' @ explanation @ [CHR 0x0A])) (\<lambda>_.
     preload_writing E))"

definition report_error :: "('e, 'g) pubsub_env \<Rightarrow> string \<Rightarrow> error + unit \<Rightarrow> (('e, 'g) pubsub_context, unit) act" where
  "report_error E uri r = (case r of
     Inr u \<Rightarrow> ret ()
   | Inl Assertion_failed \<Rightarrow> throw Assertion_failed
   | Inl Undefined \<Rightarrow> throw Undefined
   | Inl (Runtime ex) \<Rightarrow>
       if ex = invalid_parameter_error
       then complain E (code ex) (''Parameter '' @ [CHR 0x27] @ uri @ '' not found)'')
       else complain E (code ex) (what ex)
   | Inl _ \<Rightarrow> complain E UNKNOWN_ERROR ''Unknown error'')"

definition pubsub_process_request :: "('e, 'g) pubsub_env \<Rightarrow> string \<Rightarrow> (('e, 'g) pubsub_context, unit) act" where
  "pubsub_process_request E request st =
     (let trimmed = trim_if is_bracket_or_space request;
          (command, tail) = read_word trimmed
      in if command = ''change-ul''
         then (case pubsub_change_ul E tail st of (r, st') \<Rightarrow> report_error E [] r st')
         else let uri = strip_quote (fst (read_word tail))
              in (case run_pubsub E request (map to_lower command) uri st of
                    (r, st') \<Rightarrow> report_error E uri r st'))"

subsection \<open>Handlers and events\<close>

definition crash :: "(error + unit) \<times> ('e, 'g) pubsub_context \<Rightarrow> ('e, 'g) pubsub_context" where
  "crash rst = (case rst of (Inl e, st) \<Rightarrow> st\<lparr>crashed := Some e\<rparr> | (Inr u, st) \<Rightarrow> st)"

definition pubsub_preload :: "('e, 'g) pubsub_context \<Rightarrow> ('e, 'g) pubsub_context" where
  "pubsub_preload st = st\<lparr>reading := True\<rparr>"

definition close :: "('e, 'g) pubsub_env \<Rightarrow> (('e, 'g) pubsub_context, unit) act" where
  "close E = st_then (on_serves (on_world (tell_connection (callbacks E) True False (remote_endpoint E))))
     (\<lambda>_ st. (Inr (), st\<lparr>is_open := False\<rparr>))"

definition pubsub_read_handler ::
  "('e, 'g) pubsub_env \<Rightarrow> bool \<Rightarrow> nat \<Rightarrow> (('e, 'g) pubsub_context, unit) act" where
  "pubsub_read_handler E error bytes_transferred =
     (if \<not> error then
        st_then (\<lambda>st. pubsub_process_request E (take bytes_transferred (pinbuf st)) st)
          (\<lambda>_ st. (Inr (), pubsub_preload (st\<lparr>pinbuf := drop bytes_transferred (pinbuf st)\<rparr>)))
      else close E)"

definition pubsub_write_handler :: "('e, 'g) pubsub_env \<Rightarrow> bool \<Rightarrow> (('e, 'g) pubsub_context, unit) act" where
  "pubsub_write_handler E error st =
     (if \<not> error then preload_writing E (st\<lparr>writing_active := False\<rparr>) else close E st)"

text \<open>
  What can happen to the context: bytes arrive, the read takes up to \<open>n\<close> bytes, the write completes,
  one of them fails, a signal calls the slot, and anything may happen to the rest of the program
  between.
\<close>

datatype ('e, 'g) pubsub_event =
    PArrived string | PReceived nat | PWritten | Read_failed | Write_failed
  | Notified string value_t | Elsewhere "('e, 'g) world"

fun pubsub_step ::
  "('e, 'g) pubsub_env \<Rightarrow> ('e, 'g) pubsub_event \<Rightarrow> ('e, 'g) pubsub_context \<Rightarrow> ('e, 'g) pubsub_context" where
  "pubsub_step E (PArrived s) st = st\<lparr>pwire := pwire st @ s\<rparr>"
| "pubsub_step E (PReceived n) st =
     (if reading st \<and> is_open st
      then let st1 = st\<lparr>pinbuf := pinbuf st @ take n (pwire st), pwire := drop n (pwire st)\<rparr>
           in if CHR 0x0A \<in> set (pinbuf st1)
              then crash (pubsub_read_handler E False (upto_newline (pinbuf st1)) (st1\<lparr>reading := False\<rparr>))
              else st1
      else st)"
| "pubsub_step E PWritten st =
     (if writing_active st \<and> is_open st
      then crash (pubsub_write_handler E False (st\<lparr>psent := psent st @ take (in_flight st) (poutbuf st),
             poutbuf := drop (in_flight st) (poutbuf st), in_flight := 0\<rparr>))
      else st)"
| "pubsub_step E Read_failed st =
     (if reading st then crash (pubsub_read_handler E True 0 (st\<lparr>reading := False\<rparr>)) else st)"
| "pubsub_step E Write_failed st =
     (if writing_active st then crash (pubsub_write_handler E True st) else st)"
| "pubsub_step E (Notified uri v) st = crash (notify E uri v st)"
| "pubsub_step E (Elsewhere w) st = st\<lparr>pserves := (fst (pserves st), w)\<rparr>"

definition pubsub_run ::
  "('e, 'g) pubsub_env \<Rightarrow> ('e, 'g) pubsub_event list \<Rightarrow> ('e, 'g) pubsub_context \<Rightarrow> ('e, 'g) pubsub_context" where
  "pubsub_run E evs st = fold (\<lambda>ev st. if crashed st = None then pubsub_step E ev st else st) evs st"


subsection \<open>The queue of updates\<close>

text \<open>\<open>taken\<close>: how many updates a round of writing takes, with the output it leads to.\<close>

fun taken :: "('e, 'g) pubsub_env \<Rightarrow> nat \<Rightarrow> update list \<Rightarrow> ostream \<Rightarrow> nat" where
  "taken E limit [] out = 0"
| "taken E limit (u # us) out =
     (if length (buf out) < limit then Suc (taken E limit us (write_update E u out)) else 0)"

lemma write_updates_takes:
  "represents c xs \<Longrightarrow> \<exists>c'. represents c' (drop (taken E limit xs out) xs) \<and>
     write_updates E limit c out = Some (Inr (), c', fold (write_update E) (take (taken E limit xs out) xs) out)"
proof (induction xs arbitrary: c out)
  case Nil
  then have "is_empty c" using uc.rep_nil by blast
  with Nil show ?case by (simp add: write_updates.simps)
next
  case (Cons u us)
  from Cons.prems have ne: "\<not> is_empty c" using uc.rep_nil by blast
  show ?case
  proof (cases "length (buf out) < limit")
    case True
    obtain c1 where c1: "pop_front c = Inr (u, c1)" "represents c1 us"
      using uc.rep_po_Cons [OF Cons.prems] by blast
    from Cons.IH [OF c1(2), of "write_update E u out"] show ?thesis
      using True ne c1(1) by (subst write_updates.simps) simp
  next
    case False
    then show ?thesis using ne Cons.prems by (subst write_updates.simps) simp
  qed
qed

lemma encode_scalar_appends: "\<exists>t. buf (encode_scalar it x os) = buf os @ t"
  by (cases x) (simp_all add: put_integer_def encode_string_buf)

lemma encode_value_appends: "\<exists>t. buf (encode_value it v os) = buf os @ t"
proof -
  have e: "\<exists>t. buf (encode_elements it xs os) = buf os @ t" for xs os
  proof (induction it xs os rule: encode_elements.induct)
    case (2 it x os)
    then show ?case using encode_scalar_appends by simp
  next
    case (3 it x y xs os)
    obtain t where "buf (encode_scalar it x os) = buf os @ t" using encode_scalar_appends by blast
    with 3 show ?case by fastforce
  qed simp
  show ?thesis
  proof (cases v)
    case (Sequence_t xs)
    with e [of xs "put ''['' os"] show ?thesis by fastforce
  next
    case (Tuple_t xs)
    with e [of xs "put ''{'' os"] show ?thesis by fastforce
  qed (simp add: encode_scalar_appends)
qed

lemma write_update_longer: "length (buf out) < length (buf (write_update E u out))"
proof -
  obtain uri v t where u: "u = (uri, v, t)" by (cases u)
  obtain s where "buf (encode_value (b64_enc_it E) v (put (''('' @ put_time E t @ [CHR '' '', CHR 0x27] @ uri @ '' '') out)) =
      buf (put (''('' @ put_time E t @ [CHR '' '', CHR 0x27] @ uri @ '' '') out) @ s"
    using encode_value_appends by blast
  then show ?thesis by (simp add: write_update_def u)
qed

lemma fold_update_longer: "length (buf out) \<le> length (buf (fold (write_update E) us out))"
  by (induction us arbitrary: out) (auto intro: order.trans [OF less_imp_le [OF write_update_longer]])

lemma taken_fills: "taken E limit xs out < length xs \<Longrightarrow> limit \<le> length (buf (fold (write_update E) (take (taken E limit xs out) xs) out))"
proof (induction xs arbitrary: out)
  case (Cons u us)
  then show ?case by (cases "length (buf out) < limit") auto
qed simp

lemma taken_le: "taken E limit xs out \<le> length xs"
  by (induction xs arbitrary: out) auto

lemma taken_first: "xs \<noteq> [] \<Longrightarrow> length (buf out) < limit \<Longrightarrow> 0 < taken E limit xs out"
  by (cases xs) auto

subsection \<open>Nothing waits without a write\<close>

text \<open>
  In between: the queue is intact, and the outstanding write covers bytes that are there.
  At rest also: as long as no write is outstanding, nothing waits to be written.
\<close>

definition queue_intact :: "('e, 'g) pubsub_context \<Rightarrow> bool" where
  "queue_intact st \<longleftrightarrow> (\<exists>xs. represents (pending_updates st) xs) \<and> 0 < socket_send_buf_size st \<and>
     (writing_active st \<longrightarrow> 0 < in_flight st \<and> in_flight st \<le> length (poutbuf st))"

definition writes_on :: "('e, 'g) pubsub_context \<Rightarrow> bool" where
  "writes_on st \<longleftrightarrow> queue_intact st \<and>
     (\<not> writing_active st \<longrightarrow> represents (pending_updates st) [] \<and> poutbuf st = [])"

lemma writes_on_intact: "writes_on st \<Longrightarrow> queue_intact st"
  by (simp add: writes_on_def)

text \<open>What \<open>preload_writing\<close> does, on an intact queue.\<close>

lemma preload_writing_idle:
  assumes "represents (pending_updates st) xs" "\<not> writing_active st"
  shows "let k = taken E (socket_send_buf_size st) xs (new_ostream (poutbuf st));
      out = buf (fold (write_update E) (take k xs) (new_ostream (poutbuf st)))
    in \<exists>c. represents c (drop k xs) \<and> preload_writing E st =
      (Inr (), if out = [] then st\<lparr>pending_updates := c, poutbuf := out\<rparr>
               else st\<lparr>pending_updates := c, poutbuf := out, in_flight := length out, writing_active := True\<rparr>)"
  using write_updates_takes [OF assms(1), of E "socket_send_buf_size st" "new_ostream (poutbuf st)"] assms(2)
  by (auto simp: preload_writing_def Let_def)

lemma preload_writing_writes_on:
  assumes "queue_intact st"
  shows "\<exists>st'. preload_writing E st = (Inr (), st') \<and> writes_on st' \<and> is_open st' = is_open st"
proof (cases "writing_active st")
  case True
  with assms show ?thesis by (simp add: preload_writing_def writes_on_def)
next
  case False
  from assms obtain xs where xs: "represents (pending_updates st) xs" "0 < socket_send_buf_size st"
    by (auto simp: queue_intact_def)
  let ?k = "taken E (socket_send_buf_size st) xs (new_ostream (poutbuf st))"
  let ?out = "buf (fold (write_update E) (take ?k xs) (new_ostream (poutbuf st)))"
  obtain c where c: "represents c (drop ?k xs)" "preload_writing E st =
      (Inr (), if ?out = [] then st\<lparr>pending_updates := c, poutbuf := ?out\<rparr>
               else st\<lparr>pending_updates := c, poutbuf := ?out, in_flight := length ?out, writing_active := True\<rparr>)"
    using preload_writing_idle [OF xs(1) False, of E] unfolding Let_def by blast
  show ?thesis
  proof (cases "?out = []")
    case True
    then have "\<not> ?k < length xs" using taken_fills [of E "socket_send_buf_size st" xs] xs(2) by fastforce
    with c True xs(2) False show ?thesis by (auto simp: writes_on_def queue_intact_def)
  next
    case False
    with c xs(2) show ?thesis by (auto simp: writes_on_def queue_intact_def)
  qed
qed

text \<open>
  An operation \<open>keeps_queue\<close> if it leaves an intact queue intact, whatever happens; one that
  \<open>settles\<close> also leaves nothing waiting if nothing was, unless undefined behaviour or a failed
  assertion stops the program.
\<close>

definition keeps_queue :: "(('e, 'g) pubsub_context, 'a) act \<Rightarrow> bool" where
  "keeps_queue f \<longleftrightarrow> (\<forall>st. queue_intact st \<longrightarrow> queue_intact (snd (f st)) \<and>
     (writes_on st \<longrightarrow> writes_on (snd (f st))))"

lemma keeps_queueD: "keeps_queue f \<Longrightarrow> queue_intact st \<Longrightarrow>
  queue_intact (snd (f st)) \<and> (writes_on st \<longrightarrow> writes_on (snd (f st)))"
  by (simp add: keeps_queue_def)

named_theorems queue_intros \<open>operations that keep the queue of updates\<close>

lemma keeps_queue_then [queue_intros]:
  assumes "keeps_queue f" "\<And>x. keeps_queue (g x)"
  shows "keeps_queue (st_then f g)"
  unfolding keeps_queue_def
proof (intro allI impI)
  fix st :: "('a, 'b) pubsub_context"
  assume q: "queue_intact st"
  obtain r st1 where f: "f st = (r, st1)" by fastforce
  have 1: "queue_intact st1 \<and> (writes_on st \<longrightarrow> writes_on st1)" using assms(1) q f unfolding keeps_queue_def by (metis snd_conv)
  show "queue_intact (snd (st_then f g st)) \<and> (writes_on st \<longrightarrow> writes_on (snd (st_then f g st)))"
  proof (cases r)
    case (Inr x)
    have "queue_intact (snd (g x st1)) \<and> (writes_on st1 \<longrightarrow> writes_on (snd (g x st1)))"
      using assms(2) 1 unfolding keeps_queue_def by blast
    with 1 f Inr show ?thesis by simp
  qed (use f 1 in simp)
qed

lemma keeps_queue_basic [queue_intros]:
  "keeps_queue (ret x)" "keeps_queue (throw e)" "keeps_queue (on_serves h)" "keeps_queue (read_clock E)"
  "keeps_queue (root_name E)" "keeps_queue (\<lambda>st. (r, st))"
  by (auto simp: keeps_queue_def ret_def throw_def on_serves_def read_clock_def root_name_def queue_intact_def
      writes_on_def split: prod.split)

lemma keeps_queue_if [queue_intros]: "keeps_queue f \<Longrightarrow> keeps_queue g \<Longrightarrow> keeps_queue (if b then f else g)"
  by simp

lemma keeps_queue_enqueue:
  assumes "queue_intact st"
  shows "\<exists>st'. enqueue uri v now st = (Inr (), st') \<and> queue_intact st'"
proof -
  from assms obtain xs where "represents (pending_updates st) xs" by (auto simp: queue_intact_def)
  from uc.rep_pu [OF this] obtain q ys where "push uri v now (pending_updates st) = Inr q" "represents q ys" by blast
  with assms show ?thesis by (auto simp: enqueue_def queue_intact_def)
qed

lemma keeps_queue_write:
  assumes "\<And>st. queue_intact st \<Longrightarrow> queue_intact (snd (f st))" "\<And>st. queue_intact st \<Longrightarrow> isl (fst (f st)) \<Longrightarrow> f st = (fst (f st), st)"
  shows "keeps_queue (st_then f (\<lambda>x. preload_writing E))"
  unfolding keeps_queue_def
proof (intro allI impI)
  fix st :: "('a, 'b) pubsub_context"
  assume q: "queue_intact st"
  obtain r st1 where f: "f st = (r, st1)" by fastforce
  have 1: "queue_intact st1" using assms(1) [OF q] f by simp
  show "queue_intact (snd (st_then f (\<lambda>x. preload_writing E) st)) \<and>
    (writes_on st \<longrightarrow> writes_on (snd (st_then f (\<lambda>x. preload_writing E) st)))"
  proof (cases r)
    case (Inl e)
    then show ?thesis using assms(2) [OF q] f q by (auto simp: st_then_def)
  next
    case (Inr x)
    then show ?thesis using preload_writing_writes_on [OF 1, of E] f writes_on_intact by (auto simp: st_then_def)
  qed
qed

lemma keeps_queue_notify [queue_intros]: "keeps_queue (notify E uri v)"
proof -
  have "keeps_queue (st_then (enqueue (cut_root root uri) v now) (\<lambda>_. preload_writing E))" for root now
  proof (rule keeps_queue_write)
    fix st :: "('a, 'b) pubsub_context"
    assume "queue_intact st"
    from keeps_queue_enqueue [OF this] obtain st' where
      "enqueue (cut_root root uri) v now st = (Inr (), st')" "queue_intact st'" by blast
    then show "queue_intact (snd (enqueue (cut_root root uri) v now st))"
      "isl (fst (enqueue (cut_root root uri) v now st)) \<Longrightarrow>
         enqueue (cut_root root uri) v now st = (fst (enqueue (cut_root root uri) v now st), st)" by simp_all
  qed
  then show ?thesis unfolding notify_def by (intro keeps_queue_then [OF keeps_queue_basic(5)] keeps_queue_then [OF keeps_queue_basic(4)])
qed

lemma keeps_queue_complain [queue_intros]: "keeps_queue (complain E ec s)"
proof -
  have "keeps_queue (st_then (say t) (\<lambda>_. preload_writing E))" for t
    by (rule keeps_queue_write) (auto simp: say_def queue_intact_def)
  then show ?thesis unfolding complain_def by (intro keeps_queue_then [OF keeps_queue_basic(4)])
qed

lemma keeps_queue_each [queue_intros]: "(\<And>x. keeps_queue (f x)) \<Longrightarrow> keeps_queue (each f xs)"
  by (induction xs) (auto intro: queue_intros)

lemma keeps_queue_serves: "keeps_queue (\<lambda>st. on_serves (f st) st)"
  by (auto simp: keeps_queue_def on_serves_def queue_intact_def writes_on_def split: prod.split)

lemma keeps_queue_observe [queue_intros]: "keeps_queue (observe_here E obj)"
proof -
  have k: "keeps_queue (st_then (each (\<lambda>(s, uri, v). notify E uri v) ds) (\<lambda>_ st'. (r, st')))" for ds r
    by (intro queue_intros) (auto split: prod.split intro: queue_intros)
  show ?thesis
    unfolding keeps_queue_def
  proof (intro allI impI)
    fix st :: "('a, 'b) pubsub_context"
    assume q: "queue_intact st"
    obtain c w r c' w' where o: "pserves st = (c, w)" "observe (signals_of E) (big_endian E) (dict E) obj (c, w) = (r, (c', w'))"
      by (metis surj_pair)
    have "queue_intact (st\<lparr>pserves := (c', w')\<rparr>)" "writes_on (st\<lparr>pserves := (c', w')\<rparr>) = writes_on st"
      using q by (simp_all add: queue_intact_def writes_on_def)
    with keeps_queueD [OF k, of "st\<lparr>pserves := (c', w')\<rparr>"]
    show "queue_intact (snd (observe_here E obj st)) \<and> (writes_on st \<longrightarrow> writes_on (snd (observe_here E obj st)))"
      unfolding observe_here_def o by (simp add: o)
  qed
qed

lemma keeps_queue_ul [queue_intros]: "keeps_queue (ul_name E)"
proof -
  have "keeps_queue (\<lambda>st. notify E n (f st) st)" for n f
    using keeps_queue_notify unfolding keeps_queue_def by blast
  then show ?thesis unfolding ul_name_def by (intro keeps_queue_then [OF keeps_queue_basic(5)])
qed

lemma keeps_queue_change_ul: "keeps_queue (pubsub_change_ul E tail)"
  unfolding pubsub_change_ul_def
  by (auto split: prod.split intro!: queue_intros keeps_queue_serves)

lemma keeps_queue_run: "keeps_queue (run_pubsub E request command uri)"
  unfolding run_pubsub_def Let_def by (intro queue_intros)

lemma keeps_queue_report: "keeps_queue (report_error E uri r)"
  unfolding report_error_def by (cases r) (auto split: error.split intro!: queue_intros)

lemma keeps_queue_request: "keeps_queue (pubsub_process_request E request)"
proof -
  have two: "keeps_queue (\<lambda>st. case f st of (r, st') \<Rightarrow> report_error E uri r st')" if "keeps_queue f" for f uri
    using that keeps_queue_report [of E uri] unfolding keeps_queue_def by (simp split: prod.split) (metis snd_conv)
  show ?thesis
    unfolding pubsub_process_request_def Let_def
    using two [OF keeps_queue_change_ul] two [OF keeps_queue_run]
    by (cases "read_word (trim_if is_bracket_or_space request)";
        cases "fst (read_word (trim_if is_bracket_or_space request)) = ''change-ul''") simp_all
qed

lemma keeps_queue_close: "keeps_queue (close E)"
proof -
  have "keeps_queue (\<lambda>st. (Inr (), st\<lparr>is_open := False\<rparr>))"
    by (simp add: keeps_queue_def queue_intact_def writes_on_def)
  then show ?thesis unfolding close_def by (intro queue_intros)
qed

lemma keeps_queue_read: "keeps_queue (pubsub_read_handler E err n)"
proof -
  have "keeps_queue (\<lambda>st. (Inr (), pubsub_preload (st\<lparr>pinbuf := drop n (pinbuf st)\<rparr>)))"
    by (simp add: keeps_queue_def queue_intact_def writes_on_def pubsub_preload_def)
  moreover have "keeps_queue (\<lambda>st. pubsub_process_request E (f st) st)" for f
    using keeps_queue_request unfolding keeps_queue_def by blast
  ultimately show ?thesis
    unfolding pubsub_read_handler_def by (auto intro!: keeps_queue_then keeps_queue_close)
qed

lemma writes_on_crash: "writes_on (snd rst) \<Longrightarrow> writes_on (crash rst)"
  by (auto simp: crash_def writes_on_def queue_intact_def split: prod.split sum.split)

lemma keeps_queue_snd: "keeps_queue f \<Longrightarrow> writes_on st \<Longrightarrow> writes_on (snd (f st))"
  unfolding keeps_queue_def writes_on_def by blast

lemma written_intact:
  "queue_intact st \<Longrightarrow> queue_intact (st\<lparr>psent := s, poutbuf := b, in_flight := n, writing_active := False\<rparr>)"
  by (simp add: queue_intact_def)

lemma step_writes_on: "writes_on st \<Longrightarrow> writes_on (pubsub_step E ev st)"
proof (cases ev)
  case (PReceived n)
  assume w: "writes_on st"
  let ?st = "st\<lparr>pinbuf := pinbuf st @ take n (pwire st), pwire := drop n (pwire st)\<rparr>"
  have h: "writes_on ?st" "writes_on (?st\<lparr>reading := False\<rparr>)" using w by (simp_all add: writes_on_def queue_intact_def)
  have "writes_on (crash (pubsub_read_handler E False k (?st\<lparr>reading := False\<rparr>)))" for k
    by (rule writes_on_crash [OF keeps_queue_snd [OF keeps_queue_read h(2)]])
  with h(1) w show ?thesis by (simp add: PReceived Let_def)
next
  case PWritten
  assume w: "writes_on st"
  let ?st = "st\<lparr>psent := psent st @ take (in_flight st) (poutbuf st), poutbuf := drop (in_flight st) (poutbuf st),
    in_flight := 0, writing_active := False\<rparr>"
  have "queue_intact ?st" using written_intact [OF writes_on_intact [OF w]] .
  from preload_writing_writes_on [OF this, of E] obtain st' where "preload_writing E ?st = (Inr (), st')" "writes_on st'" by blast
  then show ?thesis using w PWritten by (simp add: pubsub_write_handler_def crash_def)
next
  case Read_failed
  assume w: "writes_on st"
  then have "writes_on (st\<lparr>reading := False\<rparr>)" by (simp add: writes_on_def queue_intact_def)
  then have "writes_on (crash (pubsub_read_handler E True 0 (st\<lparr>reading := False\<rparr>)))"
    by (rule writes_on_crash [OF keeps_queue_snd [OF keeps_queue_read]])
  with w Read_failed show ?thesis by simp
next
  case Write_failed
  assume w: "writes_on st"
  then have "writes_on (crash (close E st))" by (rule writes_on_crash [OF keeps_queue_snd [OF keeps_queue_close]])
  with w Write_failed show ?thesis by (simp add: pubsub_write_handler_def)
next
  case (Notified uri v)
  assume w: "writes_on st"
  then have "writes_on (crash (notify E uri v st))" by (rule writes_on_crash [OF keeps_queue_snd [OF keeps_queue_notify]])
  with Notified show ?thesis by simp
qed (simp_all add: writes_on_def queue_intact_def)

lemma run_writes_on: "writes_on st \<Longrightarrow> writes_on (pubsub_run E evs st)"
  unfolding pubsub_run_def by (induction evs arbitrary: st) (auto intro: step_writes_on)

lemma new_writes_on:
  assumes "new_pubsub_context E a ul n w = Inr st" "0 < n"
  shows "writes_on (pubsub_preload st)"
  using assms uc.rep_emp
  by (auto simp: new_pubsub_context_def writes_on_def queue_intact_def pubsub_preload_def split: prod.splits sum.splits)


definition sample_pubsub_env :: "(nat, (connection \<times> slot) list) pubsub_env" where
  "sample_pubsub_env = \<lparr>signals_of = list_signals, big_endian = False, dict = 0, callbacks = initial_callbacks,
     b64_enc_it = b64_enc, b64_dec_it = b64_dec, remote_endpoint = ''peer'', stack_depth = 9,
     clock = int, put_time = show_int\<rparr>"

lemma sample_pubsub_start:
  "new_pubsub_context sample_pubsub_env 9 Normal 100 w = Inr
     \<lparr>pserves = (new_client 9 Normal, w), pinbuf = [], poutbuf = [], socket_send_buf_size = 100,
      pending_updates = new_container, writing_active = False, readings = 0, in_flight = 0,
      reading = False, is_open = True, crashed = None, pwire = [], psent = []\<rparr>"
  by (simp add: new_pubsub_context_def tell_connection_def sample_pubsub_env_def initial_callbacks_def ret_def)


subsection \<open>What the subscriber reads\<close>

fun decimal_value :: "value_t \<Rightarrow> bool" where
  "decimal_value (Scalar_t x) = decimal_scalar x"
| "decimal_value (Sequence_t xs) = list_all decimal_scalar xs"
| "decimal_value (Tuple_t xs) = list_all decimal_scalar xs"

definition update_line :: "('e, 'g) pubsub_env \<Rightarrow> update \<Rightarrow> string" where
  "update_line E u = (case u of (uri, v, t) \<Rightarrow>
     ''('' @ put_time E t @ [CHR '' '', CHR 0x27] @ uri @ '' '' @ value_text (b64_enc_it E) v @ '')'' @ [CHR 0x0A])"

lemma encode_decimal_value:
  "\<not> hexfield os \<Longrightarrow> decimal_value v \<Longrightarrow>
   buf (encode_value enc v os) = buf os @ value_text enc v \<and> \<not> hexfield (encode_value enc v os)"
  using encode_elements_text [of "put c os" _ enc for c]
  by (cases v) (auto simp: encode_scalar_text)

lemma write_update_line:
  "\<not> hexfield out \<Longrightarrow> decimal_value (fst (snd u)) \<Longrightarrow>
   buf (write_update E u out) = buf out @ update_line E u \<and> \<not> hexfield (write_update E u out)"
  using encode_decimal_value [of "put (''('' @ put_time E (snd (snd u)) @ [CHR '' '', CHR 0x27] @ fst u @ '' '') out"
      "fst (snd u)" "b64_enc_it E"]
  by (cases u) (simp add: write_update_def update_line_def)

lemma fold_update_lines:
  "\<not> hexfield out \<Longrightarrow> list_all (\<lambda>u. decimal_value (fst (snd u))) us \<Longrightarrow>
   buf (fold (write_update E) us out) = buf out @ concat (map (update_line E) us)"
  by (induction us arbitrary: out) (simp_all add: write_update_line)

lemma map_of_rotate:
  assumes "distinct (map fst xs)"
  shows "map_of (drop k xs @ rev (take k xs)) = map_of xs"
proof -
  have "distinct (map fst (take k xs @ drop k xs))" using assms by simp
  then have "distinct (map fst (drop k xs @ rev (take k xs)))"
    by (auto simp: rev_map [symmetric] simp del: append_take_drop_id)
  moreover have "set (drop k xs @ rev (take k xs)) = set xs"
    by (metis append_take_drop_id set_append set_rev Un_commute)
  ultimately show ?thesis using assms by (simp only: map_of_inject_set)
qed

text \<open>
  The specification: \<open>ns\<close> are the notifications so far. What is sent or about to be sent are lines
  of notifications, and for every URI the last of these lines, or the waiting update if there is
  one, is the last notification.
\<close>

definition publishing ::
  "('e, 'g) pubsub_env \<Rightarrow> client \<times> ('e, 'g) world \<Rightarrow> update list \<Rightarrow> update list \<Rightarrow> ('e, 'g) pubsub_context \<Rightarrow> bool" where
  "publishing E cw ns xs st \<longleftrightarrow> (\<exists>us. represents (pending_updates st) xs \<and>
     psent st @ poutbuf st = concat (map (update_line E) us) \<and> map_of (xs @ rev us) = map_of (rev ns) \<and>
     set us \<union> set xs \<subseteq> set ns) \<and> list_all (\<lambda>u. decimal_value (fst (snd u))) ns \<and>
     crashed st = None \<and> is_open st \<and> pserves st = cw \<and> readings st = length ns \<and>
     0 < socket_send_buf_size st \<and> (writing_active st \<longrightarrow> in_flight st = length (poutbuf st))"

lemma preload_publishing:
  assumes "publishing E cw ns xs st"
  shows "\<exists>st' ys. preload_writing E st = (Inr (), st') \<and> publishing E cw ns ys st' \<and>
    (writing_active st \<longrightarrow> st' = st \<and> ys = xs) \<and>
    (\<not> writing_active st \<and> poutbuf st = [] \<longrightarrow>
       (if xs = [] then ys = [] \<and> \<not> writing_active st' \<and> poutbuf st' = [] else length ys < length xs))"
proof (cases "writing_active st")
  case True
  with assms show ?thesis by (auto simp: preload_writing_def)
next
  case False
  from assms obtain us where us: "represents (pending_updates st) xs"
    "psent st @ poutbuf st = concat (map (update_line E) us)" "map_of (xs @ rev us) = map_of (rev ns)"
    "set us \<union> set xs \<subseteq> set ns"
    and dec: "list_all (\<lambda>u. decimal_value (fst (snd u))) ns" and pos: "0 < socket_send_buf_size st"
    by (auto simp: publishing_def)
  define k where "k = taken E (socket_send_buf_size st) xs (new_ostream (poutbuf st))"
  define out where "out = buf (fold (write_update E) (take k xs) (new_ostream (poutbuf st)))"
  obtain c where c: "represents c (drop k xs)" "preload_writing E st =
      (Inr (), if out = [] then st\<lparr>pending_updates := c, poutbuf := out\<rparr>
               else st\<lparr>pending_updates := c, poutbuf := out, in_flight := length out, writing_active := True\<rparr>)"
    using preload_writing_idle [OF us(1) False, of E] unfolding Let_def k_def out_def by blast
  let ?st = "snd (preload_writing E st)"
  have "list_all (\<lambda>u. decimal_value (fst (snd u))) (take k xs)"
    using dec us(4) by (auto simp: list_all_iff dest: in_set_takeD)
  then have o: "out = poutbuf st @ concat (map (update_line E) (take k xs))"
    unfolding out_def by (subst fold_update_lines) (simp_all add: new_ostream_def)
  have d: "distinct (map fst xs)" by (rule uc.rep_distinct [OF us(1)])
  have "map_of (drop k xs @ rev (us @ take k xs)) = map_of ((drop k xs @ rev (take k xs)) @ rev us)" by simp
  also have "\<dots> = map_of (xs @ rev us)"
    unfolding map_of_append [of "drop k xs @ rev (take k xs)"] map_of_append [of xs] map_of_rotate [OF d] ..
  finally have m: "map_of (drop k xs @ rev (us @ take k xs)) = map_of (rev ns)" using us(3) by simp
  have "set (us @ take k xs) \<union> set (drop k xs) \<subseteq> set ns"
    using us(4) set_take_subset [of k xs] set_drop_subset [of k xs] by auto
  moreover have "psent ?st = psent st" "poutbuf ?st = out" by (simp_all add: c(2))
  then have "psent ?st @ poutbuf ?st = concat (map (update_line E) (us @ take k xs))"
    unfolding o map_append concat_append us(2) [symmetric] by simp
  ultimately have p: "publishing E cw ns (drop k xs) ?st"
    using assms c m False unfolding publishing_def by (intro conjI exI [of _ "us @ take k xs"]) auto
  have "0 < k" if "xs \<noteq> []" "poutbuf st = []"
    using taken_first [OF that(1), of "new_ostream (poutbuf st)"] pos that(2) by (simp add: k_def new_ostream_def)
  then have s: "if xs = [] then drop k xs = [] \<and> \<not> writing_active ?st \<and> poutbuf ?st = [] else length (drop k xs) < length xs"
    if "poutbuf st = []"
    using that c(2) o False by (cases xs) auto
  show ?thesis
    by (rule exI [of _ ?st], rule exI [of _ "drop k xs"]) (use p s False c(2) in auto)
qed

text \<open>The notifications in a run: the root is cut off the name, the clock gives the time.\<close>

fun notified :: "('e, 'g) pubsub_env \<Rightarrow> string \<Rightarrow> nat \<Rightarrow> ('e, 'g) pubsub_event list \<Rightarrow> update list" where
  "notified E root k [] = []"
| "notified E root k (Notified uri v # evs) = (cut_root root uri, v, clock E k) # notified E root (Suc k) evs"
| "notified E root k (ev # evs) = notified E root k evs"

fun publish_event :: "('e, 'g) pubsub_event \<Rightarrow> bool" where
  "publish_event (Notified uri v) = decimal_value v"
| "publish_event PWritten = True"
| "publish_event ev = False"

lemma publishing_notified:
  assumes "publishing E cw ns xs st" "tree (snd cw) (dict E) = Some ob" "decimal_value v"
  shows "\<exists>ys. publishing E cw (ns @ [(cut_root (oname ob) uri, v, clock E (length ns))]) ys (pubsub_step E (Notified uri v) st)"
proof -
  let ?u = "(cut_root (oname ob) uri, v, clock E (length ns))"
  from assms(1) obtain us where us: "represents (pending_updates st) xs"
    "psent st @ poutbuf st = concat (map (update_line E) us)" "map_of (xs @ rev us) = map_of (rev ns)"
    "set us \<union> set xs \<subseteq> set ns" by (auto simp: publishing_def)
  obtain c where c: "push (fst ?u) v (clock E (length ns)) (pending_updates st) = Inr c" "represents c (put_update ?u xs)"
    using uc.rep_pu [OF us(1)] by fastforce
  let ?st = "st\<lparr>readings := Suc (readings st), pending_updates := c\<rparr>"
  have sub: "set (put_update u zs) \<subseteq> insert u (set zs)" for u zs by (induction zs) auto
  have "map_of (put_update ?u xs @ rev us) = map_of (rev (ns @ [?u]))"
    using us(3) by (simp add: put_update_lookup)
  then have p: "publishing E cw (ns @ [?u]) (put_update ?u xs) ?st"
    using assms(1,3) c(2) us(2,4) sub [of ?u xs] unfolding publishing_def by (intro conjI exI [of _ us]) auto
  have "deref (tree (snd (pserves st))) (dict E) = Inr ob" using assms(1,2) by (simp add: publishing_def deref_def)
  then have "notify E uri v st = preload_writing E ?st"
    using assms(1) c(1) by (simp add: notify_def root_name_def read_clock_def enqueue_def st_then_def publishing_def)
  with preload_publishing [OF p] show ?thesis by (auto simp: crash_def)
qed

lemma publishing_written:
  assumes "publishing E cw ns xs st"
  shows "\<exists>ys. publishing E cw ns ys (pubsub_step E PWritten st) \<and>
    (writing_active st \<longrightarrow> (if xs = [] then ys = [] \<and> \<not> writing_active (pubsub_step E PWritten st) \<and>
       poutbuf (pubsub_step E PWritten st) = [] else length ys < length xs)) \<and>
    (\<not> writing_active st \<longrightarrow> pubsub_step E PWritten st = st \<and> ys = xs)"
proof (cases "writing_active st")
  case True
  let ?st = "st\<lparr>psent := psent st @ take (in_flight st) (poutbuf st), poutbuf := drop (in_flight st) (poutbuf st),
    in_flight := 0, writing_active := False\<rparr>"
  have p: "publishing E cw ns xs ?st" and b: "poutbuf ?st = []" "\<not> writing_active ?st"
    using assms True by (auto simp: publishing_def)
  have s: "pubsub_step E PWritten st = crash (preload_writing E ?st)"
    using assms True by (simp add: publishing_def pubsub_write_handler_def)
  from preload_publishing [OF p] b True show ?thesis unfolding s by (fastforce simp: crash_def)
qed (use assms in auto)

lemma publishing_run:
  assumes "publishing E cw ns xs st" "tree (snd cw) (dict E) = Some ob" "list_all publish_event evs"
  shows "\<exists>ys. publishing E cw (ns @ notified E (oname ob) (length ns) evs) ys (pubsub_run E evs st)"
  using assms(1,3)
proof (induction evs arbitrary: ns xs st)
  case Nil
  then show ?case by (auto simp: pubsub_run_def)
next
  case (Cons ev evs)
  have cr: "crashed st = None" using Cons.prems(1) by (simp add: publishing_def)
  then have run: "pubsub_run E (ev # evs) st = pubsub_run E evs (pubsub_step E ev st)" by (simp add: pubsub_run_def)
  show ?case
  proof (cases ev)
    case PWritten
    obtain ys where "publishing E cw ns ys (pubsub_step E PWritten st)" using publishing_written [OF Cons.prems(1)] by blast
    with Cons.IH [OF this] Cons.prems(2) PWritten run show ?thesis by simp
  next
    case (Notified uri v)
    then have "decimal_value v" using Cons.prems(2) by simp
    from publishing_notified [OF Cons.prems(1) assms(2) this] obtain ys where
      "publishing E cw (ns @ [(cut_root (oname ob) uri, v, clock E (length ns))]) ys (pubsub_step E (Notified uri v) st)" by blast
    from Cons.IH [OF this] Cons.prems(2) Notified run show ?thesis by simp
  qed (use Cons.prems(2) in simp_all)
qed

lemma publishing_drained:
  assumes "publishing E cw ns xs st" "length xs < k" "writes_on st"
  shows "publishing E cw ns [] (pubsub_run E (replicate k PWritten) st) \<and>
    \<not> writing_active (pubsub_run E (replicate k PWritten) st) \<and> poutbuf (pubsub_run E (replicate k PWritten) st) = []"
  using assms
proof (induction k arbitrary: xs st)
  case (Suc k)
  have cr: "crashed st = None" using Suc.prems(1) by (simp add: publishing_def)
  then have run: "pubsub_run E (replicate (Suc k) PWritten) st = pubsub_run E (replicate k PWritten) (pubsub_step E PWritten st)"
    by (simp add: pubsub_run_def)
  have idle: "pubsub_run E (replicate k PWritten) s = s" if "\<not> writing_active s" for s
    using that by (induction k) (simp_all add: pubsub_run_def)
  obtain ys where ys: "publishing E cw ns ys (pubsub_step E PWritten st)"
    "writing_active st \<longrightarrow> (if xs = [] then ys = [] \<and> \<not> writing_active (pubsub_step E PWritten st) \<and>
       poutbuf (pubsub_step E PWritten st) = [] else length ys < length xs)"
    "\<not> writing_active st \<longrightarrow> pubsub_step E PWritten st = st \<and> ys = xs"
    using publishing_written [OF Suc.prems(1)] by blast
  have e: "xs = [] \<and> poutbuf st = []" if "\<not> writing_active st"
  proof -
    from that Suc.prems(1,3) have "represents (pending_updates st) xs" "represents (pending_updates st) []" "poutbuf st = []"
      by (auto simp: publishing_def writes_on_def)
    with uc.rep_nil show ?thesis by blast
  qed
  show ?case
  proof (cases "writing_active st \<and> xs \<noteq> []")
    case False
    with ys e have "ys = []" "\<not> writing_active (pubsub_step E PWritten st)" "poutbuf (pubsub_step E PWritten st) = []"
      by auto
    with ys(1) show ?thesis unfolding run by (simp add: idle)
  next
    case True
    then have "length ys < k" using ys(2) Suc.prems(2) by simp
    from Suc.IH [OF ys(1) this step_writes_on [OF Suc.prems(3)]] show ?thesis unfolding run .
  qed
qed simp



text \<open>
  Why strings with hexadecimal escapes are left out: written in the same round, one makes the next
  parameter's integer come out in hexadecimal.
\<close>

lemma pubsub_hex_leak:
  assumes "list_ex hex_escaped s"
  shows "buf (fold (write_update E) [(k1, Scalar_t (String_t s), t1), (k2, Scalar_t (Integer_t i), t2)] (new_ostream [])) =
    ''('' @ put_time E t1 @ [CHR '' '', CHR 0x27] @ k1 @ '' '' @ [CHR 0x22] @ concat (map escaped s) @ [CHR 0x22] @
    '')'' @ [CHR 0x0A] @ ''('' @ put_time E t2 @ [CHR '' '', CHR 0x27] @ k2 @ '' '' @ digits 16 (unat i) @ '')'' @ [CHR 0x0A]"
  using assms
  by (simp add: write_update_def encode_string_buf encode_string_hexfield put_integer_buf new_ostream_def)
end
