(* ===== verification/Scgi_Response.thy ===== *)
theory Scgi_Response
  imports Conversion "HOL-Library.Char_ord" "HOL-Library.List_Lexorder"
begin

text \<open>
  The text of the responses of the SCGI protocol: the response with its status line and headers
  (\<open>include/decof/scgi/response.h\<close>, \<open>src/scgi/response.cpp\<close>) and the encoding of values in its body
  (\<open>src/scgi/js_value_encoder.cpp\<close>, \<open>src/scgi/endian.h\<close>). \<open>big\<close> is the byte order of the host.
\<close>

subsection \<open>Responses\<close>

datatype status_code =
    continue_st | switching_protocols | ok | created | accepted | no_content | partial_content
  | multiple_choices | moved_permanently | moved_temporarily | not_modified
  | bad_request | unauthorized | forbidden | not_found | not_supported | not_acceptable
  | request_timeout | precondition_failed | unsatisfiable_range
  | internal_server_error | not_implemented | bad_gateway | service_unavailable | space_unavailable

fun status_value :: "status_code \<Rightarrow> nat" where
  "status_value continue_st = 100"
| "status_value switching_protocols = 101"
| "status_value ok = 200"
| "status_value created = 201"
| "status_value accepted = 202"
| "status_value no_content = 204"
| "status_value partial_content = 206"
| "status_value multiple_choices = 300"
| "status_value moved_permanently = 301"
| "status_value moved_temporarily = 302"
| "status_value not_modified = 304"
| "status_value bad_request = 400"
| "status_value unauthorized = 401"
| "status_value forbidden = 403"
| "status_value not_found = 404"
| "status_value not_supported = 405"
| "status_value not_acceptable = 406"
| "status_value request_timeout = 408"
| "status_value precondition_failed = 412"
| "status_value unsatisfiable_range = 416"
| "status_value internal_server_error = 500"
| "status_value not_implemented = 501"
| "status_value bad_gateway = 502"
| "status_value service_unavailable = 503"
| "status_value space_unavailable = 507"

text \<open>The headers are a \<open>std::map\<close>: kept in the order of their names.\<close>

record response =
  status :: status_code
  resp_headers :: "(string \<times> string) list"
  resp_body :: string

fun set_header :: "string \<Rightarrow> string \<Rightarrow> (string \<times> string) list \<Rightarrow> (string \<times> string) list" where
  "set_header k v [] = [(k, v)]"
| "set_header k v ((k', v') # hs) =
     (if k < k' then (k, v) # (k', v') # hs
      else if k = k' then (k, v) # hs
      else (k', v') # set_header k v hs)"

definition http_response_texts :: "(status_code \<times> string) list" where
  "http_response_texts =
     [(ok, ''OK''),
      (created, ''Created''),
      (accepted, ''Accepted''),
      (no_content, ''No Content''),
      (partial_content, ''Partial Content''),
      (multiple_choices, ''Multiple Choices''),
      (moved_permanently, ''Moved Permanently''),
      (moved_temporarily, ''Moved Temporarily''),
      (not_modified, ''Not Modified''),
      (bad_request, ''Bad Request''),
      (unauthorized, ''Unauthorized''),
      (forbidden, ''Fobidden''),
      (not_found, ''Not Found''),
      (not_supported, ''Not Supported''),
      (not_acceptable, ''Not Acceptable''),
      (request_timeout, ''Request Timeout''),
      (precondition_failed, ''Precondition Failed''),
      (unsatisfiable_range, ''Requested Range Not Satisfiable''),
      (internal_server_error, ''Internal Server Error''),
      (not_implemented, ''Not Implemented''),
      (bad_gateway, ''Bad Gateway''),
      (service_unavailable, ''Service Unavailable''),
      (space_unavailable, ''Insufficient Space to Store Resource'')]"

definition status_text :: "response \<Rightarrow> error + string" where
  "status_text r =
     (case map_of http_response_texts (status r) of None \<Rightarrow> Inl Out_of_range | Some s \<Rightarrow> Inr s)"

definition stock_response :: "status_code \<Rightarrow> response" where
  "stock_response s = \<lparr>status = s, resp_headers = [], resp_body = []\<rparr>"

definition crlf :: string where "crlf = [CHR 0x0D, CHR 0x0A]"

definition header_line :: "string \<times> string \<Rightarrow> string" where
  "header_line h = fst h @ '': '' @ snd h @ crlf"

definition body_allowed :: "status_code \<Rightarrow> bool" where
  "body_allowed s \<longleftrightarrow>
     \<not> (status_value s \<ge> status_value continue_st \<and> status_value s < status_value ok \<or>
        s = no_content \<or> s = not_modified)"

text \<open>\<open>operator<<\<close>; it asks for the status text before it writes anything.\<close>

definition print_response :: "response \<Rightarrow> error + string" where
  "print_response r = and_then (status_text r) (\<lambda>text. Inr
     (''HTTP/1.1 '' @ digits 10 (status_value (status r)) @ '' '' @ text @ crlf @
      concat (map header_line (resp_headers r)) @
      (if map_of (resp_headers r) ''Content-Type'' = None then ''Content-Type: text/plain'' @ crlf else []) @
      (if body_allowed (status r)
       then ''Content-Length: '' @ digits 10 (length (resp_body r)) @ crlf @ crlf @ resp_body r
       else crlf)))"

subsection \<open>Byte order\<close>

text \<open>The test of the host's byte order: the first byte of the \<open>uint32_t\<close> one.\<close>

definition test_big :: "bool \<Rightarrow> bool" where
  "test_big big \<longleftrightarrow> hd (native_bytes big 4 1) \<noteq> CHR 0x01"

text \<open>\<open>k\<close> is \<open>sizeof(T)\<close>; a value is its unsigned number of \<open>8 * k\<close> bits.\<close>

definition little_endian_to_native :: "bool \<Rightarrow> nat \<Rightarrow> nat \<Rightarrow> nat" where
  "little_endian_to_native big k n =
     (if test_big big then of_native big (rev (native_bytes big k n)) else n)"

definition native_to_little_endian :: "bool \<Rightarrow> nat \<Rightarrow> nat \<Rightarrow> nat" where
  "native_to_little_endian big k n =
     (if test_big big then of_native big (rev (native_bytes big k n)) else n)"

subsection \<open>Values in bodies\<close>

text \<open>An element of a sequence; the integer is narrowed to an \<open>int32_t\<close> after the conversion.\<close>

fun sequence_element_encoder :: "bool \<Rightarrow> scalar_t \<Rightarrow> string" where
  "sequence_element_encoder big (Boolean_t b) = [char_of (of_bool b :: nat)]"
| "sequence_element_encoder big (Integer_t i) =
     native_bytes big 4 (native_to_little_endian big 8 (unat i) mod 2 ^ 32)"
| "sequence_element_encoder big (Real_t r) = native_bytes big 8 (native_to_little_endian big 8 (unat r))"
| "sequence_element_encoder big (String_t s) = digits 10 (length s) @ '':'' @ s @ crlf"
| "sequence_element_encoder big (Binary_t s) = digits 10 (length s) @ '':'' @ s @ crlf"

fun js_scalar :: "scalar_t \<Rightarrow> string" where
  "js_scalar (Boolean_t b) = (if b then ''true'' else ''false'')"
| "js_scalar (Integer_t i) = show_int (sint i)"
| "js_scalar (Real_t r) = show_double 17 r"
| "js_scalar (String_t s) = s"
| "js_scalar (Binary_t s) = s"

fun js_value_encoder :: "bool \<Rightarrow> value_t \<Rightarrow> string" where
  "js_value_encoder big (Scalar_t x) = js_scalar x"
| "js_value_encoder big (Sequence_t xs) = concat (map (sequence_element_encoder big) xs)"
| "js_value_encoder big (Tuple_t xs) = concat (map (\<lambda>x. js_scalar x @ crlf) xs)"

subsection \<open>Facts on responses\<close>

text \<open>The tests of the repository (\<open>test/test_scgi_response.cpp\<close>).\<close>

lemma set_header_map_of: "sorted (map fst hs) \<Longrightarrow> distinct (map fst hs) \<Longrightarrow>
  map_of (set_header k v hs) = (map_of hs)(k \<mapsto> v)"
  by (induction k v hs rule: set_header.induct) (auto simp: fun_eq_iff)

lemma set_header_keys: "set (map fst (set_header k v hs)) = insert k (set (map fst hs))"
  by (induction k v hs rule: set_header.induct) auto

lemma set_header_sorted:
  "sorted (map fst hs) \<Longrightarrow> distinct (map fst hs) \<Longrightarrow>
   sorted (map fst (set_header k v hs)) \<and> distinct (map fst (set_header k v hs))"
proof (induction k v hs rule: set_header.induct)
  case (2 k v k' v' hs)
  then show ?case using set_header_keys [of k v hs] by auto
qed simp

lemma status_text_exists:
  "status_text r = (if status r = continue_st \<or> status r = switching_protocols then Inl Out_of_range
     else Inr (the (map_of http_response_texts (status r))))"
  by (cases "status r") (simp_all add: status_text_def http_response_texts_def)

lemma test_big [simp]: "test_big big = big"
proof -
  have "test_big True" "\<not> test_big False" by code_simp+
  then show ?thesis by (cases big) simp_all
qed

text \<open>Whatever the byte order of the host, what is written is little endian and read back as such.\<close>

lemma little_endian_written:
  assumes "n < 256 ^ k"
  shows "native_bytes big k (native_to_little_endian big k n) = le_bytes k n"
proof (cases big)
  case True
  then have "native_bytes True k (of_le (le_bytes k (of_le (rev (le_bytes k n))))) = native_bytes True k (of_le (rev (le_bytes k n)))"
    by (metis le_bytes_of_le length_le_bytes length_rev)
  then show ?thesis
    using True le_bytes_of_le [of "rev (le_bytes k n)"]
    by (simp add: native_to_little_endian_def native_bytes_def of_native_def)
qed (simp add: native_to_little_endian_def native_bytes_def)

lemma little_endian_read: "length s = k \<Longrightarrow> little_endian_to_native big k (of_native big s) = of_le s"
  using native_bytes_of_native [of big s]
  by (cases big) (simp_all add: little_endian_to_native_def, simp_all add: of_native_def)

end
