(* ===== verification/Xml_Visitor.thy ===== *)
theory Xml_Visitor
  imports Object_Visitor
begin

text \<open>
  The description of the object tree in XML (\<open>src/scgi/xml_visitor.cpp\<close>). The traversal only
  collects the nodes on a stack; the destructor then writes a section for every node on it, with a
  line for each of its children. \<open>pointer_text\<close> is what a stream prints for a pointer to a node in
  upper case hexadecimal; \<open>h\<close> is the tree, which nothing here changes.
\<close>

record xml_visitor =
  xml_out :: string
  node_stack :: "addr list"
  first_pass :: bool
  baselevel :: "64 word"

definition xml_write :: "string \<Rightarrow> (xml_visitor, unit) act" where
  "xml_write s x = (Inr (), x\<lparr>xml_out := xml_out x @ s\<rparr>)"

definition xml_indented :: "string \<Rightarrow> (xml_visitor, unit) act" where
  "xml_indented s x = xml_write (indentation (baselevel x) @ s) x"

definition xml_increment :: "(xml_visitor, unit) act" where
  "xml_increment x = (Inr (), x\<lparr>baselevel := increment_indentation 1 (baselevel x)\<rparr>)"

definition xml_decrement :: "(xml_visitor, unit) act" where
  "xml_decrement x = (Inr (), x\<lparr>baselevel := decrement_indentation 1 (baselevel x)\<rparr>)"

text \<open>\<open>attr k v\<close> is the text of an attribute, its value in quotes.\<close>

definition attr :: "string \<Rightarrow> string \<Rightarrow> string" where
  "attr k v = k @ ''='' @ [CHR 0x22] @ v @ [CHR 0x22]"

definition description :: string where
  "description = ''<description> </description>''"

definition newline :: string where "newline = [CHR 0x0A]"

definition new_xml_visitor :: "string \<Rightarrow> xml_visitor" where
  "new_xml_visitor system_name =
     (let x = \<lparr>xml_out = ''<?xml '' @ attr ''version'' ''1.0'' @ '' '' @ attr ''encoding'' ''UTF-8'' @ ''?>'' @ newline @
                 ''<system '' @ attr ''name'' system_name @ '' '' @ attr ''version'' ''1.0'' @ ''>'' @ newline,
               node_stack = [], first_pass = True, baselevel = 0\<rparr>
      in snd (st_then xml_increment (\<lambda>_. xml_indented (description @ newline)) x))"

definition node_type_str :: "(addr \<Rightarrow> string) \<Rightarrow> ('e, 'g) leaf heap \<Rightarrow> addr \<Rightarrow> string" where
  "node_type_str pointer_text h a = oname (the (h a)) @ pointer_text a"

definition userlevel_name :: "userlevel \<Rightarrow> string" where
  "userlevel_name ul =
     (if ul = Internal then ''internal''
      else if ul = Service then ''service''
      else if ul = Maintenance then ''maintenance''
      else if ul = Normal then ''normal''
      else if ul = Readonly then ''readonly''
      else ''invalid'')"

subsection \<open>The visits\<close>

definition is_node_object :: "('e, 'g) leaf object \<Rightarrow> bool" where
  "is_node_object ob \<longleftrightarrow> klass_children (klass ob) \<noteq> None"

definition param_line :: "('e, 'g) leaf object \<Rightarrow> string \<Rightarrow> string" where
  "param_line ob type_str =
     (let readonly = \<not> write_interface (klass ob)
      in ''<param '' @ attr ''name'' (oname ob) @ '' '' @ attr ''type'' type_str @
         (if \<not> is_node_object ob
          then '' '' @ attr ''mode'' (if readonly then ''readonly'' else ''readwrite'') else []) @
         (if \<not> readonly
          then '' '' @ attr ''readlevel'' (userlevel_name (oreadlevel ob)) @
               '' '' @ attr ''writelevel'' (userlevel_name (owritelevel ob)) else []) @
         ''>'' @ description @ ''</param>'' @ newline)"

definition xml_write_param :: "('e, 'g) leaf heap \<Rightarrow> addr \<Rightarrow> string \<Rightarrow> (xml_visitor, unit) act" where
  "xml_write_param h a type_str x =
     (if \<not> first_pass x
      then (case h a of None \<Rightarrow> (Inl Undefined, x) | Some ob \<Rightarrow> xml_indented (param_line ob type_str) x)
      else (Inr (), x))"

definition event_line :: "('e, 'g) leaf object \<Rightarrow> string" where
  "event_line ob = ''<cmd '' @ attr ''name'' (oname ob) @ '' '' @
     attr ''execlevel'' (userlevel_name (owritelevel ob)) @ ''>'' @ description @ ''</cmd>'' @ newline"

definition xml_visit_event :: "('e, 'g) leaf heap \<Rightarrow> addr \<Rightarrow> (xml_visitor, unit) act" where
  "xml_visit_event h a x =
     (if \<not> first_pass x
      then (case h a of None \<Rightarrow> (Inl Undefined, x) | Some ob \<Rightarrow> xml_indented (event_line ob) x)
      else (Inr (), x))"

definition xml_visit_node :: "(addr \<Rightarrow> string) \<Rightarrow> ('e, 'g) leaf heap \<Rightarrow> addr \<Rightarrow> (xml_visitor, unit) act" where
  "xml_visit_node pointer_text h a x =
     (if first_pass x then (Inr (), x\<lparr>node_stack := a # node_stack x\<rparr>)
      else xml_write_param h a (node_type_str pointer_text h a) x)"

fun xml_type_str :: "type_tag \<Rightarrow> string" where
  "xml_type_str boolean_tag = ''BOOLEAN''"
| "xml_type_str integer_tag = ''INTEGER''"
| "xml_type_str real_tag = ''REAL''"
| "xml_type_str string_tag = ''STRING''"
| "xml_type_str binary_tag = ''BINARY''"
| "xml_type_str (sequence_tag t) = xml_type_str t @ ''_SEQ''"
| "xml_type_str tuple_tag = ''TUPLE''"

text \<open>\<open>visit(object*)\<close> is not overridden: it does nothing.\<close>

definition xml_visits ::
  "(addr \<Rightarrow> string) \<Rightarrow> ('e, 'g) leaf heap \<Rightarrow> ('e, 'g, xml_visitor) object_visitor" where
  "xml_visits pointer_text h =
     \<lparr>visit_object = (\<lambda>a. ret ()), visit_event = xml_visit_event h, visit_node = xml_visit_node pointer_text h,
      visit_param = (\<lambda>tag a. xml_write_param h a (xml_type_str tag))\<rparr>"

subsection \<open>The destructor\<close>

definition ul_lines :: "string list" where
  "ul_lines =
     [''<param '' @ attr ''name'' ''ul'' @ '' '' @ attr ''type'' ''INTEGER'' @ '' '' @ attr ''mode'' ''readonly'' @
        ''>'' @ description @ ''</param>'' @ newline,
      ''<cmd '' @ attr ''name'' ''change-ul'' @ ''>'' @ description @
        ''<ret '' @ attr ''type'' ''INTEGER'' @ '' />'' @
        ''<arg '' @ attr ''name'' ''ul'' @ '' '' @ attr ''type'' ''INTEGER'' @ '' />'' @
        ''<arg '' @ attr ''name'' ''passwd'' @ '' '' @ attr ''type'' ''STRING'' @ '' />'' @ ''</cmd>'' @ newline]"

text \<open>One round of the loop, for the node on top of the stack.\<close>

definition xml_section :: "(addr \<Rightarrow> string) \<Rightarrow> ('e, 'g) leaf heap \<Rightarrow> addr \<Rightarrow> (xml_visitor, unit) act" where
  "xml_section pointer_text h a =
     (case h a of
        None \<Rightarrow> throw Undefined
      | Some ob \<Rightarrow>
          (let module = (oparent ob = None) in
           st_then (xml_indented (if module then ''<module '' @ attr ''name'' (oname ob) @ ''>'' @ newline
                     else ''<xtypedef '' @ attr ''name'' (node_type_str pointer_text h a) @ ''>'' @ newline)) (\<lambda>_.
           st_then xml_increment (\<lambda>_.
           st_then (xml_indented (description @ newline)) (\<lambda>_.
           st_then (if module then each xml_indented ul_lines else ret ()) (\<lambda>_.
           st_then (case klass_children (klass ob) of
                      None \<Rightarrow> throw Undefined
                    | Some cs \<Rightarrow> each (accept h (xml_visits pointer_text h)) cs) (\<lambda>_.
           st_then xml_decrement (\<lambda>_.
           xml_indented (if module then ''</module>'' @ newline else ''</xtypedef>'' @ newline)))))))))"

text \<open>In the second pass nothing is pushed, so the stack the loop pops is the one it started with.\<close>

fun xml_sections ::
  "(addr \<Rightarrow> string) \<Rightarrow> ('e, 'g) leaf heap \<Rightarrow> addr list \<Rightarrow> (xml_visitor, unit) act" where
  "xml_sections pointer_text h [] x = (Inr (), x)"
| "xml_sections pointer_text h (a # stack) x =
     st_then (xml_section pointer_text h a)
       (\<lambda>_ x. xml_sections pointer_text h stack (x\<lparr>node_stack := stack\<rparr>)) x"

definition delete_xml_visitor :: "(addr \<Rightarrow> string) \<Rightarrow> ('e, 'g) leaf heap \<Rightarrow> (xml_visitor, unit) act" where
  "delete_xml_visitor pointer_text h x =
     st_then (xml_sections pointer_text h (node_stack x))
       (\<lambda>_. xml_write (''</system>'' @ newline)) (x\<lparr>first_pass := False\<rparr>)"

text \<open>The whole life of a visitor, as in \<open>handle_get_request\<close>.\<close>

definition xml_document ::
  "(addr \<Rightarrow> string) \<Rightarrow> ('e, 'g) leaf heap \<Rightarrow> nat \<Rightarrow> client \<Rightarrow> addr option \<Rightarrow> error + string" where
  "xml_document pointer_text h n c obj =
     (case browse_object n c h (accept h (xml_visits pointer_text h)) obj (new_xml_visitor ''DeCoF2 server'') of
        (r, x) \<Rightarrow> (case delete_xml_visitor pointer_text h x of
                    (Inl e, x') \<Rightarrow> Inl e
                  | (Inr u, x') \<Rightarrow> and_then r (\<lambda>_. Inr (xml_out x'))))"

subsection \<open>The document\<close>

text \<open>What the document says, as a function of the tree: one section per node, one line per child.\<close>

definition child_line :: "(addr \<Rightarrow> string) \<Rightarrow> ('e, 'g) leaf heap \<Rightarrow> addr \<Rightarrow> string" where
  "child_line pointer_text h a =
     (let ob = the (h a) in
      case accept_tag (klass ob) of
        Visit_object \<Rightarrow> []
      | Visit_event \<Rightarrow> indentation 2 @ event_line ob
      | Visit_node \<Rightarrow> indentation 2 @ param_line ob (node_type_str pointer_text h a)
      | Visit_param tag \<Rightarrow> indentation 2 @ param_line ob (xml_type_str tag))"

definition section_text :: "(addr \<Rightarrow> string) \<Rightarrow> ('e, 'g) leaf heap \<Rightarrow> addr \<Rightarrow> string" where
  "section_text pointer_text h a =
     (let ob = the (h a); module = (oparent ob = None) in
      indentation 1 @ (if module then ''<module '' @ attr ''name'' (oname ob) @ ''>'' @ newline
        else ''<xtypedef '' @ attr ''name'' (node_type_str pointer_text h a) @ ''>'' @ newline) @
      indentation 2 @ description @ newline @
      (if module then concat (map (\<lambda>l. indentation 2 @ l) ul_lines) else []) @
      concat (map (child_line pointer_text h) (the (klass_children (klass ob)))) @
      indentation 1 @ (if module then ''</module>'' @ newline else ''</xtypedef>'' @ newline))"

definition xml_head :: string where
  "xml_head = xml_out (new_xml_visitor ''DeCoF2 server'')"

lemma first_visit:
  assumes "a \<in> dom h" "first_pass x"
  shows "accept h (xml_visits pointer_text h) a x =
    (Inr (), if is_node h a then x\<lparr>node_stack := a # node_stack x\<rparr> else x)"
proof -
  obtain ob where ob: "h a = Some ob" using assms(1) by blast
  show ?thesis
    using assms(2)
    by (cases "klass ob")
      (simp_all add: accept_def ob accept_tag_def xml_visits_def is_node_def children_of_def
        xml_visit_event_def xml_visit_node_def xml_write_param_def ret_def)
qed

lemma first_visits:
  "set xs \<subseteq> dom h \<Longrightarrow> first_pass x \<Longrightarrow>
   each (accept h (xml_visits pointer_text h)) xs x = (Inr (), x\<lparr>node_stack := rev (filter (is_node h) xs) @ node_stack x\<rparr>)"
proof (induction xs arbitrary: x)
  case (Cons a xs)
  then show ?case by (simp add: st_then_def first_visit)
qed (simp add: ret_def)

lemma xml_indented_simp: "xml_indented s x = (Inr (), x\<lparr>xml_out := xml_out x @ indentation (baselevel x) @ s\<rparr>)"
  by (simp add: xml_indented_def xml_write_def)

lemma second_visit:
  assumes "a \<in> dom h" "\<not> first_pass x" "baselevel x = 2"
  shows "accept h (xml_visits pointer_text h) a x = (Inr (), x\<lparr>xml_out := xml_out x @ child_line pointer_text h a\<rparr>)"
proof -
  obtain ob where ob: "h a = Some ob" using assms(1) by blast
  show ?thesis
    using assms(2,3)
    by (cases "klass ob")
      (simp_all add: accept_def ob accept_tag_def xml_visits_def child_line_def xml_indented_simp
        xml_visit_event_def xml_visit_node_def xml_write_param_def ret_def)
qed

lemma second_visits:
  "set xs \<subseteq> dom h \<Longrightarrow> \<not> first_pass x \<Longrightarrow> baselevel x = 2 \<Longrightarrow>
   each (accept h (xml_visits pointer_text h)) xs x =
     (Inr (), x\<lparr>xml_out := xml_out x @ concat (map (child_line pointer_text h) xs)\<rparr>)"
proof (induction xs arbitrary: x)
  case (Cons a xs)
  then show ?case by (simp add: st_then_def second_visit)
qed (simp add: ret_def)

lemma each_indented:
  "baselevel x = 2 \<Longrightarrow> each xml_indented ls x = (Inr (), x\<lparr>xml_out := xml_out x @ concat (map (\<lambda>l. indentation 2 @ l) ls)\<rparr>)"
proof (induction ls arbitrary: x)
  case (Cons l ls)
  then show ?case by (simp add: st_then_def xml_indented_simp)
qed (simp add: ret_def)

lemma xml_level_steps:
  "baselevel x = 1 \<Longrightarrow> xml_increment x = (Inr (), x\<lparr>baselevel := 2\<rparr>)"
  "baselevel x = 2 \<Longrightarrow> xml_decrement x = (Inr (), x\<lparr>baselevel := 1\<rparr>)"
  by (simp_all add: xml_increment_def xml_decrement_def increment_indentation_def decrement_indentation_def)

lemma xml_section_text:
  assumes "tree_ok h" "is_node h a" "\<not> first_pass x" "baselevel x = 1"
  shows "xml_section pointer_text h a x = (Inr (), x\<lparr>xml_out := xml_out x @ section_text pointer_text h a\<rparr>)"
proof -
  obtain ob cs where ob: "h a = Some ob" "klass_children (klass ob) = Some cs"
    using assms(2) by (auto simp: is_node_def children_of_def split: option.splits)
  then have "children_of h a = Some cs" by (simp add: children_of_def)
  then have cs: "set cs \<subseteq> dom h" using kids_in_dom [OF assms(1)] by blast
  have same: "x\<lparr>baselevel := 1\<rparr> = x" using assms(4) by (cases x) simp
  show ?thesis
    using assms(3,4) cs
    by (simp add: xml_section_def ob Let_def st_then_def xml_indented_simp xml_level_steps each_indented
        second_visits section_text_def ret_def same)
qed

lemma xml_sections_text:
  "list_all (is_node h) st \<Longrightarrow> tree_ok h \<Longrightarrow> \<not> first_pass x \<Longrightarrow> baselevel x = 1 \<Longrightarrow> node_stack x = st \<Longrightarrow>
   xml_sections pointer_text h st x =
     (Inr (), x\<lparr>xml_out := xml_out x @ concat (map (section_text pointer_text h) st), node_stack := []\<rparr>)"
proof (induction st arbitrary: x)
  case Nil
  then show ?case by (cases x) simp
next
  case (Cons a st)
  then show ?case by (simp add: st_then_def xml_section_text)
qed

text \<open>In a preorder a parent stands before its children.\<close>

lemma concat_split_at:
  "concat xss = us @ k # vs \<Longrightarrow> \<exists>l u v. l \<in> set xss \<and> l = u @ k # v \<and> set u \<subseteq> set us"
proof (induction xss arbitrary: us)
  case (Cons xs xss)
  from Cons.prems have "xs @ concat xss = us @ k # vs" by simp
  then consider (left) r where "xs = us @ k # r" | (right) r where "us = xs @ r" "concat xss = r @ k # vs"
  proof -
    from \<open>xs @ concat xss = us @ k # vs\<close> consider t where "xs = us @ t" "t @ concat xss = k # vs"
      | t where "xs @ t = us" "concat xss = t @ k # vs"
      by (auto simp: append_eq_append_conv2)
    then show thesis
    proof cases
      case (1 t)
      then show ?thesis using left right [of "[]"] by (cases t) auto
    next
      case (2 t)
      then show ?thesis using right by blast
    qed
  qed
  then show ?case
  proof cases
    case left
    then show ?thesis by fastforce
  next
    case right
    with Cons.IH [OF right(2)] show ?thesis by fastforce
  qed
qed simp

lemma preorder_parent_first:
  assumes ok: "tree_ok h"
  shows "preorder n ul h a = us @ k # vs \<Longrightarrow> k \<noteq> a \<Longrightarrow> parent_of h k = Some b \<Longrightarrow> b \<in> set us"
proof (induction n arbitrary: a us vs)
  case (Suc n)
  then obtain us' cs where us: "us = a # us'" "children_of h a = Some cs"
    "concat (map (preorder n ul h) (filter (visible ul h) cs)) = us' @ k # vs"
    by (cases us) (auto split: option.splits)
  from concat_split_at [OF us(3)] obtain c u v where c: "c \<in> set cs" "preorder n ul h c = u @ k # v" "set u \<subseteq> set us'"
    by auto
  show ?case
  proof (cases "k = c")
    case True
    with c(1) Suc.prems(3) tree_okD(2) [OF ok us(2)] us(1) show ?thesis by simp
  next
    case False
    from Suc.IH [OF c(2) this Suc.prems(3)] c(3) us(1) show ?thesis by auto
  qed
qed simp


lemma seen_dom: "seen ul h a b \<Longrightarrow> a \<in> dom h \<Longrightarrow> b \<in> dom h"
  by (cases rule: seen.cases) (auto simp: visible_def split: option.splits)

lemma seen_visible: "seen ul h a k \<Longrightarrow> k = a \<or> visible ul h k"
  by (cases rule: seen.cases) auto

text \<open>So on the stack, the reversed order, a child stands before its parent.\<close>

lemma xml_order:
  assumes ok: "tree_ok h" and a: "a \<in> dom h" and xs: "set (preorder n ul h a) = {b. seen ul h a b}" "distinct (preorder n ul h a)"
    and ns: "rev (filter (is_node h) (preorder n ul h a)) = us @ b # vs" and k: "is_node h k" "parent_of h k = Some b"
    and v: "visible ul h k"
  shows "k \<in> set us"
proof -
  let ?xs = "preorder n ul h a"
  have "b \<in> set ?xs" using arg_cong [OF ns, of set] by auto
  then have "seen ul h a k" using xs(1) k(2) v by (auto intro: seen.child)
  then have "k \<in> set ?xs" using xs(1) by simp
  then obtain ls rs where split: "?xs = ls @ k # rs" by (auto simp: in_set_conv_decomp)
  have ne: "k \<noteq> a"
  proof
    assume "k = a"
    obtain l where "line (parent_of h) b l"
      using line_exists tree_okD(4) [OF ok] seen_dom [OF _ a] \<open>b \<in> set ?xs\<close> xs(1) by blast
    from no_ancestor_loop [OF this k(2)] show False
      using \<open>k = a\<close> \<open>b \<in> set ?xs\<close> xs(1) seen_ancestor by blast
  qed
  have "b \<in> set ls" by (rule preorder_parent_first [OF ok split ne k(2)])
  then obtain l1 l2 where "ls = l1 @ b # l2" by (auto simp: in_set_conv_decomp)
  then have "us @ b # vs = rev (filter (is_node h) (l1 @ b # l2 @ k # rs))" using split ns by simp
  moreover have "is_node h b" using arg_cong [OF ns, of set] by (auto simp: in_set_conv_decomp)
  ultimately have eq: "us @ b # vs = rev (filter (is_node h) (l2 @ k # rs)) @ b # rev (filter (is_node h) l1)" by simp
  have "distinct (us @ b # vs)" unfolding ns [symmetric] using xs(2) by simp
  then have "b \<notin> set us" "b \<notin> set vs" by auto
  from append_Cons_eq_iff [OF this] eq have "us = rev (filter (is_node h) (l2 @ k # rs))" by blast
  then show ?thesis using k(1) by simp
qed

text \<open>
  C34. The XML description of a tree has one section for every node the client can browse to and
  one line for every child of such a node, and a type is defined before it is used: the section of
  a child that may be read stands before its parent's. The section of a child that may not be read
  is missing, although its parent's section names it as a type: the lines of a section do not
  depend on the client's userlevel.
\<close>

theorem xml_document_sections:
  assumes "tree_ok h" and "finite (dom h)" and "a \<in> dom h" and "card (dom h) \<le> n"
  shows "\<exists>ns. xml_document pointer_text h n c (Some a) =
      Inr (xml_head @ concat (map (section_text pointer_text h) ns) @ ''</system>'' @ newline) \<and>
    distinct ns \<and> set ns = {b. seen (effective_userlevel c) h a b \<and> is_node h b} \<and>
    (\<forall>us b vs k. ns = us @ b # vs \<and> is_node h k \<and> parent_of h k = Some b \<longrightarrow>
       (if visible (effective_userlevel c) h k then k \<in> set us else k = a \<or> k \<notin> set ns))"
proof -
  let ?ul = "effective_userlevel c"
  let ?xs = "preorder n ?ul h a"
  let ?ns = "rev (filter (is_node h) ?xs)"
  obtain l where l: "line (parent_of h) a l" using line_exists tree_okD(4) [OF assms(1,3)] by blast
  then have "l \<noteq> []" by (cases rule: line.cases) auto
  then have "card (dom h) < n + length l" using assms(4) by (cases l) auto
  note pre = browse_preorder [OF assms(1,2) l assms(3) this, of ?ul "accept h (xml_visits pointer_text h)"]
  have xs: "set ?xs = {b. seen ?ul h a b}" "distinct ?xs" using pre by blast+
  have dom: "set ?xs \<subseteq> dom h" using xs(1) seen_dom [OF _ assms(3)] by blast
  let ?x = "new_xml_visitor ''DeCoF2 server''"
  have new: "first_pass ?x" "node_stack ?x = []" "baselevel ?x = 1"
    by (simp_all add: new_xml_visitor_def st_then_def xml_indented_simp xml_increment_def increment_indentation_def)
  have first: "browse_object n c h (accept h (xml_visits pointer_text h)) (Some a) ?x = (Inr (), ?x\<lparr>node_stack := ?ns\<rparr>)"
    using pre first_visits [OF dom new(1)] new(2) by (simp add: browse_object_def)
  have nodes: "list_all (is_node h) ?ns" by (simp add: list_all_iff)
  have "xml_document pointer_text h n c (Some a) =
      Inr (xml_head @ concat (map (section_text pointer_text h) ?ns) @ ''</system>'' @ newline)"
    using xml_sections_text [OF nodes assms(1), of "?x\<lparr>node_stack := ?ns, first_pass := False\<rparr>"] new(3)
    by (simp add: xml_document_def first delete_xml_visitor_def st_then_def xml_write_def xml_head_def)
  moreover have "distinct ?ns" "set ?ns = {b. seen ?ul h a b \<and> is_node h b}" using xs by auto
  moreover have "if visible ?ul h k then k \<in> set us else k = a \<or> k \<notin> set ?ns"
    if "?ns = us @ b # vs" "is_node h k" "parent_of h k = Some b" for us b vs k
    using xml_order [OF assms(1,3) xs that] seen_visible [of ?ul h a k] xs(1) by auto
  ultimately show ?thesis by blast
qed


theorem xml_document_sections_witness:
  "\<exists>ns. xml_document (\<lambda>a. ''0'') (tree (sample_world (Event None))) 2 sample_client (Some 0) =
      Inr (xml_head @ concat (map (section_text (\<lambda>a. ''0'') (tree (sample_world (Event None)))) ns) @ ''</system>'' @ newline) \<and>
    distinct ns"
proof -
  have d: "dom (tree (sample_world (Event None))) = {0, 1}" by (auto simp: sample_world_def)
  from xml_document_sections [OF sample_world_tree_ok, of "Event None" 0 2 "\<lambda>a. ''0''" sample_client]
  show ?thesis unfolding d by auto
qed

end
