(* ===== verification/Scgi_Context.thy ===== *)
theory Scgi_Context
  imports Clisrv_Context Scgi_Parsers Scgi_Response Xml_Visitor
begin

text \<open>
  A connection of the SCGI server (\<open>src/scgi/scgi_context.cpp\<close>): the bytes read go to the request
  parser, a complete request is carried out on the object tree and answered with one response.
  Boost.Asio is what it documents: one operation is outstanding at a time, a read completes with at
  least one byte and at most the buffer's size, a write sends the whole buffer.

  Arguments of the model are what the code calls outside the repository: Boost's
  \<open>lexical_cast\<close> to \<open>size_t\<close>, to \<open>integer_t\<close> and to \<open>real_t\<close>, its \<open>split\<close>, the text of a pointer and
  what a string holds after its contents have been moved away.
\<close>

subsection \<open>Environment and state\<close>

record ('e, 'g) scgi_env =
  slots_of :: "'g signals"
  host_big :: bool
  dictionary :: addr
  browse_depth :: nat
  cast_size :: lexical_cast
  cast_integer :: "string \<Rightarrow> integer_t option"
  cast_real :: "string \<Rightarrow> real_t option"
  split_type :: "string \<Rightarrow> string list"
  pointer_text :: "addr \<Rightarrow> string"
  moved_from :: "string \<Rightarrow> string"
  uninitialised :: "64 word"

text \<open>What a request works on, and around it the connection.\<close>

record ('e, 'g) scgi_request =
  rserves :: "client \<times> ('e, 'g) world"
  parser :: request_parser
  remote_endpoint_name :: string

record ('e, 'g) scgi_context =
  rq :: "('e, 'g) scgi_request"
  inbuf :: string
  outbuf :: string
  pending :: async_op
  wire :: string
  sent :: string

definition inbuf_size :: nat where "inbuf_size = 1500"

definition new_scgi_context ::
  "('e, 'g) scgi_env \<Rightarrow> addr \<Rightarrow> userlevel \<Rightarrow> ('e, 'g) world \<Rightarrow> ('e, 'g) scgi_context" where
  "new_scgi_context E a ul w =
     \<lparr>rq = \<lparr>rserves = (new_client a ul, w), parser = new_request_parser (uninitialised E) (uninitialised E),
            remote_endpoint_name = []\<rparr>,
      inbuf = [], outbuf = [], pending = Closed, wire = [], sent = []\<rparr>"

definition scgi_preload :: "('e, 'g) scgi_context \<Rightarrow> ('e, 'g) scgi_context" where
  "scgi_preload st = st\<lparr>pending := Read_pending\<rparr>"

subsection \<open>Handlers\<close>

definition on_rserves :: "(client \<times> ('e, 'g) world, 'a) act \<Rightarrow> (('e, 'g) scgi_request, 'a) act" where
  "on_rserves f q = (case f (rserves q) of (r, cw) \<Rightarrow> (r, q\<lparr>rserves := cw\<rparr>))"

definition find_by_uri :: "('e, 'g) scgi_env \<Rightarrow> (('e, 'g) scgi_request, addr option) act" where
  "find_by_uri E q = (find_object (tree (snd (rserves q))) (dictionary E) (uri (parser q)) CHR ''/'', q)"

text \<open>
  \<open>send_response\<close> is the last statement of every handler and of every \<open>catch\<close>: the handlers return
  the text it puts into the buffer, and \<open>scgi_read_handler\<close> starts the write.
\<close>

definition send_response :: "response \<Rightarrow> (('e, 'g) scgi_request, string) act" where
  "send_response resp = from_result (print_response resp)"

definition with_content_type :: "string \<Rightarrow> string \<Rightarrow> response" where
  "with_content_type t b = (stock_response ok)
     \<lparr>resp_headers := set_header ''Content-Type'' t (resp_headers (stock_response ok)), resp_body := b\<rparr>"

definition handle_get_request :: "('e, 'g) scgi_env \<Rightarrow> (('e, 'g) scgi_request, string) act" where
  "handle_get_request E q =
     (if uri (parser q) = ''/browse'' \<or> uri (parser q) = ''/browse/'' then
        st_then (from_result (xml_document (pointer_text E) (tree (snd (rserves q))) (browse_depth E)
                   (fst (rserves q)) (Some (dictionary E))))
          (\<lambda>body_oss. send_response (with_content_type ''text/xml'' body_oss)) q
      else
        st_then (find_by_uri E) (\<lambda>obj.
        st_then (on_rserves (\<lambda>(c, w). on_world (get_parameter (host_big E) (dictionary E) c obj) (c, w))) (\<lambda>v.
        send_response (with_content_type ''text/plain'' (js_value_encoder (host_big E) v)))) q)"

text \<open>The bytes of an \<open>integer_t\<close> and of a \<open>double\<close>, read through the views on the body.\<close>

definition read_word64 :: "('e, 'g) scgi_env \<Rightarrow> string \<Rightarrow> 64 word" where
  "read_word64 E s = word_of_nat (little_endian_to_native (host_big E) 8 (of_native (host_big E) s))"

text \<open>
  The strings of a sequence: between two of them the iterator is advanced by two, past the end if
  fewer characters are left.
\<close>

function bencode_strings :: "('e, 'g) scgi_env \<Rightarrow> string \<Rightarrow> error + string list" where
  "bencode_strings E it =
     (if it = [] then Inr []
      else (case bencode_parse (cast_size E) it (new_bencode (uninitialised E)) of
              ((res, it'), p) \<Rightarrow>
                if res \<noteq> good then Inl (Runtime invalid_value_error)
                else if it' = [] then Inr [data p]
                else if length it' < 2 then Inl Undefined
                else and_then (bencode_strings E (drop 2 it')) (\<lambda>ss. Inr (data p # ss))))"
  by pat_completeness auto

lemma bencode_parse_shorter: "bencode_parse lc cs p = ((r, cs'), p') \<Longrightarrow> length cs' \<le> length cs"
  by (induction lc cs p arbitrary: r cs' p' rule: bencode_parse.induct)
    (auto split: prod.splits if_splits intro: le_SucI)

termination bencode_strings
proof (relation "measure (\<lambda>(E, it). length it)")
  fix E :: "('e, 'g) scgi_env" and it :: string and x1 x2 p r it'
  assume "it \<noteq> []" "(x1, p) = bencode_parse (cast_size E) it (new_bencode (uninitialised E))" "(r, it') = x1"
    "\<not> r \<noteq> good" "it' \<noteq> []" "\<not> length it' < 2"
  then have "length it' \<le> length it" "0 < length it'" by (auto dest: bencode_parse_shorter [OF sym])
  then have "length it' - 2 < length it" by linarith
  then show "((E, drop 2 it'), E, it) \<in> measure (\<lambda>(E, it). length it)" by simp
qed simp

declare bencode_strings.simps [simp del]

definition content :: "string \<Rightarrow> string" where
  "content t = ''vnd/com.toptica.decof.'' @ t"

definition put_value :: "('e, 'g) scgi_env \<Rightarrow> string \<Rightarrow> string \<Rightarrow> error + value_t" where
  "put_value E type b =
     (let invalid = Inl (Runtime invalid_value_error) in
      if type = content ''boolean'' then
        (if b = ''true'' then Inr (Scalar_t (Boolean_t True))
         else if b = ''false'' then Inr (Scalar_t (Boolean_t False))
         else invalid)
      else if type = content ''integer'' then
        (case cast_integer E (fst (read_word b)) of None \<Rightarrow> invalid | Some i \<Rightarrow> Inr (Scalar_t (Integer_t i)))
      else if type = content ''real'' then
        (case cast_real E (fst (read_word b)) of None \<Rightarrow> invalid | Some r \<Rightarrow> Inr (Scalar_t (Real_t r)))
      else if type = content ''string'' then Inr (Scalar_t (String_t b))
      else if type = content ''boolean_seq'' then
        Inr (Sequence_t (map (\<lambda>c. Boolean_t (0 < (of_char c :: nat) \<and> (of_char c :: nat) < 128)) b))
      else if type = content ''integer_seq'' then
        (if length b mod 8 \<noteq> 0 then invalid
         else Inr (Sequence_t (map (\<lambda>s. Integer_t (read_word64 E s)) (chunks 8 b))))
      else if type = content ''real_seq'' then
        (if length b mod 8 \<noteq> 0 then invalid
         else Inr (Sequence_t (map (\<lambda>s. Real_t (read_word64 E s)) (chunks 8 b))))
      else if type = content ''string_seq'' then
        and_then (bencode_strings E b) (\<lambda>ss. Inr (Sequence_t (map String_t ss)))
      else if type = content ''tuple'' then Inl (Runtime not_implemented_error)
      else Inl (Runtime wrong_type_error))"

text \<open>The body is trimmed in place; a string is moved out of it.\<close>

definition handle_put_request :: "('e, 'g) scgi_env \<Rightarrow> (('e, 'g) scgi_request, string) act" where
  "handle_put_request E q =
     (let b = trim_if is_space (body (parser q));
          t = content_type (parser q);
          left = (if t = content ''string'' then moved_from E b else b)
      in st_then (from_result (put_value E t b)) (\<lambda>val.
         st_then (find_by_uri E) (\<lambda>obj.
         st_then (on_rserves (\<lambda>(c, w). on_world (set_parameter (slots_of E) (host_big E) (dictionary E) c obj val) (c, w))) (\<lambda>_.
         send_response (stock_response ok)))) (q\<lparr>parser := (parser q)\<lparr>body := left\<rparr>\<rparr>))"

definition handle_post_request :: "('e, 'g) scgi_env \<Rightarrow> (('e, 'g) scgi_request, string) act" where
  "handle_post_request E =
     st_then (find_by_uri E) (\<lambda>obj.
     st_then (on_rserves (\<lambda>(c, w). on_world (signal_event (dictionary E) c obj) (c, w))) (\<lambda>_.
     send_response (stock_response ok)))"

definition header_at :: "string \<Rightarrow> (('e, 'g) scgi_request, string) act" where
  "header_at k q = (case map_of (headers (parser q)) k of None \<Rightarrow> (Inl Out_of_range, q) | Some v \<Rightarrow> (Inr v, q))"

text \<open>A complete request: the body of the \<open>try\<close> block for \<open>good\<close>.\<close>

definition handle_request :: "('e, 'g) scgi_env \<Rightarrow> (('e, 'g) scgi_request, string) act" where
  "handle_request E =
     st_then (header_at ''REMOTE_ADDR'') (\<lambda>a.
     st_then (header_at ''REMOTE_PORT'') (\<lambda>p q.
       (let q1 = q\<lparr>remote_endpoint_name := ''scgi://'' @ a @ '':'' @ p\<rparr>;
            m = req_method (parser q1)
        in if m = method_type.get then handle_get_request E q1
           else if m = method_type.put then handle_put_request E q1
           else if m = method_type.post then handle_post_request E q1
           else throw (Runtime parse_error) q1)))"

text \<open>The \<open>try\<close> block: the text of a response, or \<open>None\<close> if more bytes are needed.\<close>

definition process_bytes :: "('e, 'g) scgi_env \<Rightarrow> string \<Rightarrow> (('e, 'g) scgi_request, string option) act" where
  "process_bytes E bytes q =
     (case request_parse (cast_size E) (split_type E) bytes None (parser q) of
        (res, p) \<Rightarrow>
          (let q1 = q\<lparr>parser := p\<rparr> in
           case res of
             None \<Rightarrow> throw Undefined q1
           | Some good \<Rightarrow> st_then (handle_request E) (\<lambda>text. ret (Some text)) q1
           | Some bad \<Rightarrow> throw (Runtime parse_error) q1
           | Some indeterminate \<Rightarrow> ret None q1))"

text \<open>The \<open>catch\<close> clauses in their order; what is not an exception cannot be caught.\<close>

definition caught_status :: "error \<Rightarrow> status_code option" where
  "caught_status e = (case e of
     Runtime access_denied_error \<Rightarrow> Some unauthorized
   | Runtime invalid_parameter_error \<Rightarrow> Some not_found
   | Runtime _ \<Rightarrow> Some bad_request
   | Out_of_range \<Rightarrow> Some bad_request
   | Assertion_failed \<Rightarrow> None
   | Undefined \<Rightarrow> None
   | _ \<Rightarrow> Some internal_server_error)"

definition catch_errors ::
  "(error + string option) \<times> ('e, 'g) scgi_request \<Rightarrow> (error + string option) \<times> ('e, 'g) scgi_request" where
  "catch_errors res =
     (case res of
        (Inr r, q) \<Rightarrow> (Inr r, q)
      | (Inl e, q) \<Rightarrow>
          (case caught_status e of
             None \<Rightarrow> (Inl e, q)
           | Some s \<Rightarrow> st_then (send_response (stock_response s)) (\<lambda>text. ret (Some text)) q))"

definition answer_bytes :: "('e, 'g) scgi_env \<Rightarrow> string \<Rightarrow> (('e, 'g) scgi_request, string option) act" where
  "answer_bytes E bytes q = catch_errors (process_bytes E bytes q)"

definition disconnect_scgi :: "('e, 'g) scgi_context \<Rightarrow> ('e, 'g) scgi_context" where
  "disconnect_scgi st = st\<lparr>pending := Closed\<rparr>"

definition scgi_read_handler ::
  "('e, 'g) scgi_env \<Rightarrow> bool \<Rightarrow> nat \<Rightarrow> ('e, 'g) scgi_context \<Rightarrow> ('e, 'g) scgi_context" where
  "scgi_read_handler E error bytes_transferred st =
     (if \<not> error then
        (case answer_bytes E (take bytes_transferred (inbuf st)) (rq st) of
           (Inl e, q) \<Rightarrow> st\<lparr>rq := q, pending := Crashed e\<rparr>
         | (Inr None, q) \<Rightarrow> scgi_preload (st\<lparr>rq := q\<rparr>)
         | (Inr (Some text), q) \<Rightarrow> st\<lparr>rq := q, outbuf := outbuf st @ text, pending := Write_pending\<rparr>)
      else disconnect_scgi st)"

definition scgi_write_handler :: "bool \<Rightarrow> ('e, 'g) scgi_context \<Rightarrow> ('e, 'g) scgi_context" where
  "scgi_write_handler error st = (if \<not> error then scgi_preload st else disconnect_scgi st)"

subsection \<open>The events of the socket\<close>

text \<open>
  As for the command line: bytes arrive, the outstanding write completes, the outstanding read
  takes up to \<open>n\<close> bytes and completes if it got one, the outstanding operation fails.
\<close>

fun scgi_event :: "('e, 'g) scgi_env \<Rightarrow> socket_event \<Rightarrow> ('e, 'g) scgi_context \<Rightarrow> ('e, 'g) scgi_context" where
  "scgi_event E (Arrived s) st = st\<lparr>wire := wire st @ s\<rparr>"
| "scgi_event E Written st =
     (if pending st = Write_pending
      then scgi_write_handler False (st\<lparr>sent := sent st @ outbuf st, outbuf := []\<rparr>) else st)"
| "scgi_event E (Received n) st =
     (let s = take (min n inbuf_size) (wire st)
      in if pending st = Read_pending \<and> s \<noteq> []
         then scgi_read_handler E False (length s)
                (st\<lparr>inbuf := s @ drop (length s) (inbuf st), wire := drop (length s) (wire st)\<rparr>)
         else st)"
| "scgi_event E (Failed n) st =
     (case pending st of
        Write_pending \<Rightarrow>
          scgi_write_handler True (st\<lparr>sent := sent st @ take n (outbuf st), outbuf := drop n (outbuf st)\<rparr>)
      | Read_pending \<Rightarrow> scgi_read_handler E True 0 st
      | _ \<Rightarrow> st)"

definition scgi_run :: "('e, 'g) scgi_env \<Rightarrow> socket_event list \<Rightarrow> ('e, 'g) scgi_context \<Rightarrow> ('e, 'g) scgi_context" where
  "scgi_run E evs st = fold (scgi_event E) evs st"


subsection \<open>Requests in pieces\<close>

text \<open>
  The parser's counters after \<open>n\<close> bytes; a complete request is final: no continuation of it is
  answered \<open>good\<close> again by the same parser. (The bound keeps the counters from wrapping around.)
\<close>

definition counted :: "nat \<Rightarrow> request_parser \<Rightarrow> bool" where
  "counted n p \<longleftrightarrow> length (body p) \<le> n \<and>
     (rstate p \<noteq> netstring_length_st \<longrightarrow> unat (netstring_count p) \<le> n)"

lemma unat_add_1: "unat (x + 1 :: 64 word) \<le> Suc (unat x)"
  by (auto simp: unat_plus_if')

lemma check_header_keeps:
  "check_header lc p = Some p1 \<Longrightarrow> body p1 = body p \<and> netstring_count p1 = netstring_count p"
  by (auto simp: check_header_def split: if_splits)

lemma consume_counted:
  assumes "counted n p" "request_consume lc split c p = (r, p')"
  shows "counted (Suc n) p'"
  using assms unat_add_1 [of "netstring_count p"]
  by (cases "rstate p")
    (auto simp: request_consume_def counted_def Let_def stored_fields
      dest!: check_header_keeps split: if_splits option.splits)

lemma parse_counted: "counted n p \<Longrightarrow> request_parse lc split cs r p = (r', p') \<Longrightarrow> counted (n + length cs) p'"
proof (induction cs arbitrary: n p r)
  case (Cons c cs)
  obtain r1 p1 where c: "request_consume lc split c p = (r1, p1)" by fastforce
  have "counted (Suc n) p1" by (rule consume_counted [OF Cons.prems(1) c])
  with Cons.IH [OF this] Cons.prems(2) c show ?case by (auto simp: counted_def split: if_splits)
qed simp

lemma good_is_final:
  assumes n: "counted n p" "n < 2 ^ 64 - 2" and c: "request_consume lc split c p = (good, p')"
  shows "fst (request_parse lc split (d # ds) r p') \<noteq> Some good"
proof -
  have bad: "fst (request_consume lc split d p') = bad \<Longrightarrow> ?thesis"
    by (cases "request_consume lc split d p'") simp
  from c consider
    (no_body) "rstate p = header_start" "netstring_length p = netstring_count p"
      "p' = p\<lparr>netstring_count := netstring_count p + 1\<rparr>"
  | (body) "rstate p = body_range" "p' = p\<lparr>netstring_count := netstring_count p + 1, body := body p @ [c]\<rparr>"
      "word_of_nat (length (body p')) = content_length p"
    by (cases "rstate p") (auto simp: request_consume_def Let_def split: if_splits option.splits)
  then show ?thesis
  proof cases
    case no_body
    obtain m where m: "netstring_count p = word_of_nat m" "m < 2 ^ 64 - 2"
      using n no_body(1) by (intro that [of "unat (netstring_count p)"]) (auto simp: counted_def)
    have "\<not> word_of_nat (m + 2) < (word_of_nat m :: 64 word)"
      using m(2) by (subst word64_of_nat_less) simp_all
    with no_body m(1) show ?thesis
      by (intro bad) (simp add: request_consume_def Let_def add.commute)
  next
    case body
    let ?p = "p'\<lparr>netstring_count := netstring_count p' + 1, body := body p' @ [d]\<rparr>"
    obtain m where m: "length (body p') = m" "Suc m < 2 ^ 64" using n body(2) by (simp add: counted_def)
    have st: "rstate p' = body_range" "content_length p' = word_of_nat m"
      using body(3) [unfolded m(1)] body(1) by (simp_all add: body(2))
    have "word_of_nat (Suc m) \<noteq> (word_of_nat m :: 64 word)" using m(2) by (subst word64_of_nat_eq) simp_all
    then have 1: "request_consume lc split d p' = (indeterminate, ?p)"
      using st m(1) by (simp add: request_consume_def Let_def)
    have "\<not> word_of_nat (Suc m) \<le> (word_of_nat m :: 64 word)" using m(2) by (subst word64_of_nat_le) simp_all
    then have "\<exists>p2. request_consume lc split e ?p = (bad, p2)" for e
      using st m(1) by (simp add: request_consume_def Let_def del: of_nat_Suc)
    then obtain p2 where "request_consume lc split (hd ds) ?p = (bad, p2)" by blast
    then show ?thesis using 1 by (cases ds) auto
  qed
qed

lemma parse_bad_append:
  "cs \<noteq> [] \<Longrightarrow> fst (request_parse lc split cs r p) = Some bad \<Longrightarrow> fst (request_parse lc split (cs @ ds) r p) = Some bad"
proof (induction cs arbitrary: r p)
  case (Cons c cs)
  show ?case
  proof (cases "request_consume lc split c p")
    case (Pair r1 p1)
    with Cons show ?thesis by (cases "r1 = bad"; cases cs) auto
  qed
qed simp

text \<open>A proper beginning of an accepted request is answered \<open>indeterminate\<close>.\<close>

lemma beginning_indeterminate:
  assumes good: "fst (request_parse lc split (us @ vs) None p) = Some good" and p: "counted 0 p"
    and len: "length (us @ vs) < 2 ^ 64 - 2" and ne: "us \<noteq> []" "vs \<noteq> []"
  shows "fst (request_parse lc split us None p) = Some indeterminate"
proof -
  obtain us' c where us: "us = us' @ [c]" using ne(1) by (metis rev_exhaust)
  obtain d ds where vs: "vs = d # ds" using ne(2) by (metis list.exhaust)
  obtain r0 p0 where r0: "request_parse lc split us' None p = (r0, p0)" by fastforce
  obtain r1 p1 where r1: "request_consume lc split c p0 = (r1, p1)" by fastforce
  have "r0 \<noteq> Some bad"
    using parse_bad_append [of us' lc split None p "c # vs"] good r0 us by (cases us') auto
  then have run: "request_parse lc split us None p = (Some r1, p1)"
    unfolding us using r0 r1 by (simp add: request_parse_append)
  have "r1 \<noteq> bad" using parse_bad_append [OF ne(1), of lc split None p vs] good run by auto
  moreover have "r1 \<noteq> good"
  proof
    assume g: "r1 = good"
    have "counted (length us') p0" using parse_counted [OF p r0] by simp
    moreover have "length us' < 2 ^ 64 - 2" using len us by simp
    ultimately have "fst (request_parse lc split vs (Some r1) p1) \<noteq> Some good"
      unfolding vs using good_is_final r1 g by blast
    then show False using good run g by (simp add: request_parse_append)
  qed
  ultimately show ?thesis using run by (cases r1) simp_all
qed


text \<open>Processing bytes in two pieces is processing them at once, if the first piece is not an answer.\<close>

lemma process_pieces:
  assumes "request_parse (cast_size E) (split_type E) us None (parser q) = (r, p)" "r \<noteq> Some bad" "vs \<noteq> []"
  shows "answer_bytes E (us @ vs) q = answer_bytes E vs (q\<lparr>parser := p\<rparr>)"
proof -
  have "request_parse (cast_size E) (split_type E) (us @ vs) None (parser q) =
      request_parse (cast_size E) (split_type E) vs None p"
    using assms request_parse_result [OF assms(3)] by (simp add: request_parse_append)
  then have "process_bytes E (us @ vs) q = process_bytes E vs (q\<lparr>parser := p\<rparr>)"
    by (simp add: process_bytes_def)
  then show ?thesis by (simp add: answer_bytes_def)
qed

lemma answer_indeterminate:
  assumes "request_parse (cast_size E) (split_type E) us None (parser q) = (Some indeterminate, p)"
  shows "answer_bytes E us q = (Inr None, q\<lparr>parser := p\<rparr>)"
  using assms by (simp add: answer_bytes_def process_bytes_def catch_errors_def ret_def)

text \<open>
  The invariant of a connection that is sent one request \<open>full\<close>: \<open>us\<close> has been read. \<open>q0\<close> is the
  state before, \<open>q\<close> after the answer \<open>reply\<close>.
\<close>

definition exchanging ::
  "('e, 'g) scgi_env \<Rightarrow> ('e, 'g) scgi_request \<Rightarrow> string \<Rightarrow> string \<Rightarrow> ('e, 'g) scgi_request \<Rightarrow> string \<Rightarrow>
   ('e, 'g) scgi_context \<Rightarrow> bool" where
  "exchanging E q0 full reply q a st \<longleftrightarrow> (\<exists>us. a = us @ wire st \<and>
     (if us = full
      then rq st = q \<and> sent st @ outbuf st = reply \<and>
        (pending st = Write_pending \<or> pending st = Read_pending \<and> outbuf st = [])
      else rq st = q0\<lparr>parser := snd (request_parse (cast_size E) (split_type E) us None (parser q0))\<rparr> \<and>
        sent st = [] \<and> outbuf st = [] \<and> pending st = Read_pending))"

text \<open>\<open>full\<close> is one request for a fresh parser, and \<open>reply\<close> the answer to it.\<close>

definition one_request ::
  "('e, 'g) scgi_env \<Rightarrow> ('e, 'g) scgi_request \<Rightarrow> string \<Rightarrow> string \<Rightarrow> ('e, 'g) scgi_request \<Rightarrow> bool" where
  "one_request E q0 full reply q \<longleftrightarrow>
     fst (request_parse (cast_size E) (split_type E) full None (parser q0)) = Some good \<and>
     counted 0 (parser q0) \<and> length full < 2 ^ 64 - 2 \<and> answer_bytes E full q0 = (Inr (Some reply), q)"

lemma request_not_empty: "one_request E q0 full reply q \<Longrightarrow> full \<noteq> []"
  by (auto simp: one_request_def)

lemma beginning:
  assumes one: "one_request E q0 full reply q" and "full = us @ vs" "vs \<noteq> []"
  shows "us = [] \<or> fst (request_parse (cast_size E) (split_type E) us None (parser q0)) = Some indeterminate"
  using beginning_indeterminate [of "cast_size E" "split_type E" us vs "parser q0"] assms
  by (auto simp: one_request_def)

text \<open>A piece that is read either completes the request or leaves the parser in the middle of it.\<close>

lemma piece:
  assumes one: "one_request E q0 full reply q" and "full = us @ s @ vs" "s \<noteq> []"
    "rq st = q0\<lparr>parser := snd (request_parse (cast_size E) (split_type E) us None (parser q0))\<rparr>"
  shows "answer_bytes E s (rq st) =
    (if vs = [] then (Inr (Some reply), q)
     else (Inr None, q0\<lparr>parser := snd (request_parse (cast_size E) (split_type E) (us @ s) None (parser q0))\<rparr>))"
proof -
  obtain r p where r: "request_parse (cast_size E) (split_type E) us None (parser q0) = (r, p)" by fastforce
  have "r \<noteq> Some bad" using beginning [OF one, of us "s @ vs"] assms(2,3) r by auto
  from process_pieces [OF r this assms(3)] have "answer_bytes E s (rq st) = answer_bytes E (us @ s) q0"
    using assms(4) r by simp
  also have "\<dots> = (if vs = [] then (Inr (Some reply), q)
     else (Inr None, q0\<lparr>parser := snd (request_parse (cast_size E) (split_type E) (us @ s) None (parser q0))\<rparr>))"
  proof (cases "vs = []")
    case True
    then show ?thesis using assms(1,2) by (simp add: one_request_def)
  next
    case False
    with beginning [OF one, of "us @ s" vs] assms(2,3) have "fst (request_parse (cast_size E) (split_type E) (us @ s) None (parser q0)) = Some indeterminate"
      by auto
    then show ?thesis
      using False answer_indeterminate [of E "us @ s" q0]
      by (cases "request_parse (cast_size E) (split_type E) (us @ s) None (parser q0)") simp
  qed
  finally show ?thesis .
qed


lemma exchanging_start:
  assumes "one_request E (rq st) full reply q" "outbuf st = []" "sent st = []" "wire st = []"
  shows "exchanging E (rq st) full reply q [] (scgi_preload st)"
  using assms request_not_empty [OF assms(1)]
  by (auto simp: exchanging_def scgi_preload_def)

lemma exchanging_arrived:
  "exchanging E q0 full reply q a st \<Longrightarrow> exchanging E q0 full reply q (a @ s) (scgi_event E (Arrived s) st)"
  unfolding exchanging_def by fastforce

lemma exchanging_written:
  "exchanging E q0 full reply q a st \<Longrightarrow> exchanging E q0 full reply q a (scgi_event E Written st)"
  unfolding exchanging_def by (auto simp: scgi_write_handler_def scgi_preload_def split: if_splits)

lemma exchanging_received:
  assumes one: "one_request E q0 full reply q" and inv: "exchanging E q0 full reply q a st" and a: "full = a @ later"
  shows "exchanging E q0 full reply q a (scgi_event E (Received n) st)"
proof -
  obtain s w where s: "take (min n inbuf_size) (wire st) = s" "wire st = s @ w"
    by (metis append_take_drop_id)
  show ?thesis
  proof (cases "pending st = Read_pending \<and> s \<noteq> []")
    case True
    from inv obtain us where us: "a = us @ wire st"
      "if us = full then rq st = q \<and> sent st @ outbuf st = reply \<and>
        (pending st = Write_pending \<or> pending st = Read_pending \<and> outbuf st = [])
      else rq st = q0\<lparr>parser := snd (request_parse (cast_size E) (split_type E) us None (parser q0))\<rparr> \<and>
        sent st = [] \<and> outbuf st = [] \<and> pending st = Read_pending" unfolding exchanging_def by blast
    have "us \<noteq> full" using us(1) a True s(2) by auto
    with us(2) have st: "rq st = q0\<lparr>parser := snd (request_parse (cast_size E) (split_type E) us None (parser q0))\<rparr>"
      "sent st = []" "outbuf st = []" by simp_all
    have full: "full = us @ s @ (w @ later)" using us(1) a s(2) by simp
    let ?st = "st\<lparr>inbuf := s @ drop (length s) (inbuf st), wire := w\<rparr>"
    have ev: "scgi_event E (Received n) st = scgi_read_handler E False (length s) ?st"
      using True s by (simp add: Let_def)
    note p = piece [OF one full _ st(1)]
    show ?thesis
      unfolding ev exchanging_def using p full True st us(1) s(2)
      by (intro exI [of _ "us @ s"]) (simp add: scgi_read_handler_def scgi_preload_def)
  qed (use inv s in \<open>auto simp: Let_def\<close>)
qed


lemma exchanging_run:
  assumes "one_request E q0 full reply q" "undisturbed evs" "full = a @ arrived evs @ later"
    "exchanging E q0 full reply q a st"
  shows "exchanging E q0 full reply q (a @ arrived evs) (scgi_run E evs st)"
  using assms(2-)
proof (induction evs arbitrary: a st)
  case Nil
  then show ?case by (simp add: scgi_run_def)
next
  case (Cons ev evs)
  have "exchanging E q0 full reply q (a @ arrived [ev]) (scgi_event E ev st)"
  proof (cases ev)
    case (Arrived s)
    with exchanging_arrived [OF Cons.prems(3)] show ?thesis by simp
  next
    case Written
    with exchanging_written [OF Cons.prems(3)] show ?thesis by simp
  next
    case (Received n)
    with exchanging_received [OF assms(1) Cons.prems(3)] Cons.prems(2) show ?thesis by simp
  next
    case (Failed n)
    with Cons.prems(1) show ?thesis by simp
  qed
  moreover have "arrived (ev # evs) = arrived [ev] @ arrived evs" by (cases ev) simp_all
  moreover have "undisturbed evs" using Cons.prems(1) by (cases ev) simp_all
  ultimately show ?case using Cons.IH [of "a @ arrived [ev]"] Cons.prems(2) by (simp add: scgi_run_def)
qed

text \<open>A round of writing and reading brings the exchange forward, until all is read and written.\<close>

definition to_do :: "('e, 'g) scgi_context \<Rightarrow> nat" where
  "to_do st = (if wire st = [] \<and> pending st = Read_pending then 0 else Suc (length (wire st)))"

lemma read_handler_wire: "wire (scgi_read_handler E error n st) = wire st"
  by (auto simp: scgi_read_handler_def scgi_preload_def disconnect_scgi_def split: prod.split sum.split option.split)

lemma exchange_round:
  assumes one: "one_request E q0 full reply q" and inv: "exchanging E q0 full reply q full st"
    and k: "to_do st \<le> Suc k" and n: "0 < n"
  shows "exchanging E q0 full reply q full (scgi_event E (Received n) (scgi_event E Written st))"
    and "to_do (scgi_event E (Received n) (scgi_event E Written st)) \<le> k"
proof -
  let ?st = "scgi_event E Written st"
  have w: "exchanging E q0 full reply q full ?st" by (rule exchanging_written [OF inv])
  show "exchanging E q0 full reply q full (scgi_event E (Received n) ?st)"
    by (rule exchanging_received [OF one w, of "[]"]) simp
  have st: "wire ?st = wire st" "pending ?st = Read_pending"
    using inv by (auto simp: exchanging_def scgi_write_handler_def scgi_preload_def split: if_splits)
  show "to_do (scgi_event E (Received n) ?st) \<le> k"
  proof (cases "wire st = []")
    case True
    then show ?thesis using st by (simp add: to_do_def)
  next
    case False
    have "take (min n inbuf_size) (wire ?st) \<noteq> []" using False n st(1) by (simp add: inbuf_size_def)
    then have "length (wire (scgi_event E (Received n) ?st)) < length (wire st)"
      using st by (simp add: Let_def read_handler_wire)
    with False k show ?thesis by (simp add: to_do_def split: if_splits)
  qed
qed

lemma exchange_done:
  assumes "one_request E q0 full reply q" "exchanging E q0 full reply q full st" "to_do st \<le> k" "0 < n"
  shows "sent (scgi_run E (concat (replicate k [Written, Received n])) st) = reply \<and>
    rq (scgi_run E (concat (replicate k [Written, Received n])) st) = q"
  using assms
proof (induction k arbitrary: st)
  case 0
  then show ?case by (auto simp: to_do_def exchanging_def scgi_run_def split: if_splits)
next
  case (Suc k)
  from exchange_round [OF Suc.prems] Suc.IH [OF assms(1)] Suc.prems(4) show ?case
    by (simp add: scgi_run_def)
qed

lemma exchanging_sent: "exchanging E q0 full reply q a st \<Longrightarrow> \<exists>later. reply = sent st @ later"
  by (auto simp: exchanging_def split: if_splits)

lemma to_do_bound: "exchanging E q0 full reply q a st \<Longrightarrow> to_do st \<le> Suc (length a)"
  by (auto simp: exchanging_def to_do_def)

text \<open>A well-formed request is one request for a new connection.\<close>

lemma one_request:
  assumes "lexical_cast_ok (cast_size E)"
    and "hs = request_headers b others" and "distinct (map fst hs)" and "list_all header_ok hs"
    and "length (encode_request hs b) < 2 ^ 64 - 2"
    and "answer_bytes E (encode_request hs b) (rq (new_scgi_context E a ul w)) = (Inr (Some reply), q)"
  shows "one_request E (rq (new_scgi_context E a ul w)) (encode_request hs b) reply q"
proof -
  have "length (concat (map encode_header hs)) < 2 ^ 64" "length b < 2 ^ 64"
    using assms(5) by (simp_all add: encode_request_def netstring_def)
  from accepted_run [OF assms(1-4) this, of "split_type E" "uninitialised E" "uninitialised E"] assms(5,6)
  show ?thesis
    by (auto simp: one_request_def new_scgi_context_def counted_def new_request_parser_def request_reset_def)
qed

text \<open>
  C9. A client that sends one well-formed request gets exactly one response, the one the request
  would get if it arrived at once, however its bytes are cut into packets and whatever the socket
  does in which order: at any time what it has received is a beginning of that response, and it
  receives all of it after at most one round of writing and reading per byte it has sent.
\<close>

theorem scgi_answers:
  assumes "lexical_cast_ok (cast_size E)"
    and "hs = request_headers b others" and "distinct (map fst hs)" and "list_all header_ok hs"
    and "length (encode_request hs b) < 2 ^ 64 - 2"
    and "answer_bytes E (encode_request hs b) (rq (new_scgi_context E a ul w)) = (Inr (Some reply), q)"
    and "undisturbed evs" and "arrived evs = encode_request hs b"
  shows "let st = scgi_run E evs (scgi_preload (new_scgi_context E a ul w));
      st' = scgi_run E (drain (Suc (length (arrived evs)))) st
    in (\<exists>later. reply = sent st @ later) \<and> sent st' = reply \<and> rq st' = q"
proof -
  let ?new = "new_scgi_context E a ul w"
  let ?st = "scgi_run E evs (scgi_preload ?new)"
  note one = one_request [OF assms(1-6)]
  have "outbuf ?new = []" "sent ?new = []" "wire ?new = []" by (simp_all add: new_scgi_context_def)
  note start = exchanging_start [OF one this]
  have i: "exchanging E (rq ?new) (arrived evs) reply q (arrived evs) ?st"
    using exchanging_run [OF one assms(7) _ start, of "[]"] assms(8) by simp
  have "sent (scgi_run E (drain (Suc (length (arrived evs)))) ?st) = reply \<and>
      rq (scgi_run E (drain (Suc (length (arrived evs)))) ?st) = q"
    unfolding drain_def using one i to_do_bound [OF i] by (intro exchange_done) (simp_all add: assms(8))
  with exchanging_sent [OF i] show ?thesis by (simp add: Let_def)
qed


subsection \<open>What a request is answered\<close>

text \<open>An environment's requests: well-formed, short enough, and with the peer's address.\<close>

definition sendable :: "('e, 'g) scgi_env \<Rightarrow> (string \<times> string) list \<Rightarrow> string \<Rightarrow> bool" where
  "sendable E hs b \<longleftrightarrow> lexical_cast_ok (cast_size E) \<and> distinct (map fst hs) \<and> list_all header_ok hs \<and>
     length (encode_request hs b) < 2 ^ 64 - 2 \<and>
     map_of hs ''REMOTE_ADDR'' \<noteq> None \<and> map_of hs ''REMOTE_PORT'' \<noteq> None"

definition content_type_of :: "('e, 'g) scgi_env \<Rightarrow> (string \<times> string) list \<Rightarrow> string" where
  "content_type_of E hs = header_or hs ''CONTENT_TYPE'' (\<lambda>v. media_type (split_type E) v []) []"

definition uri_of :: "(string \<times> string) list \<Rightarrow> string" where
  "uri_of hs = header_or hs ''REQUEST_URI'' (\<lambda>v. v) []"

definition method_of :: "(string \<times> string) list \<Rightarrow> method_type" where
  "method_of hs = header_or hs ''REQUEST_METHOD'' (\<lambda>v. named_method v undefined_m) undefined_m"

lemma accepted_answer:
  assumes "sendable E hs b" and "hs = request_headers b others"
  shows "\<exists>q. answer_bytes E (encode_request hs b) (rq (new_scgi_context E a ul w)) =
      catch_errors (st_then
        (if method_of hs = method_type.get then handle_get_request E
         else if method_of hs = method_type.put then handle_put_request E
         else if method_of hs = method_type.post then handle_post_request E
         else throw (Runtime parse_error)) (\<lambda>text. ret (Some text)) q) \<and>
    rserves q = (new_client a ul, w) \<and> body (parser q) = b \<and> uri (parser q) = uri_of hs \<and>
    content_type (parser q) = content_type_of E hs \<and> req_method (parser q) = method_of hs \<and>
    headers (parser q) = hs \<and> request_done hs b (parser q)"
proof -
  have s: "lexical_cast_ok (cast_size E)" "distinct (map fst hs)" "list_all header_ok hs"
    using assms(1) by (simp_all add: sendable_def)
  have len: "length (concat (map encode_header hs)) < 2 ^ 64" "length b < 2 ^ 64"
    using assms(1) by (simp_all add: sendable_def encode_request_def netstring_def)
  obtain p where p: "request_parse (cast_size E) (split_type E) (encode_request hs b) None
      (new_request_parser (uninitialised E) (uninitialised E)) = (Some good, p)"
    "headers p = hs" "body p = b" "req_method p = method_of hs" "uri p = uri_of hs"
    "content_type p = content_type_of E hs" "request_done hs b p"
    using accepted_run [OF s(1) assms(2) s(2,3) len, of "split_type E" "uninitialised E" "uninitialised E"]
    unfolding method_of_def uri_of_def content_type_of_def by blast
  obtain ra rp where r: "map_of hs ''REMOTE_ADDR'' = Some ra" "map_of hs ''REMOTE_PORT'' = Some rp"
    using assms(1) by (auto simp: sendable_def)
  let ?q = "\<lparr>rserves = (new_client a ul, w), parser = p, remote_endpoint_name = ''scgi://'' @ ra @ '':'' @ rp\<rparr>"
  show ?thesis
    by (rule exI [of _ ?q])
      (simp add: answer_bytes_def process_bytes_def new_scgi_context_def p handle_request_def header_at_def r
        Let_def st_then_def)
qed

lemma print_ok: "print_response (stock_response s) = (if s = continue_st \<or> s = switching_protocols then Inl Out_of_range
   else Inr (projr (print_response (stock_response s))))"
  by (simp add: print_response_def status_text_exists stock_response_def)

lemma caught_not_informational: "caught_status e = Some s \<Longrightarrow> s \<noteq> continue_st \<and> s \<noteq> switching_protocols"
  by (auto simp: caught_status_def split: error.splits runtime_error.splits)

text \<open>A handler that fails with an exception is answered with the status of the exception.\<close>

lemma catch_failure:
  assumes "f q = (Inl e, q')" "caught_status e = Some s"
  shows "catch_errors (st_then f (\<lambda>text. ret (Some text)) q) =
    (map_sum id Some (print_response (stock_response s)), q')"
  using assms caught_not_informational [OF assms(2)] print_ok [of s]
  by (cases "print_response (stock_response s)")
    (simp_all add: catch_errors_def send_response_def from_result_def st_then_def ret_def)

lemma denied_errors:
  "read_denied i c obj w = Some e \<or> write_denied i c obj w = Some e \<Longrightarrow> e = access_denied_error \<or> e = invalid_parameter_error"
  by (auto simp: read_denied_def write_denied_def split: if_splits option.splits)


lemma bencode_strings_errors: "bencode_strings E it = Inl e \<Longrightarrow> e = Runtime invalid_value_error \<or> e = Undefined"
proof (induction E it rule: bencode_strings.induct)
  case (1 E it)
  obtain r it' p where "bencode_parse (cast_size E) it (new_bencode (uninitialised E)) = ((r, it'), p)"
    by (metis surj_pair)
  with 1 show ?case
    by (cases "bencode_strings E (drop 2 it')") (auto simp: bencode_strings.simps [of E it] split: if_splits)
qed

lemma put_value_errors:
  "put_value E t b = Inl e \<Longrightarrow>
   e = Runtime invalid_value_error \<or> e = Runtime not_implemented_error \<or> e = Runtime wrong_type_error \<or> e = Undefined"
  by (cases "bencode_strings E b")
    (auto simp: put_value_def Let_def dest: bencode_strings_errors split: if_splits option.splits)

text \<open>What keeps a request from being carried out: the error of each method, before any effect.\<close>

definition refused ::
  "('e, 'g) scgi_env \<Rightarrow> (string \<times> string) list \<Rightarrow> string \<Rightarrow> client \<Rightarrow> addr option \<Rightarrow> ('e, 'g) world \<Rightarrow> error option" where
  "refused E hs b c obj w =
     (if method_of hs = method_type.get then
        (if uri_of hs = ''/browse'' \<or> uri_of hs = ''/browse/'' then None
         else map_option Runtime (read_denied read_interface c obj w))
      else if method_of hs = method_type.put then
        (case put_value E (content_type_of E hs) (trim_if is_space b) of
           Inl e \<Rightarrow> Some e
         | Inr v \<Rightarrow> map_option Runtime (write_denied write_interface c obj w))
      else if method_of hs = method_type.post then map_option Runtime (write_denied event_interface c obj w)
      else Some (Runtime parse_error))"

lemma refused_answer:
  assumes "sendable E hs b" and "hs = request_headers b others"
    and "idle (dictionary E) w" and "c = new_client a ul"
    and "find_object (tree w) (dictionary E) (uri_of hs) CHR ''/'' = Inr obj"
    and "refused E hs b c obj w = Some e" and "caught_status e = Some s"
  shows "\<exists>q. answer_bytes E (encode_request hs b) (rq (new_scgi_context E a ul w)) =
      (map_sum id Some (print_response (stock_response s)), q) \<and> rserves q = (c, w) \<and>
    s = (if e = Runtime access_denied_error then unauthorized
         else if e = Runtime invalid_parameter_error then not_found else bad_request)"
proof -
  obtain q where q: "answer_bytes E (encode_request hs b) (rq (new_scgi_context E a ul w)) =
      catch_errors (st_then
        (if method_of hs = method_type.get then handle_get_request E
         else if method_of hs = method_type.put then handle_put_request E
         else if method_of hs = method_type.post then handle_post_request E
         else throw (Runtime parse_error)) (\<lambda>text. ret (Some text)) q)"
    "rserves q = (c, w)" "body (parser q) = b" "uri (parser q) = uri_of hs"
    "content_type (parser q) = content_type_of E hs"
    using accepted_answer [OF assms(1,2), of a ul w] assms(4) by blast
  note denied = cast_denied [OF assms(3), of c obj]
  have find: "find_by_uri E q' = (Inr obj, q')" if "rserves q' = (c, w)" "uri (parser q') = uri_of hs" for q'
    using that assms(5) by (simp add: find_by_uri_def)
  have same: "q'\<lparr>rserves := (c, w)\<rparr> = q'" if "rserves q' = (c, w)" for q' :: "('b, 'a) scgi_request"
    using that by (cases q') simp
  have "\<exists>q'. (if method_of hs = method_type.get then handle_get_request E
         else if method_of hs = method_type.put then handle_put_request E
         else if method_of hs = method_type.post then handle_post_request E
         else throw (Runtime parse_error)) q = (Inl e, q') \<and> rserves q' = (c, w)"
    using assms(6) q(2-5) find [of q] same [of q]
      find [of "q\<lparr>parser := (parser q)\<lparr>body := x\<rparr>\<rparr>" for x] same [of "q\<lparr>parser := (parser q)\<lparr>body := x\<rparr>\<rparr>" for x]
    by (auto simp: refused_def handle_get_request_def handle_put_request_def handle_post_request_def throw_def
        st_then_def on_rserves_def on_world_def from_result_def Let_def denied split: if_splits sum.splits)
  then have "\<exists>q. answer_bytes E (encode_request hs b) (rq (new_scgi_context E a ul w)) =
      (map_sum id Some (print_response (stock_response s)), q) \<and> rserves q = (c, w)"
    using q(1) catch_failure assms(7) by metis
  moreover have "s = (if e = Runtime access_denied_error then unauthorized
      else if e = Runtime invalid_parameter_error then not_found else bad_request)"
    using assms(6,7) put_value_errors denied_errors
    by (fastforce simp: refused_def caught_status_def split: if_splits sum.splits)
  ultimately show ?thesis by blast
qed

text \<open>
  C36. A request that must not or cannot be carried out has no effect on the program and is answered
  with the status of the reason: an object that does not exist or lacks the interface with 404, one
  beyond the client's userlevel with 401; a body that does not fit its content type, an unknown
  content type and an unknown method with 400. A body is judged before the object.
\<close>

theorem scgi_errors_reported:
  assumes "sendable E hs b" and "hs = request_headers b others"
    and "idle (dictionary E) w" and "c = new_client a ul"
    and "find_object (tree w) (dictionary E) (uri_of hs) CHR ''/'' = Inr obj"
    and "refused E hs b c obj w = Some e" and "caught_status e = Some s"
  shows "\<exists>q. answer_bytes E (encode_request hs b) (rq (new_scgi_context E a ul w)) =
      (map_sum id Some (print_response (stock_response s)), q) \<and> rserves q = (c, w) \<and>
    s = (if e = Runtime access_denied_error then unauthorized
         else if e = Runtime invalid_parameter_error then not_found else bad_request)"
  by (rule refused_answer [OF assms])

text \<open>One environment and one request.\<close>

definition sample_scgi :: "(nat, (connection \<times> slot) list) scgi_env" where
  "sample_scgi = \<lparr>slots_of = list_signals, host_big = False, dictionary = 0, browse_depth = 9,
     cast_size = reference_cast,
     cast_integer = (\<lambda>s. if s \<noteq> [] \<and> list_all is_digit s \<and> read_digits s < 2 ^ 63
        then Some (word_of_nat (read_digits s)) else None),
     cast_real = (\<lambda>s. if s = ''0'' then Some 0 else None), split_type = (\<lambda>s. [s]), pointer_text = (\<lambda>a. ''0''),
     moved_from = (\<lambda>s. []), uninitialised = 7\<rparr>"

definition sample_request :: "string \<Rightarrow> string \<Rightarrow> string \<Rightarrow> string \<Rightarrow> (string \<times> string) list" where
  "sample_request m u t b = request_headers b
     [(''REQUEST_METHOD'', m), (''REQUEST_URI'', u), (''CONTENT_TYPE'', t), (''REMOTE_ADDR'', ''h''), (''REMOTE_PORT'', ''1'')]"

lemma sample_sendable:
  assumes "CHR 0x00 \<notin> set m" "CHR 0x00 \<notin> set u" "CHR 0x00 \<notin> set t"
    "length (encode_request (sample_request m u t b) b) < 2 ^ 64 - 2"
  shows "sendable sample_scgi (sample_request m u t b) b"
  using assms header_ok_digits [of "length b"] reference_cast_ok
  by (simp add: sendable_def sample_scgi_def sample_request_def request_headers_def)
    (simp add: header_ok_def)

lemma sample_lookup:
  "uri_of (sample_request m u t b) = u"
  "content_type_of sample_scgi (sample_request m u t b) = t"
  "method_of (sample_request m u t b) = named_method m undefined_m"
  by (simp_all add: uri_of_def content_type_of_def method_of_def sample_request_def request_headers_def
      header_or_def sample_scgi_def media_type_def)

definition sample_get :: "(string \<times> string) list" where
  "sample_get = sample_request ''GET'' ''/x'' ''t'' []"

lemma sample_get_missing:
  "find_object (tree (sample_world k)) 0 ''/x'' CHR ''/'' = Inr None"
  by (simp add: find_object_def deref_def sample_world_def Let_def)

lemma sample_get_sendable: "sendable sample_scgi sample_get []"
proof -
  have "length (encode_request (sample_request ''GET'' ''/x'' ''t'' []) []) = 106" by code_simp
  then show ?thesis unfolding sample_get_def by (intro sample_sendable) simp_all
qed

lemma sample_get_refused:
  "refused sample_scgi sample_get [] (new_client 9 Normal) None w = Some (Runtime invalid_parameter_error)"
  by (simp add: refused_def sample_get_def sample_lookup named_method_def read_denied_def)

lemma sample_get_premises:
  "sample_get = request_headers [] (tl (tl sample_get))" "idle (dictionary sample_scgi) (sample_world k)"
  "find_object (tree (sample_world k)) (dictionary sample_scgi) (uri_of sample_get) CHR ''/'' = Inr None"
  "caught_status (Runtime invalid_parameter_error) = Some not_found"
  using sample_facts(1) [of k] sample_get_missing [of k]
  by (simp_all add: sample_get_def sample_request_def request_headers_def caught_status_def
      sample_scgi_def uri_of_def header_or_def)

theorem scgi_errors_reported_witness:
  "\<exists>q. answer_bytes sample_scgi (encode_request sample_get []) (rq (new_scgi_context sample_scgi 9 Normal (sample_world (Event None)))) =
     (map_sum id Some (print_response (stock_response not_found)), q) \<and>
     rserves q = (new_client 9 Normal, sample_world (Event None))"
  using scgi_errors_reported [OF sample_get_sendable sample_get_premises(1,2) refl
      sample_get_premises(3) sample_get_refused sample_get_premises(4), of "Event None"] by blast

definition not_found_text :: string where
  "not_found_text = ''HTTP/1.1 404 Not Found'' @ crlf @ ''Content-Type: text/plain'' @ crlf @
     ''Content-Length: 0'' @ crlf @ crlf"

lemma not_found_text: "print_response (stock_response not_found) = Inr not_found_text"
  by code_simp


theorem scgi_answers_witness:
  "sent (scgi_run sample_scgi (drain 107) (scgi_run sample_scgi
      [Arrived (take 50 (encode_request sample_get [])), Received 9, Written,
       Arrived (drop 50 (encode_request sample_get [])), Received 3]
      (scgi_preload (new_scgi_context sample_scgi 9 Normal (sample_world (Event None)))))) = not_found_text"
proof -
  let ?full = "encode_request sample_get []"
  let ?evs = "[Arrived (take 50 ?full), Received 9, Written, Arrived (drop 50 ?full), Received 3]"
  obtain q where q: "answer_bytes sample_scgi ?full (rq (new_scgi_context sample_scgi 9 Normal (sample_world (Event None)))) =
      (Inr (Some not_found_text), q)"
    using refused_answer [OF sample_get_sendable sample_get_premises(1,2) refl
        sample_get_premises(3) sample_get_refused sample_get_premises(4), of "Event None"] not_found_text by auto
  have s: "lexical_cast_ok (cast_size sample_scgi)" "distinct (map fst sample_get)" "list_all header_ok sample_get"
    "length ?full < 2 ^ 64 - 2"
    using sample_get_sendable by (simp_all add: sendable_def)
  have a: "undisturbed ?evs" "arrived ?evs = ?full" by simp_all
  have len: "length ?full = 106" unfolding sample_get_def by code_simp
  from scgi_answers [OF s(1) sample_get_premises(1) s(2-4) q a] show ?thesis
    unfolding a(2) len by (simp add: Let_def)
qed

end
