(* ===== verification/Scgi_Round_Trip.thy ===== *)
theory Scgi_Round_Trip
  imports Scgi_Context Cli_Round_Trip
begin

text \<open>
  The round trip of the SCGI protocol: which bodies of responses can be sent back in requests, what
  that means for a client that puts a value and a client that then gets it, and what becomes of the
  bytes that follow a request on the same connection.
\<close>

subsection \<open>Words of numbers\<close>

text \<open>The characters of a printed number; none is a space.\<close>

definition num_char :: "char \<Rightarrow> bool" where
  "num_char c \<longleftrightarrow> is_digit c \<or> c \<in> set ''.e+-nanif''"

lemma num_char_no_space: "num_char c \<Longrightarrow> \<not> is_space c"
  by (auto simp: num_char_def is_space_def is_digit_def)

lemma digits_num [simp]: "list_all num_char (digits 10 n)"
  using digits_all_digits [of n] by (simp add: list_all_iff num_char_def)

lemma num_chars [simp]:
  "num_char CHR ''0''" "num_char CHR ''.''" "num_char CHR ''e''" "num_char CHR ''+''" "num_char CHR ''-''"
  "num_char CHR ''n''" "num_char CHR ''a''" "num_char CHR ''i''" "num_char CHR ''f''"
  by (simp_all add: num_char_def is_digit_def)

lemma in_set_tlD: "x \<in> set (tl s) \<Longrightarrow> x \<in> set s"
  by (cases s) simp_all

lemma sublist_num:
  assumes "list_all num_char s"
  shows "list_all num_char (take k s)" "list_all num_char (drop k s)" "list_all num_char (tl s)"
    "list_all num_char (point (strip_zeros s))" "list_all num_char (pad_left k s)" "s \<noteq> [] \<Longrightarrow> num_char (hd s)"
  using assms
  by (auto simp: list_all_iff point_def pad_left_def dest: in_set_takeD in_set_dropD set_dropWhileD in_set_tlD)

lemma replicate_num [simp]: "list_all num_char (replicate k CHR ''0'')"
  by (induction k) simp_all

lemma show_int_num: "list_all num_char (show_int i)"
  by (simp add: show_int_def)

lemma let_all: "(\<And>x. list_all P (f x)) \<Longrightarrow> list_all P (Let a f)"
  by simp

lemma case_prod_all: "(\<And>a b. list_all P (f a b)) \<Longrightarrow> list_all P (case p of (a, b) \<Rightarrow> f a b)"
  by (simp add: case_prod_beta)

lemma if_all: "list_all P a \<Longrightarrow> list_all P b \<Longrightarrow> list_all P (if c then a else b)"
  by simp

lemma show_fin_num [simp]: "list_all num_char (show_fin prec m e)"
  unfolding show_fin_def
  apply (rule if_all, simp)
  apply (rule let_all)+
  apply (rule case_prod_all)
  apply (simp add: Let_def sublist_num digits_not_Nil del: strip_zeros.simps replicate_append_same)
  done

lemma show_double_num: "list_all num_char (show_double prec w)"
  by (simp add: show_double_def split: fp.split)

text \<open>A text of such characters is trimmed and read as one word.\<close>

lemma num_word:
  assumes "list_all num_char s"
  shows "trim_if is_space s = s" "fst (read_word s) = s"
proof -
  have n: "\<forall>c \<in> set s. \<not> is_space c" using assms num_char_no_space by (auto simp: list_all_iff)
  have drop: "\<forall>c \<in> set t. \<not> is_space c \<Longrightarrow> dropWhile is_space t = t" for t by (cases t) simp_all
  have "dropWhile is_space s = s" "dropWhile is_space (rev s) = rev s"
    using drop [of s] drop [of "rev s"] n by simp_all
  moreover have "takeWhile (\<lambda>c. \<not> is_space c) s = s" using n by simp
  ultimately show "trim_if is_space s = s" "fst (read_word s) = s" by (simp_all add: trim_if_def read_word_def)
qed


subsection \<open>Bodies\<close>

text \<open>
  The values whose text in a response is accepted as the body of a request of content type \<open>t\<close>.
  Bodies are trimmed, so strings must not begin or end with a space, nor may the bytes of a
  sequence. Boost's casts must read back the number that was printed.
\<close>

fun booleans :: "scalar_t list \<Rightarrow> bool" where
  "booleans [] = True"
| "booleans (x # xs) = ((case x of Boolean_t b \<Rightarrow> True | _ \<Rightarrow> False) \<and> booleans xs)"

fun reals :: "scalar_t list \<Rightarrow> bool" where
  "reals [] = True"
| "reals (x # xs) = ((case x of Real_t r \<Rightarrow> True | _ \<Rightarrow> False) \<and> reals xs)"

fun short_strings :: "scalar_t list \<Rightarrow> bool" where
  "short_strings [] = True"
| "short_strings (x # xs) = ((case x of String_t s \<Rightarrow> length s < 2 ^ 64 | _ \<Rightarrow> False) \<and> short_strings xs)"

definition ends_in_space :: "string \<Rightarrow> bool" where
  "ends_in_space s \<longleftrightarrow> s \<noteq> [] \<and> is_space (last s)"

fun puttable :: "('e, 'g) scgi_env \<Rightarrow> string \<Rightarrow> value_t \<Rightarrow> bool" where
  "puttable E t (Scalar_t (Boolean_t b)) = (t = content ''boolean'')"
| "puttable E t (Scalar_t (Integer_t i)) = (t = content ''integer'' \<and> cast_integer E (show_int (sint i)) = Some i)"
| "puttable E t (Scalar_t (Real_t r)) = (t = content ''real'' \<and> cast_real E (show_double 17 r) = Some r)"
| "puttable E t (Scalar_t (String_t s)) = (t = content ''string'' \<and> trim_if is_space s = s)"
| "puttable E t (Sequence_t xs) =
     (t = content ''boolean_seq'' \<and> booleans xs \<or>
      t = content ''real_seq'' \<and> reals xs \<and>
        trim_if is_space (js_value_encoder (host_big E) (Sequence_t xs)) = js_value_encoder (host_big E) (Sequence_t xs) \<or>
      t = content ''string_seq'' \<and> short_strings xs \<and>
        (xs \<noteq> [] \<longrightarrow> \<not> ends_in_space (case last xs of String_t s \<Rightarrow> s | _ \<Rightarrow> [])))"
| "puttable E t g = False"

lemma content_neq [simp]: "content s = content t \<longleftrightarrow> s = t"
  by (simp add: content_def)

lemma trim_no_space: "\<forall>c \<in> set s. \<not> P c \<Longrightarrow> trim_if P s = s"
proof -
  assume n: "\<forall>c \<in> set s. \<not> P c"
  have drop: "\<forall>c \<in> set t. \<not> P c \<Longrightarrow> dropWhile P t = t" for t by (cases t) simp_all
  show ?thesis using drop [of s] drop [of "rev s"] n by (simp add: trim_if_def)
qed

lemma boolean_byte: "(0 < (of_char (char_of (of_bool b :: nat)) :: nat) \<and> (of_char (char_of (of_bool b :: nat)) :: nat) < 128) = b"
  by (cases b) (simp_all add: of_char_of)

lemma boolean_no_space: "\<not> is_space (char_of (of_bool b :: nat))"
proof -
  have "\<not> is_space (char_of (of_bool True :: nat))" "\<not> is_space (char_of (of_bool False :: nat))" by code_simp+
  then show ?thesis by (metis (full_types))
qed

lemma boolean_body:
  "booleans xs \<Longrightarrow> map (\<lambda>c. Boolean_t (0 < (of_char c :: nat) \<and> (of_char c :: nat) < 128))
     (concat (map (sequence_element_encoder big) xs)) = xs \<and>
   (\<forall>c \<in> set (concat (map (sequence_element_encoder big) xs)). \<not> is_space c)"
proof (induction xs rule: booleans.induct)
  case (2 x xs)
  then obtain b where "x = Boolean_t b" by (cases x) auto
  with 2 show ?case by (simp add: boolean_byte boolean_no_space del: of_bool_eq of_bool_eq_1_iff of_char_of)
qed simp

lemma word64_small: "unat (r :: 64 word) < 256 ^ 8"
  using unsigned_less [of r, where ?'a = nat] by simp

lemma real_element: "word_of_nat (of_le (le_bytes 8 (unat r))) = (r :: 64 word)"
  using word64_small [of r] by (simp add: of_le_bytes)

lemma real_body:
  assumes "reals xs"
  shows "length (concat (map (sequence_element_encoder (host_big E)) xs)) mod 8 = 0"
    and "map (\<lambda>s. Real_t (read_word64 E s)) (chunks 8 (concat (map (sequence_element_encoder (host_big E)) xs))) = xs"
proof -
  have e: "sequence_element_encoder (host_big E) (Real_t r) = le_bytes 8 (unat r)" for r
    using word64_small [of r] by (simp add: little_endian_written)
  have all: "list_all (\<lambda>s. length s = 8) (map (sequence_element_encoder (host_big E)) xs)"
    using assms
  proof (induction xs rule: reals.induct)
    case (2 x xs)
    then show ?case by (cases x) simp_all
  qed simp
  from chunks_concat [OF _ this] have c: "chunks 8 (concat (map (sequence_element_encoder (host_big E)) xs)) =
      map (sequence_element_encoder (host_big E)) xs" by simp
  show "map (\<lambda>s. Real_t (read_word64 E s)) (chunks 8 (concat (map (sequence_element_encoder (host_big E)) xs))) = xs"
    unfolding c using assms
  proof (induction xs rule: reals.induct)
    case (2 x xs)
    then obtain r where "x = Real_t r" by (cases x) auto
    with 2 show ?case
      using little_endian_read [of "le_bytes 8 (unat r)" 8 "host_big E"] real_element [of r]
      by (simp add: e read_word64_def del: sequence_element_encoder.simps)
  qed simp
  show "length (concat (map (sequence_element_encoder (host_big E)) xs)) mod 8 = 0"
    using all by (induction xs) simp_all
qed

text \<open>The strings of a sequence as they stand in a trimmed body.\<close>

definition bencoded :: "string \<Rightarrow> string" where
  "bencoded s = digits 10 (length s) @ CHR '':'' # s"

fun joined :: "string list \<Rightarrow> string" where
  "joined [] = []"
| "joined [s] = bencoded s"
| "joined (s # ss) = bencoded s @ crlf @ joined ss"

lemma bencoded_ends:
  "bencoded s \<noteq> []" "\<not> is_space (hd (bencoded s))" "is_space (last (bencoded s)) \<longleftrightarrow> ends_in_space s"
proof -
  show "bencoded s \<noteq> []" by (simp add: bencoded_def)
  have "num_char (hd (digits 10 (length s)))" by (rule sublist_num(6)) (simp_all add: digits_not_Nil)
  then show "\<not> is_space (hd (bencoded s))" using num_char_no_space digits_not_Nil by (simp add: bencoded_def)
  show "is_space (last (bencoded s)) \<longleftrightarrow> ends_in_space s"
    by (simp add: bencoded_def ends_in_space_def is_space_def)
qed

lemma joined_ends:
  "ss \<noteq> [] \<Longrightarrow> joined ss \<noteq> [] \<and> \<not> is_space (hd (joined ss)) \<and> (is_space (last (joined ss)) \<longleftrightarrow> ends_in_space (last ss))"
  by (induction ss rule: joined.induct) (simp_all add: bencoded_ends)

lemma short_strings_list:
  "short_strings xs \<Longrightarrow> \<exists>ss. xs = map String_t ss \<and> (\<forall>s \<in> set ss. length s < 2 ^ 64)"
proof (induction xs rule: short_strings.induct)
  case (2 x xs)
  then obtain s ss where "x = String_t s" "xs = map String_t ss" "\<forall>s \<in> set (s # ss). length s < 2 ^ 64"
    by (cases x) auto
  then show ?case by (intro exI [of _ "s # ss"]) simp
qed simp

lemma strings_text:
  "ss \<noteq> [] \<Longrightarrow> concat (map (sequence_element_encoder big) (map String_t ss)) = joined ss @ crlf"
  by (induction ss rule: joined.induct) (simp_all add: bencoded_def)

lemma trim_tail:
  assumes "s \<noteq> []" "\<not> P (hd s)" "\<not> P (last s)" "\<forall>c \<in> set t. P c"
  shows "trim_if P (s @ t) = s"
proof -
  have "dropWhile P (rev t @ rev s) = dropWhile P (rev s)" using assms(4) by (intro dropWhile_append2) simp
  also have "\<dots> = rev s" using assms(1,3) by (cases "rev s") (auto simp: hd_rev [symmetric])
  finally show ?thesis using assms(1,2) by (cases s) (simp_all add: trim_if_def)
qed

lemma strings_trimmed:
  assumes "ss \<noteq> []" "\<not> ends_in_space (last ss)"
  shows "trim_if is_space (joined ss @ crlf) = joined ss"
  using assms joined_ends [OF assms(1)] by (intro trim_tail) (auto simp: crlf_def is_space_def)

lemma strings_read:
  assumes "lexical_cast_ok (cast_size E)" "\<forall>s \<in> set ss. length s < 2 ^ 64"
  shows "bencode_strings E (joined ss) = Inr ss"
  using assms(2)
proof (induction ss rule: joined.induct)
  case 1
  show ?case by (simp add: bencode_strings.simps)
next
  case (2 s)
  then obtain p where "bencode_parse (cast_size E) (bencoded s) (new_bencode (uninitialised E)) = ((good, []), p)" "data p = s"
    using bencode_round_trip [OF assms(1), of s "[]"] by (auto simp: bencoded_def)
  then show ?case using bencoded_ends(1) by (simp add: bencode_strings.simps)
next
  case (3 s s' ss)
  let ?r = "crlf @ joined (s' # ss)"
  obtain p where "bencode_parse (cast_size E) (bencoded s @ ?r) (new_bencode (uninitialised E)) = ((good, ?r), p)" "data p = s"
    using 3 bencode_round_trip [OF assms(1), of s ?r] by (auto simp: bencoded_def)
  moreover have "bencode_strings E (joined (s' # ss)) = Inr (s' # ss)" using 3 by simp
  ultimately show ?case
    using bencoded_ends(1) [of s] by (subst bencode_strings.simps) (simp add: crlf_def)
qed

lemma puttable_read:
  assumes "lexical_cast_ok (cast_size E)" "puttable E t g"
  shows "put_value E t (trim_if is_space (js_value_encoder (host_big E) g)) = Inr g"
proof (cases g)
  case (Scalar_t x)
  then show ?thesis
    using assms(2) num_word [OF show_int_num] num_word [OF show_double_num]
    by (cases x) (auto simp: put_value_def trim_no_space is_space_def)
next
  case (Sequence_t xs)
  with assms(2) consider "t = content ''boolean_seq''" "booleans xs"
    | "t = content ''real_seq''" "reals xs"
        "trim_if is_space (js_value_encoder (host_big E) g) = js_value_encoder (host_big E) g"
    | "t = content ''string_seq''" "short_strings xs"
        "xs \<noteq> [] \<longrightarrow> \<not> ends_in_space (case last xs of String_t s \<Rightarrow> s | _ \<Rightarrow> [])"
    by auto
  then show ?thesis
  proof cases
    case 1
    then show ?thesis using boolean_body [OF 1(2), of "host_big E"] trim_no_space Sequence_t by (simp add: put_value_def)
  next
    case 2
    then show ?thesis using real_body [OF 2(2), of E] Sequence_t by (simp add: put_value_def)
  next
    case 3
    obtain ss where ss: "xs = map String_t ss" "\<forall>s \<in> set ss. length s < 2 ^ 64" using short_strings_list [OF 3(2)] by blast
    have "trim_if is_space (js_value_encoder (host_big E) g) = joined ss"
    proof (cases "ss = []")
      case True
      then show ?thesis by (simp add: Sequence_t ss(1) trim_if_def)
    next
      case False
      with 3(3) have "\<not> ends_in_space (last ss)" by (simp add: ss(1) last_map)
      with False strings_trimmed strings_text [OF False] show ?thesis by (simp add: Sequence_t ss(1))
    qed
    then show ?thesis
      using strings_read [OF assms(1) ss(2)] 3(1) Sequence_t ss(1) by (simp add: put_value_def)
  qed
qed (use assms(2) in simp)


text \<open>
  Sequences of integers are not among them: a response has four bytes for each, a request must
  have eight.
\<close>

lemma integer_seq_mismatch:
  assumes "xs = map Integer_t js" "odd (length js)"
    "trim_if is_space (js_value_encoder big (Sequence_t xs)) = js_value_encoder big (Sequence_t xs)"
  shows "put_value E (content ''integer_seq'') (trim_if is_space (js_value_encoder big (Sequence_t xs))) =
    Inl (Runtime invalid_value_error)"
proof -
  have "length (js_value_encoder big (Sequence_t xs)) = 4 * length js"
    unfolding assms(1) by (induction js) simp_all
  moreover obtain k where "length js = 2 * k + 1" using assms(2) by (rule oddE)
  ultimately have "length (js_value_encoder big (Sequence_t xs)) mod 8 = 4" by simp
  then show ?thesis unfolding assms(3) by (simp add: put_value_def)
qed



subsection \<open>Put, then get\<close>

text \<open>What a granted request does, from the handlers' state to the response.\<close>

lemma with_type_ok: "\<exists>body_text. print_response (with_content_type t b) = Inr body_text"
  by (simp add: print_response_def with_content_type_def stock_response_def status_text_exists)

lemma get_answer:
  assumes "sendable E hs []" "hs = request_headers [] others" "method_of hs = method_type.get"
    and "uri_of hs \<noteq> ''/browse''" "uri_of hs \<noteq> ''/browse/''"
    and "find_object (tree w) (dictionary E) (uri_of hs) CHR ''/'' = Inr obj"
    and "get_parameter (host_big E) (dictionary E) (new_client i ul) obj w = (Inr g, w')"
  shows "\<exists>q. answer_bytes E (encode_request hs []) (rq (new_scgi_context E i ul w)) =
      (map_sum id Some (print_response (with_content_type ''text/plain'' (js_value_encoder (host_big E) g))), q) \<and>
    rserves q = (new_client i ul, w')"
proof -
  obtain q where q: "answer_bytes E (encode_request hs []) (rq (new_scgi_context E i ul w)) =
      catch_errors (st_then (handle_get_request E) (\<lambda>text. ret (Some text)) q)"
    "rserves q = (new_client i ul, w)" "uri (parser q) = uri_of hs"
    using accepted_answer [OF assms(1,2), of i ul w] assms(3) by auto
  obtain body_text where printed: "print_response (with_content_type ''text/plain'' (js_value_encoder (host_big E) g)) = Inr body_text"
    using with_type_ok by blast
  show ?thesis
    unfolding q(1) using q(2,3) assms(4-7) printed
    by (simp add: handle_get_request_def st_then_def find_by_uri_def on_rserves_def on_world_def send_response_def
        from_result_def ret_def catch_errors_def)
qed

lemma put_answer:
  assumes "sendable E hs b" "hs = request_headers b others" "method_of hs = method_type.put"
    and "put_value E (content_type_of E hs) (trim_if is_space b) = Inr g"
    and "find_object (tree w) (dictionary E) (uri_of hs) CHR ''/'' = Inr obj"
    and "set_parameter (slots_of E) (host_big E) (dictionary E) (new_client i ul) obj g w = (Inr (), w')"
  shows "\<exists>q. answer_bytes E (encode_request hs b) (rq (new_scgi_context E i ul w)) =
      (map_sum id Some (print_response (stock_response ok)), q) \<and>
    rserves q = (new_client i ul, w')"
proof -
  obtain q where q: "answer_bytes E (encode_request hs b) (rq (new_scgi_context E i ul w)) =
      catch_errors (st_then (handle_put_request E) (\<lambda>text. ret (Some text)) q)"
    "rserves q = (new_client i ul, w)" "uri (parser q) = uri_of hs" "body (parser q) = b"
    "content_type (parser q) = content_type_of E hs"
    using accepted_answer [OF assms(1,2), of i ul w] assms(3) by auto
  obtain body_text where printed: "print_response (stock_response ok) = Inr body_text" using print_ok [of ok] by simp
  show ?thesis
    unfolding q(1) using q(2-5) assms(4-6) printed
    by (simp add: handle_put_request_def st_then_def find_by_uri_def on_rserves_def on_world_def send_response_def
        from_result_def ret_def catch_errors_def Let_def)
qed

text \<open>
  C11. End to end: a client that may write a managed parameter puts the text of a value and is
  answered 200; every slot is notified once; and any client that may read the parameter and gets it
  then is answered 200 with the very same text as the body - provided the value can be sent back at
  all and the verify handler lets it pass.
\<close>

theorem scgi_put_get:
  assumes "may_write (dictionary E) (new_client i ul) a w" and "leaf_at w a = Some l" and "kind l = Managed_readwrite old f"
    and "fq_name (tree w) a = Some fqn" and "tree w a = Some ob"
    and "effective_userlevel (new_client i' ul') \<le> oreadlevel ob"
    and "from_generic (host_big E) (lhint l) (ltype l) g = Inr v" and "to_generic (host_big E) (lhint l) (ltype l) v = Inr g"
    and "\<not> cpp_eq old v" and "run_verify f v (app w) = (Inr (), s)"
    and "find_object (tree w) (dictionary E) (uri_of hs) CHR ''/'' = Inr (Some a)"
    and "sendable E hs b" and "hs = request_headers b others" and "method_of hs = method_type.put"
    and "b = js_value_encoder (host_big E) g" and "puttable E (content_type_of E hs) g"
    and "sendable E hs' []" and "hs' = request_headers [] others'" and "method_of hs' = method_type.get"
    and "uri_of hs' = uri_of hs" and "uri_of hs \<noteq> ''/browse''" and "uri_of hs \<noteq> ''/browse/''"
  shows "let w' = written (slots_of E) a l v f s fqn g w
    in (\<exists>q. answer_bytes E (encode_request hs b) (rq (new_scgi_context E i ul w)) =
          (map_sum id Some (print_response (stock_response ok)), q) \<and> rserves q = (new_client i ul, w')) \<and>
       (\<exists>q. answer_bytes E (encode_request hs' []) (rq (new_scgi_context E i' ul' w')) =
          (map_sum id Some (print_response (with_content_type ''text/plain'' b)), q) \<and>
          rserves q = (new_client i' ul', w'))"
proof -
  note sg = managed_set_get [OF assms(1-10), where S = "slots_of E"]
  have lc: "lexical_cast_ok (cast_size E)" using assms(12) by (simp add: sendable_def)
  have val: "put_value E (content_type_of E hs) (trim_if is_space b) = Inr g"
    unfolding assms(15) by (rule puttable_read [OF lc assms(16)])
  have find: "find_object (tree (written (slots_of E) a l v f s fqn g w)) (dictionary E) (uri_of hs') CHR ''/'' = Inr (Some a)"
    using outline_find_object [OF sg(3)] assms(11,20) by simp
  show ?thesis
    using put_answer [OF assms(12-14) val assms(11) sg(1)]
      get_answer [OF assms(17-19) _ _ find sg(2)] assms(15,20-22) by (simp add: Let_def)
qed

definition sample_put :: "(string \<times> string) list" where
  "sample_put = sample_request ''PUT'' ''/root/p'' (content ''integer'') ''5''"

definition sample_get_p :: "(string \<times> string) list" where
  "sample_get_p = sample_request ''GET'' ''/root/p'' ''t'' []"

lemma sample_put_requests:
  "sendable sample_scgi sample_put ''5''" "sample_put = request_headers ''5'' (tl (tl sample_put))"
  "method_of sample_put = method_type.put" "uri_of sample_put = ''/root/p''"
  "content_type_of sample_scgi sample_put = content ''integer''"
  "sendable sample_scgi sample_get_p []" "sample_get_p = request_headers [] (tl (tl sample_get_p))"
  "method_of sample_get_p = method_type.get" "uri_of sample_get_p = ''/root/p''"
proof -
  have "length (encode_request (sample_request ''PUT'' ''/root/p'' (content ''integer'') ''5'') ''5'') < 200"
    "length (encode_request (sample_request ''GET'' ''/root/p'' ''t'' []) []) < 200" by code_simp+
  then show "sendable sample_scgi sample_put ''5''" "sendable sample_scgi sample_get_p []"
    unfolding sample_put_def sample_get_p_def by (intro sample_sendable; simp add: content_def)+
  show "sample_put = request_headers ''5'' (tl (tl sample_put))" "sample_get_p = request_headers [] (tl (tl sample_get_p))"
    by (simp_all add: sample_put_def sample_get_p_def sample_request_def request_headers_def)
  show "method_of sample_put = method_type.put" "uri_of sample_put = ''/root/p''"
    "content_type_of sample_scgi sample_put = content ''integer''"
    "method_of sample_get_p = method_type.get" "uri_of sample_get_p = ''/root/p''"
    by (simp_all add: sample_put_def sample_get_p_def sample_lookup named_method_def)
qed

lemma sample_find_p: "find_object (tree (sample_world k)) (dictionary sample_scgi) ''/root/p'' CHR ''/'' = Inr (Some 1)"
  by (simp add: find_object_def deref_def find_descendant_object.simps find_child_def children_of_def
      sample_world_def sample_scgi_def)

lemma sample_scgi_simps:
  "dictionary sample_scgi = 0" "host_big sample_scgi = False" "slots_of sample_scgi = list_signals"
  by (simp_all add: sample_scgi_def)

theorem scgi_put_get_witness:
  "\<exists>w'. (\<exists>q. answer_bytes sample_scgi (encode_request sample_put ''5'')
         (rq (new_scgi_context sample_scgi 9 Service (sample_world (Managed_readwrite (VInt 3) None)))) =
          (map_sum id Some (print_response (stock_response ok)), q) \<and> rserves q = (new_client 9 Service, w')) \<and>
       (\<exists>q. answer_bytes sample_scgi (encode_request sample_get_p []) (rq (new_scgi_context sample_scgi 8 Normal w')) =
          (map_sum id Some (print_response (with_content_type ''text/plain'' ''5'')), q))"
proof -
  let ?w = "sample_world (Managed_readwrite (VInt 3) None)"
  have v: "from_generic False none (CInt True 32) (Scalar_t (Integer_t 5)) = Inr (VInt 5)"
    "to_generic False none (CInt True 32) (VInt 5) = Inr (Scalar_t (Integer_t 5))"
    by (simp_all add: from_generic_def plain_from_generic_def scalar_from_generic_def integral_from_generic_def
        to_generic_def scalar_to_generic_def convert_lossless_integer_def int_min_def int_max_def)
  have printed: "''5'' = js_value_encoder False (Scalar_t (Integer_t 5))" by code_simp
  have "cast_integer sample_scgi ''5'' = Some 5"
    by (simp add: sample_scgi_def is_digit_def read_digits_def digit_value_def)
  moreover have "show_int (sint (5 :: 64 word)) = ''5''" using printed by simp
  ultimately have "cast_integer sample_scgi (show_int (sint (5 :: 64 word))) = Some 5" by simp
  then have puttable: "puttable sample_scgi (content_type_of sample_scgi sample_put) (Scalar_t (Integer_t 5))"
    by (simp add: sample_put_requests(5))
  have "\<exists>ob. tree ?w 1 = Some ob \<and> effective_userlevel (new_client 8 Normal) \<le> oreadlevel ob"
    by (simp add: sample_world_def effective_userlevel_def new_client_def userlevel_defs)
  then obtain ob where ob: "tree ?w 1 = Some ob" "effective_userlevel (new_client 8 Normal) \<le> oreadlevel ob" by blast
  note f = sample_facts [of "Managed_readwrite (VInt 3) None"]
  let ?l = "sample_param (Managed_readwrite (VInt 3) None)"
  have l: "kind ?l = Managed_readwrite (VInt 3) None" "lhint ?l = none" "ltype ?l = CInt True 32"
    by (simp_all add: sample_param_def)
  have ver: "run_verify None (VInt 5) (app ?w) = (Inr (), 0)" by (simp add: run_verify_def sample_world_def)
  have neq: "\<not> cpp_eq (VInt 3) (VInt 5)" by simp
  have find: "find_object (tree ?w) (dictionary sample_scgi) (uri_of sample_put) CHR ''/'' = Inr (Some 1)"
    by (simp add: sample_put_requests(4) sample_find_p)
  have uris: "uri_of sample_get_p = uri_of sample_put" "uri_of sample_put \<noteq> ''/browse''" "uri_of sample_put \<noteq> ''/browse/''"
    by (simp_all add: sample_put_requests(4,9))
  note r = scgi_put_get [of sample_scgi, unfolded sample_scgi_simps, OF f(4) [unfolded sample_client_def] f(2) l(1) f(3) ob
      v [folded l(2,3)] neq ver find [unfolded sample_scgi_simps] sample_put_requests(1-3) printed puttable
      sample_put_requests(6-8) uris]
  show ?thesis by (rule exI) (use r in \<open>auto simp: Let_def\<close>)
qed


subsection \<open>After the request\<close>

text \<open>
  The parser is not reset, and the body it holds is no longer the one that came: it has been trimmed
  or moved away. So it is not full any more.
\<close>

definition left_body :: "('e, 'g) scgi_env \<Rightarrow> (string \<times> string) list \<Rightarrow> string \<Rightarrow> string" where
  "left_body E hs b =
     (let t = trim_if is_space b in if content_type_of E hs = content ''string'' then moved_from E t else t)"

lemma catch_state: "snd (catch_errors res) = snd res"
  by (auto simp: catch_errors_def send_response_def from_result_def st_then_def ret_def split: prod.split sum.split option.split)

lemma put_leaves:
  "parser (snd (handle_put_request E q)) = (parser q)\<lparr>body := (let t = trim_if is_space (body (parser q))
     in if content_type (parser q) = content ''string'' then moved_from E t else t)\<rparr>"
  by (auto simp: handle_put_request_def Let_def st_then_def from_result_def find_by_uri_def on_rserves_def
      send_response_def split: prod.split sum.split)

lemma put_ends:
  assumes "sendable E hs b" "hs = request_headers b others" "method_of hs = method_type.put" "b \<noteq> []"
    and "answer_bytes E (encode_request hs b) (rq (new_scgi_context E i ul w)) = (r, q)"
  shows "rstate (parser q) = body_range" "content_length (parser q) = word_of_nat (length b)"
    "body (parser q) = left_body E hs b" "uri (parser q) = uri_of hs" "content_type (parser q) = content_type_of E hs"
    "req_method (parser q) = method_type.put" "headers (parser q) = hs"
proof -
  obtain q1 where q1: "answer_bytes E (encode_request hs b) (rq (new_scgi_context E i ul w)) =
      catch_errors (st_then (handle_put_request E) (\<lambda>text. ret (Some text)) q1)"
    "body (parser q1) = b" "uri (parser q1) = uri_of hs" "content_type (parser q1) = content_type_of E hs"
    "req_method (parser q1) = method_type.put" "headers (parser q1) = hs" "request_done hs b (parser q1)"
    using accepted_answer [OF assms(1,2), of i ul w] assms(3) by auto
  have "snd (st_then (handle_put_request E) (\<lambda>text. ret (Some text)) q1) = snd (handle_put_request E q1)"
    by (auto simp: st_then_def ret_def split: prod.split sum.split)
  then have "parser q = parser (snd (handle_put_request E q1))"
    using q1(1) assms(5) catch_state by (metis snd_conv)
  then have p: "parser q = (parser q1)\<lparr>body := left_body E hs b\<rparr>"
    by (simp add: put_leaves left_body_def q1(2,4))
  show "rstate (parser q) = body_range" "content_length (parser q) = word_of_nat (length b)"
    "body (parser q) = left_body E hs b" "uri (parser q) = uri_of hs" "content_type (parser q) = content_type_of E hs"
    "req_method (parser q) = method_type.put" "headers (parser q) = hs"
    using q1 assms(4) by (simp_all add: p request_done_def)
qed

text \<open>
  C30. The bytes that follow a PUT request on its connection are not rejected, as those that follow
  any other request are: if they make up for what was trimmed or moved away, the connection takes
  them as the rest of the old body, carries the old request out once more with it and answers 200.
  So after \<open>PUT\<close> of a string any bytes of the same length, sent as a piece of their own, are written
  to the parameter.
\<close>

theorem put_replayed:
  assumes "sendable E hs b" and "hs = request_headers b others" and "method_of hs = method_type.put" and "b \<noteq> []"
    and "answer_bytes E (encode_request hs b) (rq (new_scgi_context E i ul w)) = (r, q)" and "rserves q = (c, w1)"
    and "length (left_body E hs b) + length x = length b" and "x \<noteq> []"
    and "put_value E (content_type_of E hs) (trim_if is_space (left_body E hs b @ x)) = Inr g"
    and "find_object (tree w1) (dictionary E) (uri_of hs) CHR ''/'' = Inr obj"
    and "set_parameter (slots_of E) (host_big E) (dictionary E) c obj g w1 = (Inr (), w2)"
  shows "\<exists>q2. answer_bytes E x q = (map_sum id Some (print_response (stock_response ok)), q2) \<and> rserves q2 = (c, w2)"
proof -
  note p = put_ends [OF assms(1-5)]
  have n: "length b < 2 ^ 64" using assms(1) by (simp add: sendable_def encode_request_def)
  let ?p = "(parser q)\<lparr>netstring_count := netstring_count (parser q) + word_of_nat (length x), body := left_body E hs b @ x\<rparr>"
  have run: "request_parse (cast_size E) (split_type E) x None (parser q) = (Some good, ?p)"
    using body_run [OF p(1,2) _ assms(8) n, of "cast_size E" "split_type E" None] assms(7) by (simp add: p(3))
  obtain ra rp where rem: "map_of hs ''REMOTE_ADDR'' = Some ra" "map_of hs ''REMOTE_PORT'' = Some rp"
    using assms(1) by (auto simp: sendable_def)
  obtain body_text where printed: "print_response (stock_response ok) = Inr body_text" using print_ok [of ok] by simp
  show ?thesis
    using p(4-7) assms(6,9-11) printed rem
    by (simp add: answer_bytes_def process_bytes_def run handle_request_def header_at_def handle_put_request_def
        Let_def st_then_def find_by_uri_def on_rserves_def on_world_def send_response_def from_result_def ret_def
        catch_errors_def)
qed

definition sample_put_again :: "(string \<times> string) list" where
  "sample_put_again = sample_request ''PUT'' ''/root/p'' (content ''integer'') ''5 ''"

theorem put_replayed_witness:
  "\<exists>q q2. answer_bytes sample_scgi (encode_request sample_put_again ''5 '')
      (rq (new_scgi_context sample_scgi 9 Service (sample_world (Managed_readwrite (VInt 3) None)))) =
        (map_sum id Some (print_response (stock_response ok)), q) \<and>
    answer_bytes sample_scgi ''7'' q = (map_sum id Some (print_response (stock_response ok)), q2) \<and>
    rserves q2 = (new_client 9 Service, written list_signals 1 (sample_param (Managed_readwrite (VInt 5) None))
      (VInt 57) None 0 ''root:p'' (Scalar_t (Integer_t 57))
      (snd (rserves q)))"
proof -
  let ?w = "sample_world (Managed_readwrite (VInt 3) None)"
  let ?l = "\<lambda>n. sample_param (Managed_readwrite (VInt n) None)"
  have v: "from_generic False none (CInt True 32) (Scalar_t (Integer_t 5)) = Inr (VInt 5)"
    "to_generic False none (CInt True 32) (VInt 5) = Inr (Scalar_t (Integer_t 5))"
    "from_generic False none (CInt True 32) (Scalar_t (Integer_t 57)) = Inr (VInt 57)"
    "to_generic False none (CInt True 32) (VInt 57) = Inr (Scalar_t (Integer_t 57))"
    by (simp_all add: from_generic_def plain_from_generic_def scalar_from_generic_def integral_from_generic_def
        to_generic_def scalar_to_generic_def convert_lossless_integer_def int_min_def int_max_def)
  have l: "kind (?l n) = Managed_readwrite (VInt n) None" "lhint (?l n) = none" "ltype (?l n) = CInt True 32" for n
    by (simp_all add: sample_param_def)
  have upd: "(?l 3)\<lparr>kind := Managed_readwrite (VInt 5) None\<rparr> = ?l 5" by (simp add: sample_param_def)
  let ?w1 = "written list_signals 1 (?l 3) (VInt 5) None 0 ''root:p'' (Scalar_t (Integer_t 5)) ?w"
  note f = sample_facts [of "Managed_readwrite (VInt 3) None"]
  have ver: "run_verify None (VInt 5) (app ?w) = (Inr (), 0)" "run_verify None (VInt 57) (app ?w1) = (Inr (), 0)"
    by (simp_all add: run_verify_def sample_world_def written_def)
  have ob: "\<exists>ob. tree ?w 1 = Some ob \<and> effective_userlevel (new_client 8 Normal) \<le> oreadlevel ob"
    by (simp add: sample_world_def effective_userlevel_def new_client_def userlevel_defs)
  then obtain ob where ob: "tree ?w 1 = Some ob" "effective_userlevel (new_client 8 Normal) \<le> oreadlevel ob" by blast
  have neq: "\<not> cpp_eq (VInt 3) (VInt 5)" "\<not> cpp_eq (VInt 5) (VInt 57)" by simp_all
  note s1 = managed_set_get [OF f(4) f(2) l(1) f(3) ob v(1,2) [folded l(2,3) [of 3]] neq(1) ver(1), where S = list_signals]
  have m1: "may_write 0 sample_client 1 ?w1"
    using s1(4) f(4) by (auto simp: may_write_def written_def set_leaf_def)
  have l1: "leaf_at ?w1 1 = Some (?l 5)" using ob(1) by (simp add: written_def upd)
  have n1: "fq_name (tree ?w1) 1 = Some ''root:p''" using outline_fq_name [OF s1(3)] f(3) by simp
  obtain ob1 where ob1: "tree ?w1 1 = Some ob1" using l1 by (auto simp: leaf_at_Some)
  have s2: "set_parameter list_signals False 0 sample_client (Some 1) (Scalar_t (Integer_t 57)) ?w1 =
      (Inr (), written list_signals 1 (?l 5) (VInt 57) None 0 ''root:p'' (Scalar_t (Integer_t 57)) ?w1)"
    unfolding written_def [of _ _ "?l 5"]
    by (rule managed_write_at(4) [OF m1 l1 l(1) n1 v(3) [folded l(2,3) [of 5]] neq(2) ver(2) v(4) [folded l(2,3) [of 5]]])
  have "length (encode_request sample_put_again ''5 '') < 200" unfolding sample_put_again_def by code_simp
  then have send: "sendable sample_scgi sample_put_again ''5 ''"
    unfolding sample_put_again_def by (intro sample_sendable; simp add: content_def)
  have req: "sample_put_again = request_headers ''5 '' (tl (tl sample_put_again))" "method_of sample_put_again = method_type.put"
    "uri_of sample_put_again = ''/root/p''" "content_type_of sample_scgi sample_put_again = content ''integer''"
    by (simp_all add: sample_put_again_def sample_lookup named_method_def)
      (simp add: sample_request_def request_headers_def)
  have left: "left_body sample_scgi sample_put_again ''5 '' = ''5''" "trim_if is_space ''57'' = ''57''"
    "trim_if is_space ''5 '' = ''5''"
    by (simp_all add: left_body_def req(4) trim_if_def is_space_def)
  have val: "put_value sample_scgi (content ''integer'') ''5'' = Inr (Scalar_t (Integer_t 5))"
    "put_value sample_scgi (content ''integer'') ''57'' = Inr (Scalar_t (Integer_t 57))"
    by (simp_all add: put_value_def read_word_def is_space_def sample_scgi_def is_digit_def read_digits_def digit_value_def)
  note find = sample_find_p [of "Managed_readwrite (VInt 3) None", unfolded sample_scgi_simps]
  obtain q where q: "answer_bytes sample_scgi (encode_request sample_put_again ''5 '')
      (rq (new_scgi_context sample_scgi 9 Service ?w)) = (map_sum id Some (print_response (stock_response ok)), q)"
    "rserves q = (new_client 9 Service, ?w1)"
    using put_answer [OF send req(1,2), of "Scalar_t (Integer_t 5)" ?w "Some 1" 9 Service ?w1]
      s1(1) val(1) find req(3,4) left(3) unfolding sample_scgi_simps sample_client_def by auto
  have "\<exists>q2. answer_bytes sample_scgi ''7'' q = (map_sum id Some (print_response (stock_response ok)), q2) \<and>
      rserves q2 = (new_client 9 Service, written list_signals 1 (?l 5) (VInt 57) None 0 ''root:p'' (Scalar_t (Integer_t 57)) ?w1)"
    by (rule put_replayed [OF send req(1,2) _ q, of "''7''" "Scalar_t (Integer_t 57)" "Some 1"])
      (use s2 val(2) left req find outline_find_object [OF s1(3)] in
        \<open>simp_all only: sample_scgi_simps sample_client_def append.simps list.size\<close>, simp_all)
  with q show ?thesis by auto
qed

end
