(* ===== verification/Connections.thy ===== *)
theory Connections
  imports Session
begin

text \<open>
  Who is connected to which signal: \<open>client_context\<close> keeps a scoped connection for every parameter it
  observes (\<open>src/core/client_context.cpp\<close>), bound to a slot that holds a plain pointer to it. What
  a session, the destructor and the operations of other clients do to these connections.
\<close>

subsection \<open>The slots of a signal\<close>

definition slots_at :: "'g signals \<Rightarrow> ('e, 'g) leaf heap \<Rightarrow> addr \<Rightarrow> (connection \<times> slot) list" where
  "slots_at S h a =
     (case h a of
        None \<Rightarrow> []
      | Some ob \<Rightarrow> (case klass ob of Leaf_k l \<Rightarrow> sig_slots S (value_signal l) | _ \<Rightarrow> []))"

definition keeps_slots :: "'g signals \<Rightarrow> (('e, 'g) world, 'a) act \<Rightarrow> bool" where
  "keeps_slots S f \<longleftrightarrow> (\<forall>w. slots_at S (tree (snd (f w))) = slots_at S (tree w))"

named_theorems slots_intros \<open>operations that connect and disconnect nobody\<close>

lemma keeps_slots_then [slots_intros]:
  "keeps_slots S f \<Longrightarrow> (\<And>x. keeps_slots S (g x)) \<Longrightarrow> keeps_slots S (st_then f g)"
  unfolding keeps_slots_def st_then_def by (auto split: prod.splits sum.splits) (metis snd_conv)+

lemma keeps_slots_basic [slots_intros]:
  "keeps_slots S (ret x)" "keeps_slots S (throw e)" "keeps_slots S (run_handler f)" "keeps_slots S (get_leaf a)"
  "keeps_slots S (deliver s uri v)" "keeps_slots S (name_of a)" "keeps_slots S (get_object a)"
  "keeps_slots S (\<lambda>w. (r, w))"
  by (auto simp: keeps_slots_def ret_def throw_def run_handler_def get_leaf_def deliver_def name_of_def get_object_def
      split: prod.split option.split klass.split)

lemma keeps_slots_cast [slots_intros]: "keeps_slots S (cast_object interface obj)"
  unfolding cast_object_def by (auto intro!: slots_intros split: option.split)

lemma slots_upd:
  assumes "modify a f h = Inr h'"
    and "\<And>ob. h a = Some ob \<Longrightarrow> (case klass (f ob) of Leaf_k l \<Rightarrow> sig_slots S (value_signal l) | _ \<Rightarrow> []) =
      (case klass ob of Leaf_k l \<Rightarrow> sig_slots S (value_signal l) | _ \<Rightarrow> [])"
  shows "slots_at S h' = slots_at S h"
proof -
  from assms(1) obtain ob where "h a = Some ob" "h' = h(a \<mapsto> f ob)" by (auto simp: modify_def split: option.splits)
  then show ?thesis using assms(2) [of ob] by (auto simp: slots_at_def fun_eq_iff)
qed

lemma keeps_slots_on_tree: "(\<And>h h'. f h = Inr h' \<Longrightarrow> slots_at S h' = slots_at S h) \<Longrightarrow> keeps_slots S (on_tree f)"
  by (auto simp: keeps_slots_def on_tree_def split: sum.split)

lemma keeps_slots_kind [slots_intros]: "keeps_slots S (upd_kind a f)"
  unfolding upd_kind_def upd_leaf_def
  by (rule keeps_slots_on_tree, erule slots_upd) (simp split: klass.split)

lemma keeps_slots_ticks [slots_intros]:
  "keeps_slots S (on_tree (register_for_tick d a))" "keeps_slots S (on_tree (unregister_for_tick d a))"
  unfolding register_for_tick_def unregister_for_tick_def
  by (rule keeps_slots_on_tree, erule slots_upd, simp split: klass.split)+

lemma keeps_slots_external [slots_intros]: "keeps_slots S (external_value g)"
  by (auto simp: external_value_def intro: slots_intros split: option.split)

lemma keeps_slots_value [slots_intros]: "keeps_slots S (param_value a)"
  unfolding param_value_def by (auto intro!: slots_intros split: kind.split)

lemma keeps_slots_generic [slots_intros]: "keeps_slots S (generic_value big a)"
proof -
  have "keeps_slots S (st_then (get_leaf a) (\<lambda>l. st_then (param_value a) (\<lambda>v w. (to_generic big (lhint l) (ltype l) v, w))))"
    by (intro slots_intros)
  then show ?thesis by (auto simp: keeps_slots_def generic_value_def split: sum.split)
qed

lemma keeps_slots_emit [slots_intros]: "keeps_slots S (emit S' big a v)"
  unfolding emit_def by (intro slots_intros) (simp add: keeps_slots_def split: option.split sum.split)

lemma keeps_slots_unobserve [slots_intros]: "keeps_slots S (unobserve_param a)"
proof -
  have "keeps_slots S (\<lambda>w. if b then (case get_object_dictionary (tree w) a of
      Inl e \<Rightarrow> (Inl e, w) | Inr None \<Rightarrow> (Inr (), w) | Inr (Some od) \<Rightarrow> on_tree (unregister_for_tick od a) w)
      else (Inr (), w))" for b
    using keeps_slots_ticks(2) [of S _ a] by (auto simp: keeps_slots_def split: sum.split option.split)
  then show ?thesis
    unfolding unobserve_param_def external_readonly_unobserve_def by (auto intro!: slots_intros split: kind.split)
qed

lemma keeps_slots_notify [slots_intros]: "keeps_slots S (notify_param S' big a)"
  by (auto simp: notify_param_def intro!: slots_intros split: kind.split)

lemma keeps_slots_tick [slots_intros]: "keeps_slots S (tick S' big d)"
proof -
  have "keeps_slots S (tick_list S' big as)" for as by (induction as) (auto intro!: slots_intros)
  then show ?thesis unfolding keeps_slots_def tick_def by blast
qed

lemma keeps_slots_readonly_set [slots_intros]: "keeps_slots S (managed_readonly_set S' big a v)"
  by (auto simp: managed_readonly_set_def intro!: slots_intros split: kind.split)

lemma keeps_slots_set [slots_intros]: "keeps_slots S (set_generic_value S' big a v)"
  by (auto simp: set_generic_value_def managed_readwrite_set_def external_readwrite_set_def writeonly_set_def verify_def
      intro!: slots_intros split: kind.split option.split sum.split)

lemma keeps_slots_signal [slots_intros]: "keeps_slots S (event_signal a)"
  by (auto simp: event_signal_def intro!: slots_intros split: kind.split option.split)

lemma slots_context [simp]:
  "slots_at S (tree (serving d c w)) = slots_at S (tree w)" "slots_at S (tree (served d w)) = slots_at S (tree w)"
proof -
  have "slots_at S (h(d := map_option (\<lambda>ob. ob\<lparr>klass := upd_context x (klass ob)\<rparr>) (h d))) = slots_at S h"
    for h :: "('b, 'a) leaf heap" and x
  proof
    fix a
    show "slots_at S (h(d := map_option (\<lambda>ob. ob\<lparr>klass := upd_context x (klass ob)\<rparr>) (h d))) a = slots_at S h a"
      by (cases "h d"; cases "klass (the (h d))") (auto simp: slots_at_def)
  qed
  then show "slots_at S (tree (serving d c w)) = slots_at S (tree w)" "slots_at S (tree (served d w)) = slots_at S (tree w)"
    by (simp_all add: serving_def served_def)
qed

lemma keeps_slots_context:
  assumes "keeps_slots S f" "keeps f" "idle d w"
  shows "slots_at S (tree (snd (with_context d c f w))) = slots_at S (tree w)"
  using assms(1) unfolding with_context_keeps [OF assms(2) idle_dom [OF assms(3)]] keeps_slots_def
  by (simp split: prod.split) (metis slots_context(1) snd_conv)


subsection \<open>Connecting and disconnecting\<close>

lemma slots_upd_signal:
  "slots_at S (tree (snd (upd_signal a f w))) =
     (case leaf_at w a of None \<Rightarrow> slots_at S (tree w)
      | Some l \<Rightarrow> (slots_at S (tree w))(a := sig_slots S (f (value_signal l))))"
proof (cases "leaf_at w a")
  case None
  then have "tree (snd (upd_signal a f w)) = tree w"
    by (auto simp: upd_signal_def upd_leaf_def on_tree_def modify_def leaf_at_def fun_upd_idem
        split: option.splits klass.splits)
  with None show ?thesis by simp
next
  case (Some l)
  then obtain ob where "tree w a = Some ob" by (auto simp: leaf_at_Some)
  then show ?thesis
    using upd_leaf_at [OF Some, of "\<lambda>l. l\<lparr>value_signal := f (value_signal l)\<rparr>"] Some
    by (auto simp: upd_signal_def slots_at_def set_leaf_def fun_eq_iff)
qed

lemma slots_leaf: "leaf_at w a = Some l \<Longrightarrow> slots_at S (tree w) a = sig_slots S (value_signal l)"
  by (auto simp: slots_at_def leaf_at_Some)

text \<open>\<open>f\<close> either connects the slot \<open>s\<close> to the signal of \<open>a\<close> with a fresh number, or changes no signal.\<close>

fun connected ::
  "slot \<Rightarrow> addr \<Rightarrow> (addr \<Rightarrow> (connection \<times> slot) list) \<Rightarrow> error + connection option \<Rightarrow> (addr \<Rightarrow> (connection \<times> slot) list) \<Rightarrow> bool"
  where
  "connected s a old (Inr (Some k)) new = (new = old(a := old a @ [(k, s)]) \<and> k \<notin> fst ` set (old a))"
| "connected s a old r new = (new = old)"

definition connects :: "'g signals \<Rightarrow> slot \<Rightarrow> addr \<Rightarrow> (('e, 'g) world, connection option) act \<Rightarrow> bool" where
  "connects S s a f \<longleftrightarrow> (\<forall>w. connected s a (slots_at S (tree w)) (fst (f w)) (slots_at S (tree (snd (f w)))))"

lemma connects_then:
  assumes "keeps_slots S f" "\<And>x. connects S s a (g x)"
  shows "connects S s a (st_then f g)"
  unfolding connects_def
proof
  fix w :: "('b, 'a) world"
  obtain r w1 where f: "f w = (r, w1)" by fastforce
  then have "slots_at S (tree w1) = slots_at S (tree w)" using assms(1) by (metis keeps_slots_def snd_conv)
  then show "connected s a (slots_at S (tree w)) (fst (st_then f g w)) (slots_at S (tree (snd (st_then f g w))))"
    using f assms(2) unfolding connects_def by (cases r) (simp, metis st_then_Inr)
qed

lemma keeps_slots_connects:
  "keeps_slots S f \<Longrightarrow> (\<And>w k. fst (f w) \<noteq> Inr (Some k)) \<Longrightarrow> connects S s a f"
  unfolding connects_def keeps_slots_def by (metis connected.elims(3) connected.simps)

lemma slots_disconnect:
  assumes "signals_ok S"
  shows "slots_at S (tree (disconnect S a k w)) = (slots_at S (tree w))(a := filter (\<lambda>p. fst p \<noteq> k) (slots_at S (tree w) a))"
proof (cases "leaf_at w a")
  case None
  then have "slots_at S (tree w) a = []"
    by (simp add: leaf_at_def slots_at_def split: option.splits klass.splits)
  with None show ?thesis by (simp add: disconnect_def slots_upd_signal fun_upd_idem)
next
  case (Some l)
  then show ?thesis
    using assms by (simp add: disconnect_def slots_upd_signal slots_leaf [OF Some] signals_ok_def)
qed

lemma connects_observable:
  assumes "signals_ok S"
  shows "connects S s a (observable_observe S big s a)"
  unfolding connects_def
proof
  fix w :: "('b, 'a) world"
  show "connected s a (slots_at S (tree w)) (fst (observable_observe S big s a w)) (slots_at S (tree (snd (observable_observe S big s a w))))"
  proof (cases "leaf_at w a")
    case None
    then show ?thesis
      by (auto simp: observable_observe_def get_leaf_def leaf_at_def st_then_def split: option.splits klass.splits)
  next
    case (Some l)
    obtain k g where conn: "sig_connect S s (value_signal l) = (k, g)" by fastforce
    note ok = signals_okD [OF assms conn]
    obtain r1 w1 where 1: "upd_signal a (\<lambda>_. g) w = (r1, w1)" by fastforce
    have r1: "r1 = Inr ()" using 1 upd_leaf_at [OF Some] by (simp add: upd_signal_def)
    have s1: "slots_at S (tree w1) = (slots_at S (tree w))(a := slots_at S (tree w) a @ [(k, s)])"
      using slots_upd_signal [of S a "\<lambda>_. g" w] 1 Some ok(2) slots_leaf [OF Some, of S] by simp
    have k: "k \<notin> fst ` set (slots_at S (tree w) a)" using ok(1) slots_leaf [OF Some, of S] by simp
    have keep: "keeps_slots S (st_then (param_value a) (emit S big a))" by (intro slots_intros)
    obtain r2 w2 where 2: "st_then (param_value a) (emit S big a) w1 = (r2, w2)" by fastforce
    have s2: "slots_at S (tree w2) = slots_at S (tree w1)" using keep 2 by (metis keeps_slots_def snd_conv)
    have f: "filter (\<lambda>p. fst p \<noteq> k) (slots_at S (tree w) a) = slots_at S (tree w) a"
      using k by (auto intro!: filter_True)
    have run: "observable_observe S big s a w = (case r2 of Inl e \<Rightarrow> (Inl e, disconnect S a k w2) | Inr _ \<Rightarrow> (Inr (Some k), w2))"
      using 1 r1 2 conn by (simp add: observable_observe_def get_leaf_at [OF Some] st_then_def split: sum.split)
    show ?thesis
      unfolding run using s1 s2 k f
      by (cases r2) (simp_all add: slots_disconnect [OF assms] fun_upd_idem)
  qed
qed

lemma connects_external:
  assumes "signals_ok S"
  shows "connects S s a (external_readonly_observe S big s a n :: (('e, 'g) world, connection option) act)"
proof -
  have k: "keeps_slots S (if n = 0 then on_tree (register_for_tick od a) else ret ())" for od
    by (auto intro: slots_intros)
  define F :: "addr \<Rightarrow> (('e, 'g) world, connection option) act" where "F = (\<lambda>od. st_then (upd_kind a (store_observations (n + 1))) (\<lambda>_.
          st_then (if n = 0 then on_tree (register_for_tick od a) else ret ()) (\<lambda>_.
          observable_observe S big s a)))"
  have "connects S s a (F od)" for od
    unfolding F_def by (rule connects_then [OF keeps_slots_kind], rule connects_then [OF k connects_observable [OF assms]])
  moreover have "external_readonly_observe S big s a n w = (case get_object_dictionary (tree w) a of
      Inl e \<Rightarrow> (Inl e, w) | Inr None \<Rightarrow> (Inr None, w) | Inr (Some od) \<Rightarrow> F od w)" for w
    unfolding external_readonly_observe_def F_def ..
  ultimately show ?thesis by (auto simp: connects_def split: sum.split option.split)
qed

lemma connects_param: "signals_ok S \<Longrightarrow> connects S s a (observe_param S big s a)"
  unfolding observe_param_def
  by (rule connects_then [OF keeps_slots_basic(4)])
    (auto intro!: connects_observable connects_external keeps_slots_connects slots_intros split: kind.split simp: throw_def)


subsection \<open>The connections of a client\<close>

text \<open>
  \<open>holds_links\<close>: the client holds exactly the connections that call its slot, each under the name of the
  parameter. \<open>foreign\<close> are the connections of everybody else.
\<close>

definition holds_links :: "'g signals \<Rightarrow> ('e, 'g) leaf heap \<Rightarrow> client \<Rightarrow> bool" where
  "holds_links S h c \<longleftrightarrow>
     (\<forall>a k. (k, cid c) \<in> set (slots_at S h a) \<longleftrightarrow> (\<exists>uri. observables c uri = Some (Some (a, k)))) \<and>
     (\<forall>uri a k. observables c uri = Some (Some (a, k)) \<longrightarrow> fq_name h a = Some uri)"

definition numbered :: "'g signals \<Rightarrow> ('e, 'g) leaf heap \<Rightarrow> bool" where
  "numbered S h \<longleftrightarrow> (\<forall>a. distinct (map fst (slots_at S h a)))"

definition foreign :: "slot \<Rightarrow> (connection \<times> slot) list \<Rightarrow> (connection \<times> slot) list" where
  "foreign s xs = filter (\<lambda>p. snd p \<noteq> s) xs"

definition keeps_links :: "'g signals \<Rightarrow> client \<times> ('e, 'g) world \<Rightarrow> client \<times> ('e, 'g) world \<Rightarrow> bool" where
  "keeps_links S cw cw' \<longleftrightarrow> cid (fst cw') = cid (fst cw) \<and>
     (numbered S (tree (snd cw)) \<and> holds_links S (tree (snd cw)) (fst cw) \<longrightarrow>
        numbered S (tree (snd cw')) \<and> holds_links S (tree (snd cw')) (fst cw') \<and>
        (\<forall>a. foreign (cid (fst cw)) (slots_at S (tree (snd cw')) a) = foreign (cid (fst cw)) (slots_at S (tree (snd cw)) a)))"

lemma keeps_links_trans: "keeps_links S cw cw1 \<Longrightarrow> keeps_links S cw1 cw2 \<Longrightarrow> keeps_links S cw cw2"
  by (auto simp: keeps_links_def)

lemma keeps_links_same:
  assumes "slots_at S (tree w') = slots_at S (tree w)" "outline (tree w') = outline (tree w)"
    "cid c' = cid c" "\<And>uri p. observables c' uri = Some (Some p) \<longleftrightarrow> observables c uri = Some (Some p)"
  shows "keeps_links S (c, w) (c', w')"
  using assms outline_fq_name [OF assms(2)] by (simp add: keeps_links_def holds_links_def numbered_def)

text \<open>A client connects: the name was free, the number is fresh.\<close>

lemma keeps_links_connect:
  assumes "connected (cid c) a (slots_at S (tree w)) (Inr conn) (slots_at S (tree w'))"
    and "outline (tree w') = outline (tree w)" and "fq_name (tree w) a = Some uri" and "observables c uri = None"
  shows "keeps_links S (c, w) (c\<lparr>observables := (observables c)(uri \<mapsto> map_option (\<lambda>k. (a, k)) conn)\<rparr>, w')"
proof (cases conn)
  case None
  then show ?thesis using assms by (intro keeps_links_same) auto
next
  case (Some k)
  then have new: "slots_at S (tree w') = (slots_at S (tree w))(a := slots_at S (tree w) a @ [(k, cid c)])"
    "k \<notin> fst ` set (slots_at S (tree w) a)" using assms(1) by simp_all
  have "holds_links S (tree w') (c\<lparr>observables := (observables c)(uri \<mapsto> Some (a, k))\<rparr>)" if l: "holds_links S (tree w) c"
    unfolding holds_links_def
  proof (intro conjI allI)
    fix b j
    show "((j, cid (c\<lparr>observables := (observables c)(uri \<mapsto> Some (a, k))\<rparr>)) \<in> set (slots_at S (tree w') b)) =
      (\<exists>uri'. observables (c\<lparr>observables := (observables c)(uri \<mapsto> Some (a, k))\<rparr>) uri' = Some (Some (b, j)))"
      using l assms(4) by (auto simp: holds_links_def new(1)) (metis option.distinct(1))+
  next
    fix uri' b j
    show "observables (c\<lparr>observables := (observables c)(uri \<mapsto> Some (a, k))\<rparr>) uri' = Some (Some (b, j)) \<longrightarrow>
      fq_name (tree w') b = Some uri'"
      using l assms(3) outline_fq_name [OF assms(2)] by (auto simp: holds_links_def)
  qed
  with Some new show ?thesis
    by (auto simp: keeps_links_def numbered_def foreign_def)
qed

text \<open>A client gives up a connection it holds.\<close>

lemma slots_drop:
  assumes "signals_ok S"
  shows "slots_at S (tree (drop_connection S conn w)) =
    (case conn of None \<Rightarrow> slots_at S (tree w)
     | Some (a, k) \<Rightarrow> (slots_at S (tree w))(a := filter (\<lambda>p. fst p \<noteq> k) (slots_at S (tree w) a)))"
  by (simp add: drop_connection_def slots_disconnect [OF assms] split: option.split)

lemma keeps_links_drop:
  assumes "signals_ok S" and "observables c uri = Some conn"
    and "slots_at S (tree w') = slots_at S (tree (drop_connection S conn w))" and "outline (tree w') = outline (tree w)"
  shows "keeps_links S (c, w) (c\<lparr>observables := (observables c)(uri := None)\<rparr>, w')"
proof (cases conn)
  case None
  then have "slots_at S (tree w') = slots_at S (tree w)" using assms(3) by (simp add: slots_drop [OF assms(1)])
  then show ?thesis using None assms(2,4) by (intro keeps_links_same) auto
next
  case (Some ak)
  obtain a k where ak: "ak = (a, k)" by fastforce
  have new: "slots_at S (tree w') = (slots_at S (tree w))(a := filter (\<lambda>p. fst p \<noteq> k) (slots_at S (tree w) a))"
    using assms(3) Some ak by (simp add: slots_drop [OF assms(1)])
  let ?c = "c\<lparr>observables := (observables c)(uri := None)\<rparr>"
  show ?thesis
    unfolding keeps_links_def fst_conv snd_conv
  proof (intro conjI impI allI)
    assume ok: "numbered S (tree w) \<and> holds_links S (tree w) c"
    have held: "(k, cid c) \<in> set (slots_at S (tree w) a)" "fq_name (tree w) a = Some uri"
      using ok assms(2) Some ak by (auto simp: holds_links_def)
    have only: "s = cid c" if "(k, s) \<in> set (slots_at S (tree w) a)" for s
      using that held(1) ok by (auto simp: numbered_def dest: eq_key_imp_eq_value)
    show "numbered S (tree w')" using ok by (auto simp: numbered_def new distinct_map_filter)
    show "holds_links S (tree w') ?c"
      unfolding holds_links_def
    proof (intro conjI allI)
      fix b j
      have "(\<exists>uri'. observables c uri' = Some (Some (b, j)) \<and> uri' \<noteq> uri) \<longleftrightarrow>
          (\<exists>uri'. observables c uri' = Some (Some (b, j))) \<and> (b, j) \<noteq> (a, k)"
      proof -
        have name: "fq_name (tree w) b = Some uri'" if "observables c uri' = Some (Some (b, j))" for uri'
          using that ok by (simp add: holds_links_def)
        have "observables c uri = Some (Some (a, k))" using assms(2) Some ak by simp
        with name held(2) show ?thesis by (metis Pair_inject option.inject)
      qed
      then show "((j, cid ?c) \<in> set (slots_at S (tree w') b)) = (\<exists>uri'. observables ?c uri' = Some (Some (b, j)))"
        using ok by (auto simp: holds_links_def new)
    next
      fix uri' b j
      show "observables ?c uri' = Some (Some (b, j)) \<longrightarrow> fq_name (tree w') b = Some uri'"
        using ok outline_fq_name [OF assms(4)] by (auto simp: holds_links_def)
    qed
    show "foreign (cid c) (slots_at S (tree w') b) = foreign (cid c) (slots_at S (tree w) b)" for b
      using only by (auto simp: foreign_def new intro!: filter_cong)
  qed simp
qed


subsection \<open>Sessions keep the connections\<close>

lemma keeps_links_refl: "keeps_links S cw cw"
  by (simp add: keeps_links_def)

lemma keeps_links_world:
  assumes "keeps_slots S f" "keeps f"
  shows "keeps_links S (c, w) (c, snd (f w))"
  using assms by (intro keeps_links_same) (simp_all add: keeps_slots_def keeps_def)

lemma keeps_links_context:
  assumes "keeps_slots S f" "keeps f" "idle d w"
  shows "keeps_links S (c, w) (c, snd (with_context d c f w))"
  using keeps_slots_context [OF assms] with_context_idle [OF assms(2,3)] by (intro keeps_links_same) simp_all

lemma cast_name_state: "snd (cast_object interface obj w) = w" "snd (name_of a w) = w"
  by (auto simp: cast_object_def get_object_def throw_def ret_def st_then_def name_of_def split: option.split sum.split)

lemma keeps_links_context_cw:
  assumes "keeps_cw f" "idle d w" "keeps_links S (c, serving d c w) (snd (f (c, serving d c w)))"
  shows "keeps_links S (c, w) (snd (with_context_cw d f (c, w)))"
proof -
  obtain r c' w' where f: "f (c, serving d c w) = (r, (c', w'))" by (metis surj_pair)
  have o: "outline (tree w') = outline (tree w)" using keeps_cw_D(1) [OF assms(1), of c "serving d c w"] f by simp
  have "keeps_links S (c, w) (c, serving d c w)" "keeps_links S (c', w') (c', served d w')"
    by (rule keeps_links_same; simp)+
  then show ?thesis
    using assms(3) f keeps_links_trans with_context_cw_at [of d w f c r c' w', OF assms(2) f o] by (metis snd_conv)
qed

lemma keeps_links_observe:
  assumes "signals_ok S" "idle d w"
  shows "keeps_links S (c, w) (snd (observe S big d obj (c, w)))"
  unfolding observe_def
proof (rule keeps_links_context_cw [OF keeps_cw_observe assms(2)])
  let ?g = "\<lambda>a uri (c, w). if observables c uri = None then
              st_then (on_world (observe_param S big (cid c) a)) (\<lambda>conn (c, w).
                (Inr (), (c\<lparr>observables := (observables c)(uri \<mapsto> map_option (\<lambda>k. (a, k)) conn)\<rparr>, w))) (c, w)
            else
              st_then (on_world (generic_value big a)) (\<lambda>g. on_world (deliver (cid c) uri g)) (c, w)"
  let ?w = "serving d c w"
  have g: "keeps_links S (c, ?w) (snd (?g a uri (c, ?w)))" if uri: "fq_name (tree ?w) a = Some uri" for a uri
  proof (cases "observables c uri")
    case None
    obtain r2 w2 where 2: "observe_param S big (cid c) a ?w = (r2, w2)" by fastforce
    have o: "outline (tree w2) = outline (tree ?w)" using keeps_observe_param 2 by (metis keeps_def snd_conv)
    have conn: "connected (cid c) a (slots_at S (tree ?w)) r2 (slots_at S (tree w2))"
      using connects_param [OF assms(1), of "cid c" a big] 2 by (metis connects_def fst_conv snd_conv)
    show ?thesis
    proof (cases r2)
      case (Inl e)
      with conn o have "keeps_links S (c, ?w) (c, w2)" by (intro keeps_links_same) simp_all
      with Inl None 2 show ?thesis by (simp add: st_then_def on_world_def)
    next
      case (Inr conn')
      with keeps_links_connect [OF conn [unfolded Inr] o uri None] None 2 show ?thesis
        by (simp add: st_then_def on_world_def)
    qed
  next
    case (Some x)
    have "keeps_slots S (st_then (generic_value big a) (\<lambda>g. deliver (cid c) uri g))" by (intro slots_intros)
    moreover have "keeps (st_then (generic_value big a) (\<lambda>g. deliver (cid c) uri g))"
      by (intro keeps_intros keeps_deliver)
    ultimately have "keeps_links S (c, ?w) (c, snd (st_then (generic_value big a) (\<lambda>g. deliver (cid c) uri g) ?w))"
      by (rule keeps_links_world)
    with Some show ?thesis by (auto simp: st_then_def on_world_def split: prod.splits sum.splits)
  qed
  have t: "keeps_links S (c, ?w) (snd (if effective_userlevel c > oreadlevel ob then (Inl (Runtime access_denied_error), (c, ?w))
      else st_then (on_world (name_of a)) (?g a) (c, ?w)))" for a ob
    using g [of a] keeps_links_refl [of S "(c, ?w)"] cast_name_state(2) [of a ?w]
    by (auto simp: st_then_def on_world_def name_of_def split: option.split)
  obtain r where r: "cast_object observe_interface obj ?w = (r, ?w)"
    using cast_name_state(1) [of observe_interface obj ?w] by (metis surjective_pairing)
  show "keeps_links S (c, ?w) (snd (st_then (on_world (cast_object observe_interface obj)) (\<lambda>(a, ob) (c, w).
        if effective_userlevel c > oreadlevel ob then (Inl (Runtime access_denied_error), (c, w))
        else st_then (on_world (name_of a)) (\<lambda>uri. ?g a uri) (c, w)) (c, ?w)))"
    using t keeps_links_refl [of S "(c, ?w)"] r
    by (cases r) (auto simp: st_then_def [of "on_world (cast_object observe_interface obj)"] on_world_def [of "cast_object observe_interface obj"])
qed


lemma keeps_links_unobserve:
  assumes "signals_ok S" "idle d w"
  shows "keeps_links S (c, w) (snd (unobserve S d obj (c, w)))"
  unfolding unobserve_def
proof (rule keeps_links_context_cw [OF keeps_cw_unobserve assms(2)])
  let ?w = "serving d c w"
  let ?g = "\<lambda>a uri (c, w). case observables c uri of
              None \<Rightarrow> (Inl (Runtime not_subscribed_error), (c, w))
            | Some conn \<Rightarrow>
                st_then (on_world (cast_object observe_interface (Some a))) (\<lambda>_ (c, w).
                  on_world (unobserve_param a)
                    (c\<lparr>observables := (observables c)(uri := None)\<rparr>, drop_connection S conn w)) (c, w)"
  have g: "keeps_links S (c, ?w) (snd (?g a uri (c, ?w)))" for a uri
  proof (cases "observables c uri")
    case None
    then show ?thesis using keeps_links_refl [of S "(c, ?w)"] by simp
  next
    case (Some conn)
    obtain r where r: "cast_object observe_interface (Some a) ?w = (r, ?w)"
      using cast_name_state(1) [of observe_interface "Some a" ?w] by (metis surjective_pairing)
    let ?c = "c\<lparr>observables := (observables c)(uri := None)\<rparr>"
    let ?w1 = "drop_connection S conn ?w"
    have "keeps_links S (c, ?w) (?c, snd (unobserve_param a ?w1))"
      by (intro keeps_links_drop [OF assms(1) Some])
        (simp_all add: keeps_slots_unobserve [unfolded keeps_slots_def, rule_format]
          keeps_unobserve_param [unfolded keeps_def, rule_format])
    then show ?thesis
      using Some r keeps_links_refl [of S "(c, ?w)"]
      by (cases r) (auto simp: st_then_def on_world_def split: prod.splits)
  qed
  show "keeps_links S (c, ?w) (snd ((case obj of None \<Rightarrow> throw Undefined
      | Some a \<Rightarrow> st_then (on_world (name_of a)) (\<lambda>uri. ?g a uri)) (c, ?w)))"
    using g keeps_links_refl [of S "(c, ?w)"]
    by (auto simp: st_then_def on_world_def name_of_def throw_def split: option.split)
qed

lemma keeps_slots_set_body:
  "keeps_slots S (if cul c = Readonly then throw (Runtime access_denied_error)
      else st_then (cast_object write_interface obj) (\<lambda>(a, ob).
           if cul c > owritelevel ob then throw (Runtime access_denied_error) else set_generic_value S' big a g))"
  "keeps_slots S (if cul c = Readonly then throw (Runtime access_denied_error)
      else st_then (cast_object event_interface obj) (\<lambda>(a, ob).
           if cul c > owritelevel ob then throw (Runtime access_denied_error) else event_signal a))"
  "keeps_slots S (st_then (cast_object read_interface obj) (\<lambda>(a, ob).
        if effective_userlevel c > oreadlevel ob then throw (Runtime access_denied_error) else generic_value big a))"
  by (auto intro!: slots_intros split: prod.split)

lemma session_step_links:
  assumes "signals_ok S"
  shows "session_step S big d A cw cw' \<Longrightarrow> idle d (snd cw) \<Longrightarrow> keeps_links S cw cw'"
proof (induction rule: session_step.induct)
  case (set c w obj g)
  then show ?case unfolding set_parameter_def by (intro keeps_links_context keeps_slots_set_body keeps_set_body) simp
next
  case (get c w obj)
  then show ?case unfolding get_parameter_def by (intro keeps_links_context keeps_slots_set_body keeps_set_body) simp
next
  case (signal c w obj)
  then show ?case unfolding signal_event_def by (intro keeps_links_context keeps_slots_set_body keeps_set_body) simp
next
  case (observe cw obj)
  then show ?case using keeps_links_observe [OF assms] by (cases cw) simp
next
  case (unobserve cw obj)
  then show ?case using keeps_links_unobserve [OF assms] by (cases cw) simp
next
  case (level c w ul)
  then show ?case by (auto simp: set_userlevel_def intro: keeps_links_same)
next
  case (tick c w)
  then show ?case unfolding client_tick_def by (intro keeps_links_world slots_intros keeps_intros)
next
  case (server c w a v)
  then show ?case by (intro keeps_links_world slots_intros keeps_intros)
next
  case (visit c w a)
  then show ?case by (intro keeps_links_world slots_intros keeps_intros)
next
  case (callback c w e)
  then show ?case by (intro keeps_links_same) simp_all
qed

text \<open>What a whole session keeps.\<close>

lemma session_keeps:
  assumes "signals_ok S"
  shows "session S big d A cw cw' \<Longrightarrow> idle d (snd cw) \<Longrightarrow> same_shape d cw cw' \<and> keeps_links S cw cw'"
proof (induction rule: session.induct)
  case begin_s
  then show ?case by (simp add: same_shape_def keeps_links_refl)
next
  case (step_s cw1 cw2)
  then have 1: "same_shape d cw cw1" "keeps_links S cw cw1" and i: "idle d (snd cw1)" by (auto simp: same_shape_def)
  have "same_shape d cw cw2" using 1(1) session_step_shape [OF step_s(2) i] by (auto simp: same_shape_def)
  then show ?case using keeps_links_trans [OF 1(2) session_step_links [OF assms step_s(2) i]] by simp
qed

subsection \<open>The end of a client\<close>

text \<open>The destructor of a client cuts its own connections, all of them, and no others.\<close>

lemma delete_client_slots:
  assumes "signals_ok S" "numbered S (tree w)" "holds_links S (tree w) c" "set uris = dom (observables c)"
  shows "slots_at S (tree (delete_client S c uris w)) a = foreign (cid c) (slots_at S (tree w) a)"
    and "outline (tree (delete_client S c uris w)) = outline (tree w)"
    and "idle d (delete_client S c uris w) = idle d w"
proof -
  define own where "own = (\<lambda>us a k. \<exists>uri\<in>set us. observables c uri = Some (Some (a, k)))"
  have "slots_at S (tree (delete_client S c us w)) a = filter (\<lambda>p. \<not> own us a (fst p)) (slots_at S (tree w) a) \<and>
      outline (tree (delete_client S c us w)) = outline (tree w) \<and> idle d (delete_client S c us w) = idle d w" for us a
  proof (induction us rule: rev_induct)
    case (snoc uri us)
    have step: "delete_client S c (us @ [uri]) w =
        (case observables c uri of None \<Rightarrow> delete_client S c us w | Some conn \<Rightarrow> drop_connection S conn (delete_client S c us w))"
      unfolding delete_client_def by simp
    have dict: "idle d (disconnect S b k x) = idle d x" for b k and x :: "('b, 'a) world"
      by (auto simp: disconnect_def upd_signal_def upd_leaf_def on_tree_def modify_def idle_def
          split: option.splits klass.splits)
    show ?case
    proof (cases "\<exists>b k. observables c uri = Some (Some (b, k))")
      case True
      then obtain b k where bk: "observables c uri = Some (Some (b, k))" by blast
      have "own (us @ [uri]) a j \<longleftrightarrow> own us a j \<or> a = b \<and> j = k" for j
        by (auto simp: own_def bk)
      then show ?thesis
        using snoc bk by (cases "a = b") (simp_all add: step slots_disconnect [OF assms(1)] drop_connection_def dict)
    next
      case False
      then have "own (us @ [uri]) a j \<longleftrightarrow> own us a j" for j by (auto simp: own_def)
      moreover have "delete_client S c (us @ [uri]) w = delete_client S c us w"
        unfolding step using False by (auto simp: drop_connection_def split: option.split)
      ultimately show ?thesis using snoc by simp
    qed
  qed (simp add: delete_client_def own_def)
  note all = this [of uris]
  have "own uris a k \<longleftrightarrow> s = cid c" if "(k, s) \<in> set (slots_at S (tree w) a)" for k s
  proof
    assume "own uris a k"
    then have "(k, cid c) \<in> set (slots_at S (tree w) a)" using assms(3) by (auto simp: own_def holds_links_def)
    with that assms(2) show "s = cid c" by (auto simp: numbered_def dest: eq_key_imp_eq_value)
  next
    assume "s = cid c"
    with that have "(k, cid c) \<in> set (slots_at S (tree w) a)" by simp
    then obtain uri where "observables c uri = Some (Some (a, k))" using assms(3) unfolding holds_links_def by blast
    then show "own uris a k" using assms(4) by (auto simp: own_def)
  qed
  then have "filter (\<lambda>p. \<not> own uris a (fst p)) (slots_at S (tree w) a) = foreign (cid c) (slots_at S (tree w) a)"
    unfolding foreign_def by (intro filter_cong) auto
  with all show "slots_at S (tree (delete_client S c uris w)) a = foreign (cid c) (slots_at S (tree w) a)"
    "outline (tree (delete_client S c uris w)) = outline (tree w)"
    "idle d (delete_client S c uris w) = idle d w" by simp_all
qed

end
