(* ===== verification/Protocol_Sessions.thy ===== *)
theory Protocol_Sessions
  imports Connections Pubsub_Context Scgi_Context "HOL-Library.Sublist"
begin

text \<open>
  Every protocol is a session: whatever a handler of one of the three connections
  (\<open>src/cli/clisrv_context.cpp\<close>, \<open>src/cli/pubsub_context.cpp\<close>, \<open>src/scgi/scgi_context.cpp\<close>) does to its
  client and to the world is a sequence of operations of \<open>client_context\<close>, getters and callbacks.
  What every session keeps, every handler keeps. The userlevels a handler leads to are those that
  the program's callback grants for a password sent over the connection.
\<close>

subsection \<open>Operations that amount to a session\<close>

text \<open>\<open>p\<close> projects the state an operation works on to the client and the world.\<close>

definition sessional ::
  "'g signals \<Rightarrow> bool \<Rightarrow> addr \<Rightarrow> (userlevel \<Rightarrow> bool) \<Rightarrow> ('s \<Rightarrow> client \<times> ('e, 'g) world) \<Rightarrow> ('s, 'a) act \<Rightarrow> bool" where
  "sessional S big d A p f \<longleftrightarrow> (\<forall>s. session S big d A (p s) (p (snd (f s))))"

named_theorems session_intros \<open>operations that amount to a session\<close>

lemma session_trans: "session S big d A cw1 cw2 \<Longrightarrow> session S big d A cw cw1 \<Longrightarrow> session S big d A cw cw2"
  by (induction rule: session.induct) (auto intro: session.intros)

lemma session_one: "session_step S big d A cw cw' \<Longrightarrow> session S big d A cw cw'"
  by (rule session.step_s [OF session.begin_s])

lemma sessionalD: "sessional S big d A p f \<Longrightarrow> f s = (r, s') \<Longrightarrow> session S big d A (p s) (p s')"
  unfolding sessional_def by (metis snd_conv)

lemma sessional_then_dep:
  assumes "sessional S big d A p f" "\<And>s x s'. f s = (Inr x, s') \<Longrightarrow> sessional S big d A p (g x)"
  shows "sessional S big d A p (st_then f g)"
  unfolding sessional_def
proof
  fix s
  obtain r s1 where f: "f s = (r, s1)" by fastforce
  note 1 = sessionalD [OF assms(1) f]
  show "session S big d A (p s) (p (snd (st_then f g s)))"
  proof (cases r)
    case (Inr x)
    have "session S big d A (p s1) (p (snd (g x s1)))" using assms(2) f Inr by (simp add: sessional_def)
    then show ?thesis using session_trans 1 f Inr by fastforce
  qed (use f 1 in simp)
qed

lemma sessional_then [session_intros]:
  "sessional S big d A p f \<Longrightarrow> (\<And>x. sessional S big d A p (g x)) \<Longrightarrow> sessional S big d A p (st_then f g)"
  by (rule sessional_then_dep)

lemma sessional_silent: "(\<And>s. p (snd (f s)) = p s) \<Longrightarrow> sessional S big d A p f"
  by (simp add: sessional_def session.begin_s)

lemma sessional_basic [session_intros]: "sessional S big d A p (ret x)" "sessional S big d A p (throw e)" "sessional S big d A p (\<lambda>s. (r, s))"
  by (simp_all add: sessional_silent ret_def throw_def)

lemma sessional_if [session_intros]: "sessional S big d A p f \<Longrightarrow> sessional S big d A p g \<Longrightarrow> sessional S big d A p (if b then f else g)"
  by simp

lemma sessional_each [session_intros]: "(\<And>x. sessional S big d A p (f x)) \<Longrightarrow> sessional S big d A p (each f xs)"
  by (induction xs) (auto intro: session_intros)

text \<open>Operations on the world, for whatever client.\<close>

definition world_sessional :: "'g signals \<Rightarrow> bool \<Rightarrow> addr \<Rightarrow> (userlevel \<Rightarrow> bool) \<Rightarrow> (client \<Rightarrow> (('e, 'g) world, 'a) act) \<Rightarrow> bool" where
  "world_sessional S big d A g \<longleftrightarrow> (\<forall>c w. session S big d A (c, w) (c, snd (g c w)))"

lemma world_sessional_client:
  "world_sessional S big d A (\<lambda>c. set_parameter S big d c obj v)" "world_sessional S big d A (\<lambda>c. get_parameter big d c obj)"
  "world_sessional S big d A (\<lambda>c. signal_event d c obj)"
  unfolding world_sessional_def by (auto intro: session_one session_step.intros)

lemma world_sessional_silent: "(\<And>c w. snd (g c w) = w) \<Longrightarrow> world_sessional S big d A g"
  by (simp add: world_sessional_def session.begin_s)

lemma world_sessional_handler: "world_sessional S big d A (\<lambda>c. run_handler (f c))"
  unfolding world_sessional_def run_handler_def by (auto intro: session_one session_step.callback split: prod.split)

lemma world_sessional_tell: "world_sessional S big d A (\<lambda>c. tell_request cb t request peer)"
  "world_sessional S big d A (\<lambda>c. tell_connection cb pubsub up peer)"
  using world_sessional_handler world_sessional_silent [of "\<lambda>c. ret ()"]
  by (auto simp: tell_request_def tell_connection_def ret_def split: option.split)

lemma world_sessional_find: "world_sessional S big d A (\<lambda>c. find_target E nm)"
  by (simp add: world_sessional_silent find_target_def)

lemmas world_sessional_intros = world_sessional_client world_sessional_handler world_sessional_tell world_sessional_find

lemma sessional_on_world: "world_sessional S big d A (\<lambda>c. f) \<Longrightarrow> sessional S big d A (\<lambda>cw. cw) (on_world f)"
  by (auto simp: sessional_def world_sessional_def on_world_def split: prod.split) (metis snd_conv)

lemma sessional_on_client: "A ul \<Longrightarrow> sessional S big d A (\<lambda>cw. cw) (on_client (set_userlevel ul))"
  by (auto simp: sessional_def on_client_def split: prod.split) (metis session_one session_step.level snd_conv)

lemma sessional_observe:
  "sessional S big d A (\<lambda>cw. cw) (observe S big d obj)" "sessional S big d A (\<lambda>cw. cw) (unobserve S d obj)"
  by (auto simp: sessional_def intro: session_one session_step.intros)

subsection \<open>Userlevels that are granted\<close>

text \<open>
  The program's callback grants the level for a password that occurs in what was sent, whoever asks
  and whatever state the program is in.
\<close>

definition granted :: "'e cli_callbacks \<Rightarrow> string \<Rightarrow> userlevel \<Rightarrow> bool" where
  "granted cb heard ul \<longleftrightarrow> (\<exists>c password e. sublist password heard \<and> fst (userlevel_cb cb c ul password e) = Inr True)"

lemma granted_mono: "granted cb s ul \<Longrightarrow> sublist s t \<Longrightarrow> granted cb t ul"
  unfolding granted_def using sublist_order.order.trans by blast

lemma trim_sublist: "sublist (trim_if P s) s"
proof -
  have "sublist (rev (dropWhile P (rev t))) t" for t by (simp add: sublist_rev_left)
  then show ?thesis
    unfolding trim_if_def using sublist_order.order.trans sublist_dropWhile by blast
qed

lemma word_sublist: "sublist (snd (read_word s)) s"
  unfolding read_word_def Let_def snd_conv using sublist_order.order.trans sublist_dropWhile by blast

lemma read_int_sublist: "sublist (fst (snd (read_int s))) s"
proof (cases "dropWhile is_space s = []")
  case False
  let ?t = "dropWhile is_space s"
  define u where "u = (if hd ?t = CHR ''-'' \<or> hd ?t = CHR ''+'' then tl ?t else ?t)"
  define ds where "ds = takeWhile is_digit u"
  define v where "v = (if hd ?t = CHR ''-'' then - int (read_digits ds) else int (read_digits ds))"
  have "sublist (tl ?t) s" "sublist ?t s" using sublist_order.order.trans sublist_dropWhile sublist_tl by blast+
  then have u: "sublist u s" by (simp add: u_def)
  then have "sublist (dropWhile is_digit u) s" using sublist_order.order.trans sublist_dropWhile by blast
  moreover have "read_int s = (if ds = [] then (0, u, False)
      else if v > INT_MAX then (INT_MAX, dropWhile is_digit u, False)
      else if v < INT_MIN then (INT_MIN, dropWhile is_digit u, False)
      else (v, dropWhile is_digit u, True))"
    unfolding read_int_def Let_def v_def ds_def u_def using False by (simp only: if_False)
  ultimately show ?thesis using u by simp
qed (simp add: read_int_def)

lemma password_sublist: "sublist (snd (read_userlevel s)) s"
proof -
  obtain n tail ok where r: "read_int s = (n, tail, ok)" by (metis surj_pair)
  let ?t = "takeWhile (\<lambda>c. c \<noteq> CHR 0x0A) (dropWhile is_space tail)"
  have "sublist ?t tail" by (rule sublist_order.order.trans [OF sublist_takeWhile sublist_dropWhile])
  moreover have "sublist tail s" using read_int_sublist [of s] by (simp add: r)
  ultimately have "sublist ?t s" by (rule sublist_order.order.trans)
  then have "sublist (if ok then ?t else []) s" by simp
  from sublist_order.order.trans [OF trim_sublist this] show ?thesis
    unfolding read_userlevel_def r prod.case snd_conv .
qed

lemma callback_grants:
  assumes "read_userlevel t = (ul, password)" "fst (userlevel_cb cb c ul password e) = Inr True" "sublist t s"
  shows "granted cb s ul"
  using assms password_sublist [of t] sublist_order.order.trans unfolding granted_def by (metis snd_conv)

subsection \<open>The request/response protocol of the command line\<close>

lemma sessional_on_fst: "sessional S big d A (\<lambda>cw. cw) f \<Longrightarrow> sessional S big d A fst (on_fst f)"
  unfolding sessional_def on_fst_def by (simp split: prod.split) (metis snd_conv)

lemma sessional_with_world: "world_sessional S big d A (\<lambda>c. f) \<Longrightarrow> sessional S big d A fst (with_world f)"
  unfolding with_world_def by (intro sessional_on_fst sessional_on_world)

lemma sessional_with_client: "world_sessional S big d A f \<Longrightarrow> sessional S big d A fst (with_client f)"
  by (auto simp: sessional_def world_sessional_def with_client_def on_fst_def on_world_def split: prod.split) (metis snd_conv)

lemma sessional_write_out: "sessional S big d A fst (write_out f)"
  by (rule sessional_silent) (simp add: write_out_def split: prod.split)

lemma sessional_from_result: "sessional S big d A p (from_result r)"
  by (simp add: sessional_silent from_result_def)

lemma sessional_print_userlevel: "sessional S big d A fst print_userlevel"
  by (rule sessional_silent) (simp add: print_userlevel_def write_out_def split: prod.split)

lemma sessional_change_ul:
  assumes "\<And>ul. granted (callbacks E) tail ul \<Longrightarrow> A ul"
  shows "sessional S big d A fst (change_ul E tail)"
proof -
  obtain ul pw where ul: "read_userlevel tail = (ul, pw)" by fastforce
  have "sessional S big d A fst (with_client (\<lambda>c. run_handler (userlevel_cb (callbacks E) c ul pw)))"
    by (intro sessional_with_client world_sessional_intros)
  moreover have "A ul" if "with_client (\<lambda>c. run_handler (userlevel_cb (callbacks E) c ul pw)) s = (Inr True, s')" for s s'
    using assms [OF callback_grants [OF ul]] that
    by (auto simp: with_client_def on_fst_def on_world_def run_handler_def split: prod.splits) (metis fst_conv sublist_order.order.refl)
  ultimately show ?thesis
    unfolding change_ul_def ul prod.case
    by (intro sessional_then_dep)
      (auto intro!: session_intros sessional_on_fst sessional_on_client sessional_print_userlevel sessional_write_out)
qed

text \<open>A traversal, with the client held fixed: getters run, nothing else happens.\<close>

lemma sessional_browse:
  assumes "\<And>a. sessional S big d A p (visit a)"
  shows "sessional S big d A p (browse n ul h visit obj)"
proof (induction n arbitrary: obj)
  case (Suc n)
  then show ?case
    by (auto intro!: session_intros assms split: option.split)
qed (simp add: session_intros)

lemma sessional_browse_visitor: "sessional S big d A (\<lambda>(w, out). (c, w)) (accept h (browse_visitor big it h) a)"
proof -
  let ?p = "\<lambda>(w, out). (c, w)"
  have out: "sessional S big d A ?p (write_out f)" for f
    by (rule sessional_silent) (simp add: write_out_def split: prod.split)
  have ind: "sessional S big d A ?p (print_indentation h b)" for b
    unfolding print_indentation_def by (auto intro!: session_intros out split: sum.split)
  have val: "sessional S big d A ?p (on_fst (generic_value big b))" for b
    by (auto simp: sessional_def on_fst_def split: prod.split) (metis session_one session_step.visit snd_conv)
  have "sessional S big d A ?p (browse_visit_object big it h b)" for b
    unfolding browse_visit_object_def by (auto intro!: session_intros out ind val split: option.split)
  moreover have "sessional S big d A ?p (browse_visit_node h b)" for b
    unfolding browse_visit_node_def by (auto intro!: session_intros out ind split: option.split)
  ultimately show ?thesis
    by (auto simp: accept_def browse_visitor_def default_visitor_def intro!: session_intros split: option.split visited.split)
qed

lemma sessional_tree_visitor: "sessional S big d A (\<lambda>(w, out). (c, w)) (accept h (tree_visitor h) a)"
proof -
  let ?p = "\<lambda>(w, out). (c, w)"
  have fqn: "sessional S big d A ?p (print_fq_name h b t)" for b t
    by (rule sessional_silent) (simp add: print_fq_name_def write_out_def throw_def split: prod.split option.split)
  then have "sessional S big d A ?p (write_param h t b)" for b t
    unfolding write_param_def by (auto intro!: session_intros split: option.split)
  with fqn show ?thesis
    by (auto simp: accept_def tree_visitor_def intro!: session_intros split: option.split visited.split)
qed


lemma sessional_discover:
  assumes "\<And>c h a. sessional S big d A (\<lambda>(w, out). (c, w)) (accept h (visitor h) a)"
  shows "sessional S big d A fst (discover E visitor nm)"
proof -
  have "world_sessional S big d A (\<lambda>c w.
         case browse_object (stack_depth E) c (tree w) (accept (tree w) (visitor (tree w))) obj (w, new_ostream []) of
           (Inl e, (w', temp)) \<Rightarrow> (Inl e, w')
         | (Inr u, (w', temp)) \<Rightarrow> (Inr (buf temp), w'))" for obj
    unfolding world_sessional_def
  proof (intro allI)
    fix c and w :: "('a, 'b) world"
    let ?f = "browse_object (stack_depth E) c (tree w) (accept (tree w) (visitor (tree w))) obj"
    have s: "sessional S big d A (\<lambda>(w, out). (c, w)) ?f"
      unfolding browse_object_def by (rule sessional_browse [OF assms])
    obtain r w' temp where "?f (w, new_ostream []) = (r, (w', temp))" by (metis surj_pair)
    with sessionalD [OF s this] show "session S big d A (c, w) (c, snd (case ?f (w, new_ostream []) of
           (Inl e, (w', temp)) \<Rightarrow> (Inl e, w') | (Inr u, (w', temp)) \<Rightarrow> (Inr (buf temp), w')))"
      by (cases r) simp_all
  qed
  then show ?thesis
    unfolding discover_def
    by (auto intro!: session_intros sessional_with_client sessional_with_world world_sessional_find sessional_write_out)
qed

lemma sessional_run_operation:
  "sessional (signals_of E) (big_endian E) (dict E) A fst (run_operation E request op nm v)"
  unfolding run_operation_def Let_def
  by (intro session_intros sessional_with_client sessional_with_world world_sessional_intros sessional_write_out
      sessional_print_userlevel sessional_discover sessional_browse_visitor sessional_tree_visitor)

lemma sessional_run_request:
  "sessional (signals_of E) (big_endian E) (dict E) (granted (callbacks E) trimmed) fst (run_request E request trimmed)"
proof -
  obtain op tail1 where 1: "read_word trimmed = (op, tail1)" by fastforce
  obtain nm tail where 2: "read_word tail1 = (nm, tail)" by fastforce
  have "sublist tail trimmed"
    using word_sublist [of trimmed] word_sublist [of tail1] unfolding 1 2 snd_conv by (rule sublist_order.order.trans [rotated])
  then have ul: "sessional S big d (granted (callbacks E) trimmed) fst (change_ul E tail)" for S big d
    by (intro sessional_change_ul) (rule granted_mono)
  show ?thesis
    unfolding run_request_def Let_def 1 2 prod.case
    by (intro session_intros ul sessional_run_operation sessional_from_result)
qed

lemma sessional_report: "sessional S big d A fst (report r)"
  unfolding report_def by (auto intro!: session_intros sessional_write_out split: sum.split error.split)

text \<open>A request changes the client and the world as a session does, whatever it says.\<close>

lemma sessional_process_request:
  "sessional (signals_of E) (big_endian E) (dict E) (granted (callbacks E) request) fst (process_request E request)"
  unfolding sessional_def
proof
  fix st :: "(client \<times> ('b, 'a) world) \<times> string"
  let ?S = "signals_of E" and ?A = "granted (callbacks E) request" and ?t = "trim_if is_bracket_or_space request"
  obtain cw out where st: "st = (cw, out)" by fastforce
  obtain r s1 where 1: "run_request E request ?t (cw, new_ostream out) = (r, s1)" by (metis surj_pair)
  have k: "sessional ?S (big_endian E) (dict E) ?A fst (st_then (report r) (\<lambda>_. write_out (Cli_Codec.put prompt)))"
    by (intro session_intros sessional_report sessional_write_out)
  obtain r' cw' out' where 2: "st_then (report r) (\<lambda>_. write_out (Cli_Codec.put prompt)) s1 = (r', (cw', out'))" by (metis surj_pair)
  have "session ?S (big_endian E) (dict E) ?A (fst (cw, new_ostream out)) (fst s1)"
    using sessionalD [OF sessional_run_request 1] by (rule session_mono) (rule granted_mono [OF _ trim_sublist])
  with session_trans [OF sessionalD [OF k 2]] have "session ?S (big_endian E) (dict E) ?A cw cw'" by fastforce
  then show "session ?S (big_endian E) (dict E) ?A (fst st) (fst (snd (process_request E request st)))"
    by (simp add: process_request_def Let_def st 1 2 session.begin_s)
qed

lemma session_disconnect_clisrv:
  "session (signals_of E) (big_endian E) (dict E) A (serves st) (serves (disconnect_clisrv E st))"
proof -
  have "sessional (signals_of E) (big_endian E) (dict E) A (\<lambda>cw. cw)
      (on_world (tell_connection (callbacks E) False False (remote_endpoint E)))"
    by (intro sessional_on_world world_sessional_tell)
  then show ?thesis
    by (auto simp: disconnect_clisrv_def dest: sessionalD split: prod.split sum.split)
qed

text \<open>What has been sent over the connection and not been dealt with yet.\<close>

definition clisrv_unread :: "('e, 'g) clisrv_context \<Rightarrow> string" where
  "clisrv_unread st = clisrv_context.inbuf st @ clisrv_context.wire st"

lemma session_clisrv_event:
  "session (signals_of E) (big_endian E) (dict E) (granted (callbacks E) (clisrv_unread st))
    (serves st) (serves (clisrv_event E ev st))"
proof -
  let ?A = "granted (callbacks E) (clisrv_unread st)"
  have rd: "session (signals_of E) (big_endian E) (dict E) ?A (serves st) (serves (read_handler E err n x))"
    if "serves x = serves st" "sublist (clisrv_context.inbuf x) (clisrv_unread st)" for err n x
  proof -
    have "sublist (take n (clisrv_context.inbuf x)) (clisrv_unread st)"
      using that(2) sublist_order.order.trans sublist_take by blast
    then have m: "granted (callbacks E) (take n (clisrv_context.inbuf x)) ul \<Longrightarrow> ?A ul" for ul
      using granted_mono by blast
    obtain r cw out where h: "process_request E (take n (clisrv_context.inbuf x)) (serves x, clisrv_context.outbuf x) = (r, (cw, out))"
      by (metis surj_pair)
    have "session (signals_of E) (big_endian E) (dict E) ?A (serves x) cw"
      using sessionalD [OF sessional_process_request h] by (intro session_mono [OF _ m]) simp
    then show ?thesis
      using session_disconnect_clisrv [of E ?A x] that h by (cases r) (simp_all add: read_handler_def)
  qed
  have wr: "session (signals_of E) (big_endian E) (dict E) ?A (serves st) (serves (write_handler E err x))"
    if "serves x = serves st" for err x
    using session_disconnect_clisrv [of E ?A x] that by (simp add: write_handler_def session.begin_s)
  have new: "sublist (clisrv_context.inbuf st @ take n (clisrv_context.wire st)) (clisrv_unread st)" for n
    unfolding clisrv_unread_def by (metis append.assoc append_take_drop_id sublist_append_rightI)
  show ?thesis
    by (cases ev) (simp_all add: rd wr new session.begin_s Let_def split: async_op.split)
qed


subsection \<open>The SCGI protocol\<close>

abbreviation scgi_sessional :: "('e, 'g) scgi_env \<Rightarrow> (('e, 'g) scgi_request, 'a) act \<Rightarrow> bool" where
  "scgi_sessional E \<equiv> sessional (slots_of E) (host_big E) (dictionary E) (\<lambda>ul. False) rserves"

lemma sessional_on_rserves:
  assumes "world_sessional S big d A f"
  shows "sessional S big d A rserves (on_rserves (\<lambda>(c, w). on_world (f c) (c, w)))"
  using assms by (auto simp: sessional_def world_sessional_def on_rserves_def on_world_def split: prod.split) (metis snd_conv)

lemma sessional_find_by_uri: "sessional S big d A rserves (find_by_uri E)"
  by (rule sessional_silent) (simp add: find_by_uri_def)

lemma sessional_send: "sessional S big d A rserves (send_response resp)"
  unfolding send_response_def by (rule sessional_from_result)

lemma sessional_at: "sessional S big d A p f \<Longrightarrow> p s' = p s \<Longrightarrow> session S big d A (p s) (p (snd (f s')))"
  unfolding sessional_def by metis

lemma sessional_get_request: "scgi_sessional E (handle_get_request E)"
proof -
  have xml: "scgi_sessional E
      (st_then (from_result r) (\<lambda>body_oss. send_response (with_content_type t body_oss)))" for r t
    by (intro session_intros sessional_from_result sessional_send)
  have val: "scgi_sessional E
      (st_then (find_by_uri E) (\<lambda>obj.
        st_then (on_rserves (\<lambda>(c, w). on_world (get_parameter (host_big E) (dictionary E) c obj) (c, w))) (\<lambda>v.
        send_response (with_content_type ''text/plain'' (js_value_encoder (host_big E) v)))))"
    by (intro session_intros sessional_find_by_uri sessional_on_rserves world_sessional_client sessional_send)
  show ?thesis
    unfolding sessional_def handle_get_request_def by (simp add: sessional_at [OF xml] sessional_at [OF val])
qed

lemma sessional_put_request: "scgi_sessional E (handle_put_request E)"
proof -
  have put: "scgi_sessional E
      (st_then (from_result r) (\<lambda>val.
         st_then (find_by_uri E) (\<lambda>obj.
         st_then (on_rserves (\<lambda>(c, w). on_world (set_parameter (slots_of E) (host_big E) (dictionary E) c obj val) (c, w))) (\<lambda>_.
         send_response (stock_response ok)))))" for r
    by (intro session_intros sessional_from_result sessional_find_by_uri sessional_on_rserves world_sessional_client sessional_send)
  show ?thesis
    unfolding sessional_def handle_put_request_def Let_def
    by (simp add: sessional_at [OF put])
qed

lemma sessional_post_request: "scgi_sessional E (handle_post_request E)"
  unfolding handle_post_request_def
  by (intro session_intros sessional_find_by_uri sessional_on_rserves world_sessional_client sessional_send)

lemma sessional_handle_request: "scgi_sessional E (handle_request E)"
proof -
  have "scgi_sessional E (header_at k)" for k
    by (rule sessional_silent) (simp add: header_at_def split: option.split)
  moreover have "scgi_sessional E (\<lambda>q.
       (let q1 = q\<lparr>remote_endpoint_name := nm\<rparr>; m = req_method (parser q1)
        in if m = method_type.get then handle_get_request E q1
           else if m = method_type.put then handle_put_request E q1
           else if m = method_type.post then handle_post_request E q1
           else throw (Runtime parse_error) q1))" for nm
    unfolding sessional_def Let_def
    by (simp add: throw_def session.begin_s sessional_at [OF sessional_get_request] sessional_at [OF sessional_put_request]
        sessional_at [OF sessional_post_request])
  ultimately show ?thesis unfolding handle_request_def by (intro session_intros)
qed

lemma sessional_answer_bytes:
  fixes E :: "('e, 'g) scgi_env"
  shows "scgi_sessional E (answer_bytes E bytes)"
proof -
  have go: "scgi_sessional E (st_then (handle_request E) (\<lambda>t. ret (Some t)))"
    by (intro session_intros sessional_handle_request)
  have "scgi_sessional E (process_bytes E bytes)"
    unfolding sessional_def
  proof
    fix q :: "('e, 'g) scgi_request"
    obtain res p where p: "request_parse (cast_size E) (split_type E) bytes None (parser q) = (res, p)" by fastforce
    show "session (slots_of E) (host_big E) (dictionary E) (\<lambda>ul. False) (rserves q) (rserves (snd (process_bytes E bytes q)))"
      by (simp add: sessional_at [OF go] process_bytes_def p throw_def ret_def session.begin_s Let_def split: option.split result_type.split)
  qed
  moreover have "rserves (snd (catch_errors (r, q))) = rserves q" for r q
    by (auto simp: catch_errors_def send_response_def from_result_def ret_def st_then_def split: sum.split option.split)
  ultimately show ?thesis unfolding sessional_def answer_bytes_def by (metis surjective_pairing)
qed

lemma session_scgi_event:
  "session (slots_of E) (host_big E) (dictionary E) (\<lambda>ul. False) (rserves (rq st)) (rserves (rq (scgi_event E ev st)))"
proof -
  have rd: "session (slots_of E) (host_big E) (dictionary E) (\<lambda>ul. False) (rserves (rq st)) (rserves (rq (scgi_read_handler E err n x)))"
    if "rq x = rq st" for err n x
    using sessional_answer_bytes [of E "take n (scgi_context.inbuf x)", unfolded sessional_def, rule_format, of "rq x"] that
    by (auto simp: scgi_read_handler_def scgi_preload_def disconnect_scgi_def session.begin_s
        split: prod.split sum.split option.split)
  have wr: "rq (scgi_write_handler err x) = rq x" for err x
    by (simp add: scgi_write_handler_def scgi_preload_def disconnect_scgi_def)
  show ?thesis
    by (cases ev) (simp_all add: rd wr session.begin_s Let_def split: async_op.split)
qed


subsection \<open>The publish/subscribe protocol\<close>

abbreviation pubsub_sessional :: "('e, 'g) pubsub_env \<Rightarrow> (userlevel \<Rightarrow> bool) \<Rightarrow> (('e, 'g) pubsub_context, 'a) act \<Rightarrow> bool" where
  "pubsub_sessional E A \<equiv> sessional (signals_of E) (big_endian E) (dict E) A pserves"

text \<open>Publishing changes the connection only.\<close>

lemma preload_writing_keeps:
  "pserves (snd (preload_writing E st)) = pserves st" "crashed (snd (preload_writing E st)) = crashed st"
  by (auto simp: preload_writing_def split: option.split prod.split sum.split)

lemma st_then_keeps:
  "F (snd (f st)) = F st \<Longrightarrow> (\<And>x st'. F (snd (g x st')) = F st') \<Longrightarrow> F (snd (st_then f g st)) = F st"
  by (auto simp: st_then_def split: prod.splits sum.splits)

lemma notify_keeps:
  "pserves (snd (notify E nm v st)) = pserves st" "crashed (snd (notify E nm v st)) = crashed st"
  unfolding notify_def
  by (intro st_then_keeps [where F = pserves] preload_writing_keeps;
      auto simp: root_name_def read_clock_def enqueue_def split: sum.split)
    (intro st_then_keeps [where F = crashed] preload_writing_keeps;
      auto simp: root_name_def read_clock_def enqueue_def split: sum.split)

lemma sessional_notify: "pubsub_sessional E A (notify E nm v)"
  by (rule sessional_silent) (rule notify_keeps(1))

lemma sessional_complain: "pubsub_sessional E A (complain E ec s)"
proof -
  have "pubsub_sessional E A (read_clock E)" "pubsub_sessional E A (say t)" "pubsub_sessional E A (preload_writing E)" for t
    by (rule sessional_silent, simp add: read_clock_def say_def preload_writing_keeps(1))+
  then show ?thesis unfolding complain_def by (intro session_intros)
qed

lemma sessional_on_serves: "sessional S big d A (\<lambda>cw. cw) f \<Longrightarrow> sessional S big d A pserves (on_serves f)"
  unfolding sessional_def [where p = pserves]
proof
  fix st :: "('b, 'a) pubsub_context"
  assume f: "sessional S big d A (\<lambda>cw. cw) f"
  obtain r cw where "f (pserves st) = (r, cw)" by (metis surj_pair)
  with sessionalD [OF f this] show "session S big d A (pserves st) (pserves (snd (on_serves f st)))"
    by (simp add: on_serves_def)
qed

lemma sessional_depends: "(\<And>x. sessional S big d A p (f x)) \<Longrightarrow> sessional S big d A p (\<lambda>s. f (g s) s)"
  by (simp add: sessional_def)

lemma sessional_observe_here:
  fixes E :: "('e, 'g) pubsub_env"
  shows "pubsub_sessional E A (observe_here E obj)"
  unfolding sessional_def
proof
  fix st :: "('e, 'g) pubsub_context"
  obtain c w r c' w' where o: "pserves st = (c, w)"
    "observe (signals_of E) (big_endian E) (dict E) obj (c, w) = (r, (c', w'))" by (metis surj_pair)
  have k: "pubsub_sessional E A (st_then (each (\<lambda>(s, u, v). notify E u v) ds) (\<lambda>_ st'. (r, st')))" for ds
    by (intro session_intros) (auto split: prod.split intro: sessional_notify)
  have 1: "session (signals_of E) (big_endian E) (dict E) A (c, w) (c', w')"
    using sessionalD [OF sessional_observe(1) o(2)] .
  have 2: "session (signals_of E) (big_endian E) (dict E) A (c', w')
      (pserves (snd (st_then (each (\<lambda>(s, u, v). notify E u v) ds) (\<lambda>_ st'. (r, st')) (st\<lparr>pserves := (c', w')\<rparr>))))" for ds
    using k [of ds, unfolded sessional_def, rule_format, of "st\<lparr>pserves := (c', w')\<rparr>"] by simp
  show "session (signals_of E) (big_endian E) (dict E) A (pserves st) (pserves (snd (observe_here E obj st)))"
    unfolding observe_here_def o using session_trans [OF 2 1] by (simp add: o)
qed

lemma sessional_ul_name: "pubsub_sessional E A (ul_name E)"
proof -
  have "pubsub_sessional E A (root_name E)" by (rule sessional_silent) (simp add: root_name_def)
  moreover have "pubsub_sessional E A (\<lambda>st. notify E nm (f st) st)" for nm f
    by (simp add: sessional_def notify_keeps(1) session.begin_s)
  ultimately show ?thesis unfolding ul_name_def by (intro session_intros)
qed

lemma sessional_pubsub_change_ul:
  assumes "\<And>ul. granted (callbacks E) tail ul \<Longrightarrow> A ul"
  shows "pubsub_sessional E A (pubsub_change_ul E tail)"
proof -
  obtain ul pw where ul: "read_userlevel tail = (ul, pw)" by fastforce
  let ?ask = "\<lambda>st. on_serves (on_world (run_handler (userlevel_cb (callbacks E) (fst (pserves st)) ul pw))) st"
  have "pubsub_sessional E A ?ask"
    by (rule sessional_depends, intro sessional_on_serves sessional_on_world world_sessional_handler)
  moreover have "A ul" if "?ask s = (Inr True, s')" for s s'
    using assms [OF callback_grants [OF ul]] that
    by (auto simp: on_serves_def on_world_def run_handler_def split: prod.splits) (metis fst_conv sublist_order.order.refl)
  ultimately show ?thesis
    unfolding pubsub_change_ul_def ul prod.case
    by (intro sessional_then_dep)
      (auto intro!: session_intros sessional_on_serves sessional_on_client sessional_ul_name)
qed

lemma sessional_run_pubsub: "pubsub_sessional E A (run_pubsub E request command nm)"
  unfolding run_pubsub_def Let_def
  by (intro session_intros sessional_on_serves sessional_on_world world_sessional_tell sessional_ul_name
      sessional_observe_here sessional_observe world_sessional_find)

lemma sessional_report_error: "pubsub_sessional E A (report_error E nm r)"
  unfolding report_error_def by (auto intro!: session_intros sessional_complain split: sum.split error.split)

lemma sessional_pubsub_request: "pubsub_sessional E (granted (callbacks E) request) (pubsub_process_request E request)"
proof -
  let ?A = "granted (callbacks E) request"
  have two: "pubsub_sessional E ?A (\<lambda>st. case f st of (r, st') \<Rightarrow> report_error E nm r st')"
    if f: "pubsub_sessional E ?A f" for f nm
    unfolding sessional_def
  proof
    fix st
    obtain r st' where 1: "f st = (r, st')" by fastforce
    obtain r2 st2 where 2: "report_error E nm r st' = (r2, st2)" by fastforce
    show "session (signals_of E) (big_endian E) (dict E) ?A (pserves st)
        (pserves (snd (case f st of (r, st') \<Rightarrow> report_error E nm r st')))"
      using session_trans [OF sessionalD [OF sessional_report_error 2] sessionalD [OF f 1]] by (simp add: 1 2)
  qed
  obtain command tail where w: "read_word (trim_if is_bracket_or_space request) = (command, tail)" by fastforce
  have "sublist tail request"
    using sublist_order.order.trans [OF word_sublist trim_sublist, of is_bracket_or_space request] unfolding w snd_conv .
  then have ul: "pubsub_sessional E ?A (pubsub_change_ul E tail)"
    by (intro sessional_pubsub_change_ul) (rule granted_mono)
  show ?thesis
    unfolding pubsub_process_request_def Let_def w prod.case
    using two [OF ul] two [OF sessional_run_pubsub]
    by (cases "command = ''change-ul''") simp_all
qed

lemma sessional_close: "pubsub_sessional E A (close E)"
proof -
  have "pubsub_sessional E A (\<lambda>st. (Inr (), st\<lparr>is_open := False\<rparr>))" by (rule sessional_silent) simp
  then show ?thesis
    unfolding close_def by (intro session_intros sessional_on_serves sessional_on_world world_sessional_tell)
qed

lemma session_pubsub_read:
  assumes "sublist (pinbuf st) text"
  shows "session (signals_of E) (big_endian E) (dict E) (granted (callbacks E) text) (pserves st)
    (pserves (snd (pubsub_read_handler E err n st)))"
proof (cases err)
  case False
  let ?A = "granted (callbacks E) text"
  obtain r st' where h: "pubsub_process_request E (take n (pinbuf st)) st = (r, st')" by fastforce
  have "sublist (take n (pinbuf st)) text" using assms sublist_order.order.trans sublist_take by blast
  then have "session (signals_of E) (big_endian E) (dict E) ?A (pserves st) (pserves st')"
    using session_mono [OF sessionalD [OF sessional_pubsub_request h]] granted_mono by metis
  then show ?thesis using False h by (cases r) (simp_all add: pubsub_read_handler_def pubsub_preload_def st_then_def)
qed (use sessional_close [of E, unfolded sessional_def] in \<open>simp add: pubsub_read_handler_def\<close>)

lemma crash_serves [simp]: "pserves (crash rst) = pserves (snd rst)"
  by (simp add: crash_def split: prod.split sum.split)

text \<open>The events of the socket amount to a session; a notification does nothing to client or world.\<close>

fun socket_only :: "('e, 'g) pubsub_event \<Rightarrow> bool" where
  "socket_only (Notified nm v) = False"
| "socket_only (Elsewhere w) = False"
| "socket_only ev = True"

definition pubsub_unread :: "('e, 'g) pubsub_context \<Rightarrow> string" where
  "pubsub_unread st = pinbuf st @ pwire st"

lemma session_pubsub_step:
  assumes "socket_only ev"
  shows "session (signals_of E) (big_endian E) (dict E) (granted (callbacks E) (pubsub_unread st))
    (pserves st) (pserves (pubsub_step E ev st))"
proof -
  let ?A = "granted (callbacks E) (pubsub_unread st)"
  have rd: "session (signals_of E) (big_endian E) (dict E) ?A (pserves st) (pserves (snd (pubsub_read_handler E err n x)))"
    if "sublist (pinbuf x) (pubsub_unread st)" "pserves x = pserves st" for err n x
    using session_pubsub_read [OF that(1)] that(2) by metis
  have wr: "pubsub_sessional E ?A (pubsub_write_handler E err)" for err
    using sessional_close [of E] preload_writing_keeps(1) [of E]
    by (simp add: sessional_def pubsub_write_handler_def session.begin_s)
  have new: "sublist (pinbuf st @ take n (pwire st)) (pubsub_unread st)" "sublist (pinbuf st) (pubsub_unread st)" for n
    unfolding pubsub_unread_def by (metis append.assoc append_take_drop_id sublist_append_rightI) simp
  show ?thesis
    using assms
    by (cases ev) (simp_all add: rd new sessional_at [OF wr] session.begin_s Let_def)
qed


subsection \<open>Protocols refine sessions\<close>



end
