(* ===== verification/Server.thy ===== *)
theory Server
  imports Protocol_Sessions
begin

text \<open>
  The program as a whole: the TCP servers that accept connections
  (\<open>include/decof/client_context/generic_tcp_server.h\<close>), the polling timer
  (\<open>src/asio_tick/asio_tick.cpp\<close>), the executor that runs the program's own work on the strand
  (\<open>src/asio_executor/asio_executor.cpp\<close>), and all connections, on one object tree. The strand runs
  one handler at a time, in any order the network decides: an execution is a list of events.

  A connection's own model holds a copy of the world; here the copy is refreshed before the
  connection runs, and read back after. What a handler delivers to the slots of other connections
  is handed to their \<open>notify\<close> when the handler is done: \<open>notify\<close> touches its own connection
  only and does not fail (\<open>notify_returns\<close>), so the moment makes no difference.
\<close>

subsection \<open>The executor\<close>

text \<open>What the program may have run: setting a parameter, or work of its own that may throw.\<close>

datatype 'e task = Set_managed addr cval | Compute "('e, unit) handler"

record 'e asio_executor =
  executor_closed :: bool
  strand :: "'e task list"

definition new_executor :: "'e asio_executor" where
  "new_executor = \<lparr>executor_closed = False, strand = []\<rparr>"

definition submit :: "'e task \<Rightarrow> ('e asio_executor, unit) act" where
  "submit callable x =
     (if executor_closed x then (Inl (Foreign ''sync_queue_is_closed''), x)
      else (Inr (), x\<lparr>strand := strand x @ [callable]\<rparr>))"

definition close_executor :: "'e asio_executor \<Rightarrow> 'e asio_executor" where
  "close_executor x = x\<lparr>executor_closed := True\<rparr>"

definition try_executing_one :: "'e asio_executor \<Rightarrow> bool" where
  "try_executing_one x = False"

subsection \<open>State\<close>

text \<open>
  \<open>peer_env\<close> gives the environment of the connection at an address, as its peer has a name of its own;
  \<open>own_slots\<close> are the slots of the program itself.
\<close>

record ('e, 'g) program =
  cli :: "('e, 'g) pubsub_env"
  scgi :: "('e, 'g) scgi_env"
  peer_name :: "addr \<Rightarrow> string"
  own_slots :: "addr list"

definition pubsub_env_at :: "('e, 'g) program \<Rightarrow> addr \<Rightarrow> ('e, 'g) pubsub_env" where
  "pubsub_env_at P a = (cli P)\<lparr>remote_endpoint := peer_name P a\<rparr>"

definition clisrv_env :: "('e, 'g) program \<Rightarrow> addr \<Rightarrow> ('e, 'g) cli_env" where
  "clisrv_env P a = cli_env.truncate (pubsub_env_at P a)"

datatype context_type = Clisrv | Pubsub | Scgi

datatype ('e, 'g) peer =
    Clisrv_peer "('e, 'g) clisrv_context"
  | Pubsub_peer "('e, 'g) pubsub_context"
  | Scgi_peer "('e, 'g) scgi_context"

record generic_tcp_server =
  context_type :: context_type
  server_userlevel :: userlevel
  acceptor_open :: bool
  accepting :: bool

record ('e, 'g) system =
  world :: "('e, 'g) world"
  peers :: "addr \<rightharpoonup> ('e, 'g) peer"
  servers :: "generic_tcp_server list"
  timer_armed :: bool
  executor :: "'e asio_executor"
  failure :: "error option"

fun client_of :: "('e, 'g) peer \<Rightarrow> client" where
  "client_of (Clisrv_peer st) = fst (serves st)"
| "client_of (Pubsub_peer st) = fst (pserves st)"
| "client_of (Scgi_peer st) = fst (rserves (rq st))"

fun world_of :: "('e, 'g) peer \<Rightarrow> ('e, 'g) world" where
  "world_of (Clisrv_peer st) = snd (serves st)"
| "world_of (Pubsub_peer st) = snd (pserves st)"
| "world_of (Scgi_peer st) = snd (rserves (rq st))"

text \<open>An exception that has left a handler of the connection.\<close>

fun peer_failure :: "('e, 'g) peer \<Rightarrow> error option" where
  "peer_failure (Clisrv_peer st) = (case clisrv_context.pending st of Crashed e \<Rightarrow> Some e | _ \<Rightarrow> None)"
| "peer_failure (Pubsub_peer st) = crashed st"
| "peer_failure (Scgi_peer st) = (case scgi_context.pending st of Crashed e \<Rightarrow> Some e | _ \<Rightarrow> None)"

fun closed_peer :: "('e, 'g) peer \<Rightarrow> bool" where
  "closed_peer (Clisrv_peer st) = (clisrv_context.pending st = Closed)"
| "closed_peer (Pubsub_peer st) = (\<not> is_open st)"
| "closed_peer (Scgi_peer st) = (scgi_context.pending st = Closed)"

subsection \<open>Notifications\<close>

definition route ::
  "('e, 'g) program \<Rightarrow> ('e, 'g) world \<Rightarrow> delivery \<Rightarrow> (addr \<rightharpoonup> ('e, 'g) peer) \<Rightarrow> (addr \<rightharpoonup> ('e, 'g) peer)" where
  "route P w del ps =
     (case del of (s, nm, v) \<Rightarrow>
       (case ps s of
          Some (Pubsub_peer st) \<Rightarrow>
            ps(s \<mapsto> Pubsub_peer (pubsub_step (pubsub_env_at P s) (Notified nm v) (st\<lparr>pserves := (fst (pserves st), w)\<rparr>)))
        | _ \<Rightarrow> ps))"

text \<open>What was delivered since the world was \<open>w\<close>, but for what a connection has seen to itself.\<close>

definition new_deliveries :: "addr option \<Rightarrow> ('e, 'g) world \<Rightarrow> ('e, 'g) world \<Rightarrow> delivery list" where
  "new_deliveries own w w' = filter (\<lambda>del. Some (fst del) \<noteq> own) (drop (length (deliveries w)) (deliveries w'))"

definition publish :: "('e, 'g) program \<Rightarrow> addr option \<Rightarrow> ('e, 'g) world \<Rightarrow> ('e, 'g) system \<Rightarrow> ('e, 'g) system" where
  "publish P own w' sys =
     sys\<lparr>world := w', peers := fold (route P w') (new_deliveries own (world sys) w') (peers sys)\<rparr>"

subsection \<open>Servers and timer\<close>

definition async_accept :: "generic_tcp_server \<Rightarrow> generic_tcp_server" where
  "async_accept srv = srv\<lparr>accepting := True\<rparr>"

definition preload_server :: "generic_tcp_server \<Rightarrow> generic_tcp_server" where
  "preload_server srv = async_accept srv"

text \<open>\<open>std::make_shared<Context>(strand_, std::move(socket_), object_dictionary_, userlevel_)\<close> and \<open>preload\<close>.\<close>

definition new_peer ::
  "('e, 'g) program \<Rightarrow> context_type \<Rightarrow> addr \<Rightarrow> userlevel \<Rightarrow> nat \<Rightarrow> ('e, 'g) world \<Rightarrow> error + ('e, 'g) peer" where
  "new_peer P t a ul send_buf_size w =
     (case t of
        Clisrv \<Rightarrow> map_sum id (\<lambda>st. Clisrv_peer (preload st)) (new_clisrv_context (clisrv_env P a) a ul w)
      | Pubsub \<Rightarrow> map_sum id (\<lambda>st. Pubsub_peer (pubsub_preload st)) (new_pubsub_context (pubsub_env_at P a) a ul send_buf_size w)
      | Scgi \<Rightarrow> Inr (Scgi_peer (scgi_preload (new_scgi_context (scgi P) a ul w))))"

definition accept_handler ::
  "('e, 'g) program \<Rightarrow> string option \<Rightarrow> addr \<Rightarrow> nat \<Rightarrow> generic_tcp_server \<Rightarrow> ('e, 'g) system \<Rightarrow>
   generic_tcp_server \<times> ('e, 'g) system" where
  "accept_handler P error a send_buf_size srv sys =
     (if \<not> acceptor_open srv then (srv, sys)
      else case error of
        None \<Rightarrow>
          (case new_peer P (context_type srv) a (server_userlevel srv) send_buf_size (world sys) of
             Inl e \<Rightarrow> (srv, sys\<lparr>failure := Some e\<rparr>)
           | Inr p \<Rightarrow> (async_accept srv, publish P (Some a) (world_of p) (sys\<lparr>peers := (peers sys)(a \<mapsto> p)\<rparr>)))
      | Some message \<Rightarrow>
          (srv, sys\<lparr>failure := Some (Foreign (''accept_handler received error: '' @ message))\<rparr>))"

definition preload_timer :: "('e, 'g) system \<Rightarrow> ('e, 'g) system" where
  "preload_timer sys = sys\<lparr>timer_armed := True\<rparr>"

definition tick_handler :: "('e, 'g) program \<Rightarrow> bool \<Rightarrow> ('e, 'g) system \<Rightarrow> ('e, 'g) system" where
  "tick_handler P operation_aborted sys =
     (if \<not> operation_aborted then
        (case client_tick (signals_of (cli P)) (big_endian (cli P)) (dict (cli P)) (world sys) of
           (Inl e, w') \<Rightarrow> (publish P None w' sys)\<lparr>failure := Some e\<rparr>
         | (Inr u, w') \<Rightarrow> preload_timer (publish P None w' sys))
      else sys)"

definition run_task :: "('e, 'g) program \<Rightarrow> 'e task \<Rightarrow> (('e, 'g) world, unit) act" where
  "run_task P callable =
     (case callable of
        Set_managed a v \<Rightarrow> managed_readonly_set (signals_of (cli P)) (big_endian (cli P)) a v
      | Compute f \<Rightarrow> run_handler f)"

subsection \<open>Events\<close>

text \<open>
  A connection is accepted at the address \<open>a\<close> of its context, nobody else's; the size of a socket's
  send buffer is positive. A released context is closed and destroyed with its observations; \<open>names\<close>
  lists them in the order of the map.
\<close>

datatype ('e, 'g) system_event =
    Accepted nat "string option" addr nat
  | Ticked bool
  | Clisrv_socket addr socket_event
  | Pubsub_socket addr "('e, 'g) pubsub_event"
  | Scgi_socket addr socket_event
  | Released addr "string list"
  | Submitted "'e task"
  | Executor_closed
  | Executed

definition run_peer :: "('e, 'g) program \<Rightarrow> addr \<Rightarrow> ('e, 'g) peer \<Rightarrow> ('e, 'g) system \<Rightarrow> ('e, 'g) system" where
  "run_peer P a p' sys =
     publish P (Some a) (world_of p') (sys\<lparr>peers := (peers sys)(a \<mapsto> p'), failure := peer_failure p'\<rparr>)"

fun handler_step :: "('e, 'g) program \<Rightarrow> ('e, 'g) system_event \<Rightarrow> ('e, 'g) system \<Rightarrow> ('e, 'g) system" where
  "handler_step P (Accepted n error a send_buf_size) sys =
     (if n < length (servers sys) \<and> accepting (servers sys ! n) \<and> peers sys a = None \<and>
         a \<notin> set (own_slots P) \<and> 0 < send_buf_size
      then case accept_handler P error a send_buf_size ((servers sys ! n)\<lparr>accepting := False\<rparr>) sys of
             (srv, sys') \<Rightarrow> sys'\<lparr>servers := (servers sys)[n := srv]\<rparr>
      else sys)"
| "handler_step P (Ticked operation_aborted) sys =
     (if timer_armed sys then tick_handler P operation_aborted (sys\<lparr>timer_armed := False\<rparr>) else sys)"
| "handler_step P (Clisrv_socket a ev) sys =
     (case peers sys a of
        Some (Clisrv_peer st) \<Rightarrow>
          run_peer P a (Clisrv_peer (clisrv_event (clisrv_env P a) ev (st\<lparr>serves := (fst (serves st), world sys)\<rparr>))) sys
      | _ \<Rightarrow> sys)"
| "handler_step P (Pubsub_socket a ev) sys =
     (case peers sys a of
        Some (Pubsub_peer st) \<Rightarrow>
          if socket_only ev
          then run_peer P a (Pubsub_peer (pubsub_step (pubsub_env_at P a) ev (st\<lparr>pserves := (fst (pserves st), world sys)\<rparr>))) sys
          else sys
      | _ \<Rightarrow> sys)"
| "handler_step P (Scgi_socket a ev) sys =
     (case peers sys a of
        Some (Scgi_peer st) \<Rightarrow>
          run_peer P a (Scgi_peer (scgi_event (scgi P) ev
            (st\<lparr>rq := (rq st)\<lparr>rserves := (fst (rserves (rq st)), world sys)\<rparr>\<rparr>))) sys
      | _ \<Rightarrow> sys)"
| "handler_step P (Released a names) sys = sys"
| "handler_step P (Submitted callable) sys = sys\<lparr>executor := snd (submit callable (executor sys))\<rparr>"
| "handler_step P Executor_closed sys = sys\<lparr>executor := close_executor (executor sys)\<rparr>"
| "handler_step P Executed sys =
     (case strand (executor sys) of
        [] \<Rightarrow> sys
      | callable # tasks \<Rightarrow>
          (case run_task P callable (world sys) of
             (r, w') \<Rightarrow> (publish P None w' (sys\<lparr>executor := (executor sys)\<lparr>strand := tasks\<rparr>\<rparr>))
               \<lparr>failure := (case r of Inl e \<Rightarrow> Some e | Inr u \<Rightarrow> None)\<rparr>))"

text \<open>The last reference to a closed context is gone: its destructor runs.\<close>

definition release :: "('e, 'g) program \<Rightarrow> addr \<Rightarrow> string list \<Rightarrow> ('e, 'g) system \<Rightarrow> ('e, 'g) system" where
  "release P a names sys =
     (case peers sys a of
        Some p \<Rightarrow>
          if closed_peer p \<and> set names = dom (observables (client_of p))
          then sys\<lparr>world := delete_client (signals_of (cli P)) (client_of p) names (world sys), peers := (peers sys)(a := None)\<rparr>
          else sys
      | None \<Rightarrow> sys)"

definition system_step :: "('e, 'g) program \<Rightarrow> ('e, 'g) system_event \<Rightarrow> ('e, 'g) system \<Rightarrow> ('e, 'g) system" where
  "system_step P ev sys = (case ev of Released a names \<Rightarrow> release P a names sys | _ \<Rightarrow> handler_step P ev sys)"

text \<open>An exception that leaves a handler ends the run of the event loop.\<close>

definition system_run ::
  "('e, 'g) program \<Rightarrow> ('e, 'g) system_event list \<Rightarrow> ('e, 'g) system \<Rightarrow> ('e, 'g) system" where
  "system_run P evs sys = fold (\<lambda>ev sys. if failure sys = None then system_step P ev sys else sys) evs sys"

definition new_system :: "('e, 'g) world \<Rightarrow> generic_tcp_server list \<Rightarrow> ('e, 'g) system" where
  "new_system w srvs = preload_timer
     \<lparr>world = w, peers = Map.empty, servers = map preload_server srvs, timer_armed = False,
      executor = new_executor, failure = None\<rparr>"

subsection \<open>Notifications leave the other connections sound\<close>

lemma notify_returns:
  assumes "queue_intact st" "tree (snd (pserves st)) (dict E) = Some ob"
  shows "\<exists>st'. notify E nm v st = (Inr (), st')"
proof -
  let ?st = "st\<lparr>readings := Suc (readings st)\<rparr>"
  have "queue_intact ?st" using assms(1) by (simp add: queue_intact_def)
  from keeps_queue_enqueue [OF this] obtain st1 where
    1: "enqueue (cut_root (oname ob) nm) v (clock E (readings st)) ?st = (Inr (), st1)" "queue_intact st1" by blast
  from preload_writing_writes_on [OF 1(2)] obtain st2 where "preload_writing E st1 = (Inr (), st2)" by blast
  with 1(1) assms(2) show ?thesis
    by (simp add: notify_def root_name_def read_clock_def deref_def st_then_def)
qed

text \<open>A publish/subscribe connection does not stall (\<open>writes_on\<close>); the others have no queue.\<close>

fun publishes_on :: "('e, 'g) peer \<Rightarrow> bool" where
  "publishes_on (Pubsub_peer st) = writes_on st"
| "publishes_on p = True"

definition same_peer :: "('e, 'g) peer \<Rightarrow> ('e, 'g) peer \<Rightarrow> bool" where
  "same_peer p p' \<longleftrightarrow> client_of p' = client_of p \<and>
     (publishes_on p \<longrightarrow> publishes_on p' \<and> peer_failure p' = peer_failure p)"

definition same_peers :: "(addr \<rightharpoonup> ('e, 'g) peer) \<Rightarrow> (addr \<rightharpoonup> ('e, 'g) peer) \<Rightarrow> bool" where
  "same_peers ps ps' \<longleftrightarrow> (\<forall>a. rel_option same_peer (ps a) (ps' a))"

lemma same_peer_refl: "same_peer p p"
  by (simp add: same_peer_def)

lemma same_peers_trans: "same_peers ps ps1 \<Longrightarrow> same_peers ps1 ps2 \<Longrightarrow> same_peers ps ps2"
proof -
  have "rel_option same_peer x y \<Longrightarrow> rel_option same_peer y z \<Longrightarrow> rel_option same_peer x z" for x y z
    by (cases x; cases y; cases z) (auto simp: same_peer_def)
  then show "same_peers ps ps1 \<Longrightarrow> same_peers ps1 ps2 \<Longrightarrow> same_peers ps ps2"
    unfolding same_peers_def by blast
qed

lemma same_peersD:
  "same_peers ps ps' \<Longrightarrow> ps' a = Some p' \<Longrightarrow> \<exists>p. ps a = Some p \<and> same_peer p p'"
  "same_peers ps ps' \<Longrightarrow> ps' a = None \<longleftrightarrow> ps a = None"
  unfolding same_peers_def by (metis option_rel_Some2, metis option_rel_Some1 option_rel_Some2 not_None_eq)

lemma env_dict [simp]: "dict (pubsub_env_at P a) = dict (cli P)"
  by (simp add: pubsub_env_at_def)

lemma route_same:
  assumes "tree w (dict (cli P)) = Some ob"
  shows "same_peers ps (route P w del ps)"
proof -
  obtain s nm v where del: "del = (s, nm, v)" by (cases del)
  show ?thesis
  proof (cases "\<exists>st. ps s = Some (Pubsub_peer st)")
    case False
    then have "route P w del ps = ps" by (auto simp: route_def del split: option.split peer.split)
    then show ?thesis by (simp add: same_peers_def option.rel_refl same_peer_refl)
  next
    case True
    then obtain st where st: "ps s = Some (Pubsub_peer st)" by blast
    let ?st = "st\<lparr>pserves := (fst (pserves st), w)\<rparr>"
    let ?E = "pubsub_env_at P s"
    obtain r st' where n: "notify ?E nm v ?st = (r, st')" by fastforce
    have k: "pserves st' = pserves ?st" "crashed st' = crashed st"
      using notify_keeps [of ?E nm v ?st] n by simp_all
    have "client_of (Pubsub_peer (crash (r, st'))) = client_of (Pubsub_peer st)" using k by (simp del: crash_serves add: crash_def split: sum.split)
    moreover have "writes_on (crash (r, st')) \<and> crashed (crash (r, st')) = crashed st" if "writes_on st"
    proof -
      have w: "writes_on ?st" using that by (simp add: writes_on_def queue_intact_def)
      have "tree (snd (pserves ?st)) (dict ?E) = Some ob" using assms by simp
      from notify_returns [OF writes_on_intact [OF w] this, of nm v] n have "r = Inr ()" by auto
      moreover have "writes_on st'" using keeps_queue_snd [OF keeps_queue_notify w] n by (metis snd_conv)
      ultimately show ?thesis using k(2) by (simp add: crash_def)
    qed
    ultimately have "same_peer (Pubsub_peer st) (Pubsub_peer (crash (r, st')))" by (simp add: same_peer_def)
    then show ?thesis
      using st n by (simp add: same_peers_def route_def del option.rel_refl same_peer_refl)
  qed
qed

lemma routes_same:
  assumes "tree w (dict (cli P)) = Some ob"
  shows "same_peers ps (fold (route P w) dels ps)"
proof (induction dels arbitrary: ps)
  case (Cons del dels)
  show ?case using same_peers_trans [OF route_same [OF assms] Cons] by simp
qed (simp add: same_peers_def option.rel_refl same_peer_refl)


subsection \<open>The invariant of the system\<close>

definition legal :: "userlevel \<Rightarrow> bool" where
  "legal ul \<longleftrightarrow> Minimum \<le> ul \<and> ul \<le> Maximum"

definition peer_ok :: "('e, 'g) program \<Rightarrow> ('e, 'g) world \<Rightarrow> addr \<Rightarrow> ('e, 'g) peer \<Rightarrow> bool" where
  "peer_ok P w a p \<longleftrightarrow> a \<notin> set (own_slots P) \<and> cid (client_of p) = a \<and> legal (cul (client_of p)) \<and>
     holds_links (signals_of (cli P)) (tree w) (client_of p) \<and> publishes_on p"

definition sound :: "('e, 'g) program \<Rightarrow> ('e, 'g) world \<Rightarrow> ('e, 'g) system \<Rightarrow> bool" where
  "sound P w0 sys \<longleftrightarrow>
     idle (dict (cli P)) (world sys) \<and> outline (tree (world sys)) = outline (tree w0) \<and>
     numbered (signals_of (cli P)) (tree (world sys)) \<and>
     (\<forall>a p. peers sys a = Some p \<longrightarrow> peer_ok P (world sys) a p \<and> (failure sys = None \<longrightarrow> peer_failure p = None)) \<and>
     (\<forall>b k s. (k, s) \<in> set (slots_at (signals_of (cli P)) (tree (world sys)) b) \<longrightarrow>
        peers sys s \<noteq> None \<or> s \<in> set (own_slots P)) \<and>
     (\<forall>srv\<in>set (servers sys). legal (server_userlevel srv))"

text \<open>The parts of the program share one dictionary and one kind of signals.\<close>

definition one_program :: "('e, 'g) program \<Rightarrow> bool" where
  "one_program P \<longleftrightarrow> signals_ok (signals_of (cli P)) \<and> slots_of (scgi P) = signals_of (cli P) \<and>
     host_big (scgi P) = big_endian (cli P) \<and> dictionary (scgi P) = dict (cli P)"

lemma sound_publish:
  assumes "sound P w0 (sys\<lparr>world := w'\<rparr>)"
  shows "sound P w0 (publish P own w' sys)"
proof -
  obtain ob where ob: "tree w' (dict (cli P)) = Some ob" using assms by (auto simp: sound_def idle_def)
  note same = routes_same [OF ob, of "peers sys" "new_deliveries own (world sys) w'"]
  have "peer_ok P w' a p' \<and> (failure sys = None \<longrightarrow> peer_failure p' = None)"
    if p': "fold (route P w') (new_deliveries own (world sys) w') (peers sys) a = Some p'" for a p'
  proof -
    obtain p where "peers sys a = Some p" "same_peer p p'" using same_peersD(1) [OF same p'] by blast
    then show ?thesis using assms by (auto simp: sound_def peer_ok_def same_peer_def)
  qed
  then show ?thesis
    using assms same_peersD(2) [OF same] by (auto simp: sound_def publish_def)
qed

text \<open>What touches no signal.\<close>

lemma holds_links_same:
  "slots_at S h' = slots_at S h \<Longrightarrow> outline h' = outline h \<Longrightarrow> holds_links S h' c = holds_links S h c"
  using outline_fq_name [of h' h] by (simp add: holds_links_def)

lemma sound_world:
  assumes "sound P w0 sys" "slots_at (signals_of (cli P)) (tree w') = slots_at (signals_of (cli P)) (tree (world sys))"
    "outline (tree w') = outline (tree (world sys))" "idle (dict (cli P)) w'"
  shows "sound P w0 (sys\<lparr>world := w'\<rparr>)"
  using assms holds_links_same [OF assms(2,3)] by (simp add: sound_def numbered_def peer_ok_def)

lemma sound_act:
  assumes "sound P w0 sys" "keeps_slots (signals_of (cli P)) f" "keeps f" "keeps_dict f"
  shows "sound P w0 (sys\<lparr>world := snd (f (world sys))\<rparr>)"
  using assms(2-4) by (intro sound_world [OF assms(1)])
    (use assms(1) in \<open>simp_all add: keeps_slots_def keeps_def keeps_dict_def sound_def\<close>)

text \<open>A client that is served changes no other client's connections.\<close>

lemma holds_links_other:
  assumes "\<And>b. foreign s (slots_at S h' b) = foreign s (slots_at S h b)" "outline h' = outline h" "cid c \<noteq> s"
  shows "holds_links S h' c = holds_links S h c"
proof -
  have "(k, cid c) \<in> set (foreign s xs) \<longleftrightarrow> (k, cid c) \<in> set xs" for k xs using assms(3) by (simp add: foreign_def)
  then have "(k, cid c) \<in> set (slots_at S h' b) \<longleftrightarrow> (k, cid c) \<in> set (slots_at S h b)" for k b
    using assms(1) [of b] by metis
  then show ?thesis using outline_fq_name [OF assms(2)] by (simp add: holds_links_def)
qed

lemma sound_run_peer:
  assumes "sound P w0 sys" "one_program P" "peers sys a = Some p" "failure sys = None"
    and "session (signals_of (cli P)) (big_endian (cli P)) (dict (cli P)) A (client_of p, world sys) (client_of p', world_of p')"
    and "publishes_on p'"
  shows "sound P w0 (run_peer P a p' sys)"
proof -
  let ?S = "signals_of (cli P)" and ?w = "world sys" and ?w' = "world_of p'"
  have S: "signals_ok ?S" using assms(2) by (simp add: one_program_def)
  have i: "idle (dict (cli P)) ?w" "outline (tree ?w) = outline (tree w0)" "numbered ?S (tree ?w)" and p: "peer_ok P ?w a p"
    using assms(1,3) by (simp_all add: sound_def)
  have k: "same_shape (dict (cli P)) (client_of p, ?w) (client_of p', ?w')" "keeps_links ?S (client_of p, ?w) (client_of p', ?w')"
    using session_keeps [OF S assms(5)] i(1) by simp_all
  then have i': "idle (dict (cli P)) ?w'" and o: "outline (tree ?w') = outline (tree ?w)"
    by (simp_all add: same_shape_def)
  have l: "legal (cul (client_of p'))" using k(1) p by (simp add: same_shape_def peer_ok_def legal_def)
  have a: "cid (client_of p) = a" using p by (simp add: peer_ok_def)
  have links: "numbered ?S (tree ?w')" "holds_links ?S (tree ?w') (client_of p')" "cid (client_of p') = a"
    "\<And>b. foreign a (slots_at ?S (tree ?w') b) = foreign a (slots_at ?S (tree ?w) b)"
    using k(2) i(3) p a by (auto simp: keeps_links_def peer_ok_def)
  have other: "peer_ok P ?w' b q" if "peers sys b = Some q" "b \<noteq> a" for b q
    using assms(1) that holds_links_other [OF links(4) o, of "client_of q"] by (auto simp: sound_def peer_ok_def)
  have self: "peer_ok P ?w' a p'" using p l links assms(6) by (simp add: peer_ok_def)
  have slot: "s = a \<or> peers sys s \<noteq> None \<or> s \<in> set (own_slots P)" if "(j, s) \<in> set (slots_at ?S (tree ?w') b)" for j s b
  proof (cases "s = a")
    case False
    with that have "(j, s) \<in> set (foreign a (slots_at ?S (tree ?w') b))" by (simp add: foreign_def)
    then have "(j, s) \<in> set (slots_at ?S (tree ?w) b)" unfolding links(4) by (simp add: foreign_def)
    then show ?thesis using assms(1) by (auto simp: sound_def)
  qed simp
  have "sound P w0 (sys\<lparr>peers := (peers sys)(a \<mapsto> p'), failure := peer_failure p', world := ?w'\<rparr>)"
    using assms(1,4) i' o i(2) links(1) other self by (auto simp: sound_def dest: slot)
  then show ?thesis unfolding run_peer_def by (intro sound_publish) simp
qed


lemma env_simps [simp]:
  "signals_of (pubsub_env_at P a) = signals_of (cli P)" "big_endian (pubsub_env_at P a) = big_endian (cli P)"
  "signals_of (clisrv_env P a) = signals_of (cli P)" "big_endian (clisrv_env P a) = big_endian (cli P)"
  "dict (clisrv_env P a) = dict (cli P)"
  by (simp_all add: pubsub_env_at_def clisrv_env_def cli_env.truncate_def)

lemma writes_on_serves [simp]: "writes_on (st\<lparr>pserves := cw\<rparr>) = writes_on st"
  by (simp add: writes_on_def queue_intact_def)

lemma sound_slot:
  "sound P w0 sys \<Longrightarrow> (k, s) \<in> set (slots_at (signals_of (cli P)) (tree (world sys)) b) \<Longrightarrow>
   peers sys s \<noteq> None \<or> s \<in> set (own_slots P)"
  unfolding sound_def by blast

text \<open>A new connection.\<close>

lemma told:
  assumes "tell_connection cb pubsub up peer w = (r, w')"
  shows "slots_at S (tree w') = slots_at S (tree w)" "outline (tree w') = outline (tree w)" "idle d w \<Longrightarrow> idle d w'"
proof -
  have "keeps_slots S (tell_connection cb pubsub up peer)" "keeps (tell_connection cb pubsub up peer)"
    "keeps_dict (tell_connection cb pubsub up peer)"
    unfolding tell_connection_def
    by (auto intro: slots_intros keeps_intros keeps_dict_intros split: option.split)
  then show "slots_at S (tree w') = slots_at S (tree w)" "outline (tree w') = outline (tree w)" "idle d w \<Longrightarrow> idle d w'"
    using assms unfolding keeps_slots_def keeps_def keeps_dict_def by (metis snd_conv)+
qed

lemma new_peer_ok:
  assumes "new_peer P t a ul n w = Inr p" "0 < n"
  shows "client_of p = new_client a ul \<and> publishes_on p \<and> peer_failure p = None \<and>
    slots_at S (tree (world_of p)) = slots_at S (tree w) \<and> outline (tree (world_of p)) = outline (tree w) \<and>
    (idle d w \<longrightarrow> idle d (world_of p))"
proof (cases t)
  case Clisrv
  with assms(1) obtain st where st: "new_clisrv_context (clisrv_env P a) a ul w = Inr st" "p = Clisrv_peer (preload st)"
    by (auto simp: new_peer_def map_sum_def split: sum.splits)
  then show ?thesis
    by (auto simp: new_clisrv_context_def preload_def told split: prod.splits sum.splits)
next
  case Pubsub
  with assms(1) obtain st where st: "new_pubsub_context (pubsub_env_at P a) a ul n w = Inr st" "p = Pubsub_peer (pubsub_preload st)"
    by (auto simp: new_peer_def map_sum_def split: sum.splits)
  then show ?thesis using new_writes_on [OF st(1) assms(2)]
    by (auto simp: new_pubsub_context_def pubsub_preload_def told split: prod.splits sum.splits)
next
  case Scgi
  then show ?thesis using assms(1) by (auto simp: new_peer_def scgi_preload_def new_scgi_context_def)
qed

lemma sound_accept:
  assumes "sound P w0 sys" "new_peer P t a ul n (world sys) = Inr p" "0 < n" "legal ul"
    and "peers sys a = None" "a \<notin> set (own_slots P)"
  shows "sound P w0 (publish P (Some a) (world_of p) (sys\<lparr>peers := (peers sys)(a \<mapsto> p)\<rparr>))"
proof -
  let ?S = "signals_of (cli P)"
  note p = new_peer_ok [OF assms(2,3), of ?S "dict (cli P)"]
  have "(k, a) \<notin> set (slots_at ?S (tree (world sys)) b)" for k b using sound_slot [OF assms(1)] assms(5,6) by blast
  then have "holds_links ?S (tree (world_of p)) (new_client a ul)"
    using p by (simp add: holds_links_def new_client_def)
  moreover have "cul (new_client a ul) = ul" "cid (new_client a ul) = a" by (simp_all add: new_client_def)
  ultimately have self: "peer_ok P (world_of p) a p" using p assms(4,6) by (simp add: peer_ok_def)
  have "sound P w0 (sys\<lparr>world := world_of p\<rparr>)"
    by (rule sound_world [OF assms(1)]) (use p assms(1) in \<open>simp_all add: sound_def\<close>)
  then have "sound P w0 (sys\<lparr>peers := (peers sys)(a \<mapsto> p), world := world_of p\<rparr>)"
    using self p by (auto simp: sound_def)
  then show ?thesis by (intro sound_publish) simp
qed

lemma sound_release:
  assumes "sound P w0 sys" "one_program P" "peers sys a = Some p" "set names = dom (observables (client_of p))"
  shows "sound P w0 (sys\<lparr>world := delete_client (signals_of (cli P)) (client_of p) names (world sys), peers := (peers sys)(a := None)\<rparr>)"
proof -
  let ?S = "signals_of (cli P)" and ?w = "world sys"
  let ?w' = "delete_client ?S (client_of p) names ?w"
  have p: "peer_ok P ?w a p" and n: "numbered ?S (tree ?w)" using assms(1,3) by (simp_all add: sound_def)
  then have a: "cid (client_of p) = a" by (simp add: peer_ok_def)
  note del = delete_client_slots [of ?S ?w "client_of p" names, OF _ n _ assms(4)]
  have slots: "slots_at ?S (tree ?w') b = foreign a (slots_at ?S (tree ?w) b)" for b
    using del(1) assms(2) p a by (simp add: one_program_def peer_ok_def)
  have o: "outline (tree ?w') = outline (tree ?w)" and i: "idle (dict (cli P)) ?w' = idle (dict (cli P)) ?w"
    using del(2,3) assms(2) p by (simp_all add: one_program_def peer_ok_def)
  have "foreign a (slots_at ?S (tree ?w') b) = foreign a (slots_at ?S (tree ?w) b)" for b
    by (simp add: slots foreign_def)
  then have other: "peer_ok P ?w' b q" if "peers sys b = Some q" "b \<noteq> a" for b q
    using assms(1) that holds_links_other [of a ?S "tree ?w'" "tree ?w" "client_of q"] o
    by (auto simp: sound_def peer_ok_def)
  have "numbered ?S (tree ?w')" using n by (auto simp: numbered_def slots foreign_def distinct_map_filter)
  moreover have "s \<noteq> a \<and> (peers sys s \<noteq> None \<or> s \<in> set (own_slots P))"
    if "(k, s) \<in> set (slots_at ?S (tree ?w') b)" for k s b
    using sound_slot [OF assms(1), of k s b] that by (simp add: slots foreign_def)
  ultimately show ?thesis
    using assms(1) i o other by (auto simp: sound_def)
qed

lemma sound_same:
  "sound P w0 (sys\<lparr>executor := x\<rparr>) = sound P w0 sys" "sound P w0 (sys\<lparr>timer_armed := b\<rparr>) = sound P w0 sys"
  "sound P w0 sys \<Longrightarrow> sound P w0 (sys\<lparr>failure := Some e\<rparr>)"
  by (simp_all add: sound_def)


lemma sound_peer: "sound P w0 sys \<Longrightarrow> peers sys a = Some p \<Longrightarrow> peer_ok P (world sys) a p"
  unfolding sound_def by blast

lemma sound_tick:
  assumes "sound P w0 sys"
  shows "sound P w0 (tick_handler P b sys)"
proof -
  let ?f = "client_tick (signals_of (cli P)) (big_endian (cli P)) (dict (cli P))"
  obtain r w' where t: "?f (world sys) = (r, w')" by fastforce
  have "sound P w0 (sys\<lparr>world := snd (?f (world sys))\<rparr>)"
    unfolding client_tick_def by (intro sound_act [OF assms] slots_intros keeps_intros keeps_dict_intros)
  then have "sound P w0 (publish P None w' sys)" using t by (intro sound_publish) simp
  then show ?thesis
    using assms t by (cases r) (simp_all add: tick_handler_def preload_timer_def sound_same)
qed

lemma sound_task:
  assumes "sound P w0 sys" "run_task P callable (world sys) = (r, w')"
  shows "sound P w0 (publish P None w' sys)"
proof -
  have "sound P w0 (sys\<lparr>world := snd (run_task P callable (world sys))\<rparr>)"
    unfolding run_task_def
    by (cases callable; simp; intro sound_act [OF assms(1)] slots_intros keeps_intros keeps_dict_intros)
  then show ?thesis using assms(2) by (intro sound_publish) simp
qed

lemma sound_servers:
  "sound P w0 sys \<Longrightarrow> \<forall>srv\<in>set srvs. legal (server_userlevel srv) \<Longrightarrow> sound P w0 (sys\<lparr>servers := srvs\<rparr>)"
  by (simp add: sound_def)

lemma handler_step_sound:
  assumes s: "sound P w0 sys" and P: "one_program P" and f: "failure sys = None"
  shows "sound P w0 (handler_step P ev sys)"
proof (cases ev)
  case (Accepted n error a m)
  let ?srv = "(servers sys ! n)\<lparr>accepting := False\<rparr>"
  show ?thesis
  proof (cases "n < length (servers sys) \<and> accepting (servers sys ! n) \<and> peers sys a = None \<and> a \<notin> set (own_slots P) \<and> 0 < m")
    case True
    then have l: "legal (server_userlevel ?srv)" using s by (simp add: sound_def)
    obtain srv sys' where h: "accept_handler P error a m ?srv sys = (srv, sys')" by fastforce
    have "sound P w0 sys' \<and> server_userlevel srv = server_userlevel ?srv"
      using h s sound_accept [OF s _ _ l] True
      by (auto simp: accept_handler_def async_accept_def sound_same split: if_splits option.splits sum.splits)
    moreover have "\<forall>x\<in>set ((servers sys)[n := srv]). legal (server_userlevel x)"
      if "server_userlevel srv = server_userlevel ?srv"
      using s that l set_update_subset_insert [of "servers sys" n srv] by (auto simp: sound_def)
    ultimately show ?thesis using True h Accepted by (simp add: sound_servers)
  qed (use s Accepted in auto)
next
  case (Ticked b)
  then show ?thesis using s by (simp add: sound_tick sound_same)
next
  case (Clisrv_socket a e)
  show ?thesis
  proof (cases "\<exists>st. peers sys a = Some (Clisrv_peer st)")
    case True
    then obtain st where st: "peers sys a = Some (Clisrv_peer st)" by blast
    show ?thesis
      using sound_run_peer [OF s P st f, where p' = "Clisrv_peer (clisrv_event (clisrv_env P a) e (st\<lparr>serves := (fst (serves st), world sys)\<rparr>))"]
        session_clisrv_event [of "clisrv_env P a" "st\<lparr>serves := (fst (serves st), world sys)\<rparr>" e]
      by (simp add: Clisrv_socket st)
  qed (use s Clisrv_socket in \<open>auto split: option.split peer.split\<close>)
next
  case (Pubsub_socket a e)
  show ?thesis
  proof (cases "\<exists>st. peers sys a = Some (Pubsub_peer st) \<and> socket_only e")
    case True
    then obtain st where st: "peers sys a = Some (Pubsub_peer st)" "socket_only e" by blast
    have "writes_on st" using sound_peer [OF s st(1)] by (simp add: peer_ok_def)
    then show ?thesis
      using sound_run_peer [OF s P st(1) f, where p' = "Pubsub_peer (pubsub_step (pubsub_env_at P a) e (st\<lparr>pserves := (fst (pserves st), world sys)\<rparr>))"]
        session_pubsub_step [OF st(2), of "pubsub_env_at P a" "st\<lparr>pserves := (fst (pserves st), world sys)\<rparr>"]
        step_writes_on [of "st\<lparr>pserves := (fst (pserves st), world sys)\<rparr>" "pubsub_env_at P a" e]
      by (simp add: Pubsub_socket st)
  qed (use s Pubsub_socket in \<open>auto split: option.split peer.split\<close>)
next
  case (Scgi_socket a e)
  show ?thesis
  proof (cases "\<exists>st. peers sys a = Some (Scgi_peer st)")
    case True
    then obtain st where st: "peers sys a = Some (Scgi_peer st)" by blast
    let ?st = "st\<lparr>rq := (rq st)\<lparr>rserves := (fst (rserves (rq st)), world sys)\<rparr>\<rparr>"
    show ?thesis
      using sound_run_peer [OF s P st f, where p' = "Scgi_peer (scgi_event (scgi P) e ?st)"]
        session_scgi_event [of "scgi P" ?st e] P
      by (simp add: Scgi_socket st one_program_def)
  qed (use s Scgi_socket in \<open>auto split: option.split peer.split\<close>)
next
  case (Released a names)
  then show ?thesis using s by simp
next
  case (Submitted callable)
  then show ?thesis using s by (simp add: sound_same)
next
  case Executor_closed
  then show ?thesis using s by (simp add: sound_same)
next
  case Executed
  show ?thesis
  proof (cases "strand (executor sys)")
    case (Cons callable tasks)
    let ?sys = "sys\<lparr>executor := (executor sys)\<lparr>strand := tasks\<rparr>\<rparr>"
    obtain r w' where t: "run_task P callable (world sys) = (r, w')" by fastforce
    have "sound P w0 (publish P None w' ?sys)"
      by (rule sound_task [of _ _ ?sys callable r]) (use s t in \<open>simp_all add: sound_same\<close>)
    moreover have "failure (publish P None w' ?sys) = None" using f by (simp add: publish_def)
    then have "(publish P None w' ?sys)\<lparr>failure := None\<rparr> = publish P None w' ?sys" by simp
    ultimately show ?thesis
      using Executed Cons t by (cases r) (simp_all add: sound_same)
  qed (use s Executed in simp)
qed

lemma system_step_sound:
  assumes "sound P w0 sys" "one_program P" "failure sys = None"
  shows "sound P w0 (system_step P ev sys)"
  using handler_step_sound [OF assms, of ev] assms(1) sound_release [OF assms(1,2)]
  by (cases ev) (auto simp: system_step_def release_def split: option.split)

lemma system_run_sound:
  "sound P w0 sys \<Longrightarrow> one_program P \<Longrightarrow> sound P w0 (system_run P evs sys)"
  unfolding system_run_def by (induction evs arbitrary: sys) (auto intro: system_step_sound)

text \<open>The program may have connected slots of its own before the first connection is accepted.\<close>

definition starts :: "('e, 'g) program \<Rightarrow> ('e, 'g) world \<Rightarrow> generic_tcp_server list \<Rightarrow> bool" where
  "starts P w srvs \<longleftrightarrow> idle (dict (cli P)) w \<and> numbered (signals_of (cli P)) (tree w) \<and>
     (\<forall>b p. p \<in> set (slots_at (signals_of (cli P)) (tree w) b) \<longrightarrow> snd p \<in> set (own_slots P)) \<and>
     (\<forall>srv\<in>set srvs. legal (server_userlevel srv))"

lemma new_system_sound: "starts P w srvs \<Longrightarrow> sound P w (new_system w srvs)"
  by (auto simp: starts_def sound_def new_system_def preload_timer_def preload_server_def async_accept_def)


subsection \<open>What always holds\<close>


text \<open>
  C3. The slots hold plain pointers to connections, yet no signal ever calls a connection that is gone:
  at any time, the connections made to the signal of a parameter (but for the program's own slots)
  are exactly those that a living client context holds in its map of observations.
\<close>

theorem no_dangling_slot:
  assumes "starts P w srvs" and "one_program P" and "sys = system_run P evs (new_system w srvs)"
  shows "(k, s) \<in> set (slots_at (signals_of (cli P)) (tree (world sys)) b) \<and> s \<notin> set (own_slots P) \<longleftrightarrow>
    (\<exists>p nm. peers sys s = Some p \<and> observables (client_of p) nm = Some (Some (b, k)))"
proof -
  have s: "sound P w sys" unfolding assms(3) by (rule system_run_sound [OF new_system_sound [OF assms(1)] assms(2)])
  show ?thesis
  proof (cases "peers sys s")
    case None
    then show ?thesis using sound_slot [OF s] by fastforce
  next
    case (Some p)
    with sound_peer [OF s] show ?thesis by (fastforce simp: peer_ok_def holds_links_def)
  qed
qed

text \<open>A program with one server of each kind, and what may happen in it.\<close>

definition sample_program :: "(nat, (connection \<times> slot) list) program" where
  "sample_program = \<lparr>cli = sample_pubsub_env, scgi = sample_scgi, peer_name = (\<lambda>a. ''peer''), own_slots = [7]\<rparr>"

definition sample_servers :: "generic_tcp_server list" where
  "sample_servers = map (\<lambda>t. \<lparr>context_type = t, server_userlevel = Normal, acceptor_open = True, accepting = False\<rparr>)
     [Clisrv, Pubsub, Scgi]"

definition sample_events :: "(nat, (connection \<times> slot) list) system_event list" where
  "sample_events =
     [Accepted 0 None 20 100, Accepted 1 None 21 100, Clisrv_socket 20 Written,
      Pubsub_socket 21 (PArrived (''add p'' @ [CHR 0x0A])), Pubsub_socket 21 (PReceived 9), Pubsub_socket 21 PWritten,
      Clisrv_socket 20 (Arrived (''set p 5'' @ [CHR 0x0A])), Clisrv_socket 20 (Received 99), Ticked False,
      Submitted (Set_managed 1 (VInt 9)), Executor_closed, Executed, Pubsub_socket 21 Read_failed, Released 21 [''root:p'']]"

lemma sample_starts: "starts sample_program (sample_world k) sample_servers" "one_program sample_program"
proof -
  show "starts sample_program (sample_world k) sample_servers"
    using sample_facts(1) [of k]
    by (auto simp: starts_def sample_program_def sample_pubsub_env_def sample_servers_def list_signals_def numbered_def
        slots_at_def sample_world_def sample_param_def legal_def userlevel_defs split: if_splits)
  show "one_program sample_program"
    using list_signals_ok
    by (simp add: one_program_def sample_program_def sample_pubsub_env_def sample_scgi_def)
qed


theorem no_dangling_slot_witness:
  "let sys = system_run sample_program sample_events (new_system (sample_world (Managed_readwrite (VInt 3) None)) sample_servers)
    in (1, 21) \<in> set (slots_at list_signals (tree (world sys)) 1) \<longleftrightarrow>
       (\<exists>p nm. peers sys 21 = Some p \<and> observables (client_of p) nm = Some (Some (1, 1)))"
  using no_dangling_slot [OF sample_starts(1) [of "Managed_readwrite (VInt 3) None"] sample_starts(2) refl, of 1 21 sample_events 1]
  by (simp add: sample_program_def sample_pubsub_env_def Let_def)

end
