(* ===== verification/Server_Levels.thy ===== *)
theory Server_Levels
  imports Server
begin

text \<open>
  Userlevels across the whole program (\<open>change_ul\<close> of \<open>src/cli/clisrv_context.cpp\<close> and
  \<open>src/cli/pubsub_context.cpp\<close>, the servers of
  \<open>include/decof/client_context/generic_tcp_server.h\<close>): the level of a connection is the one its
  server gives, or one the program's callback has granted for a password sent over that connection.
\<close>

subsection \<open>What a connection has received\<close>

text \<open>Requests, updates and answers leave the input of a publish/subscribe connection alone.\<close>

definition keeps_input :: "(('e, 'g) pubsub_context, 'a) act \<Rightarrow> bool" where
  "keeps_input f \<longleftrightarrow> (\<forall>st. pinbuf (snd (f st)) = pinbuf st \<and> pwire (snd (f st)) = pwire st)"

named_theorems input_intros \<open>operations that leave the input alone\<close>

lemma keeps_input_then [input_intros]:
  "keeps_input f \<Longrightarrow> (\<And>x. keeps_input (g x)) \<Longrightarrow> keeps_input (st_then f g)"
  unfolding keeps_input_def by (auto simp: st_then_def split: prod.splits sum.splits) (metis snd_conv)+

lemma keeps_input_basic [input_intros]:
  "keeps_input (ret x)" "keeps_input (throw e)" "keeps_input (\<lambda>st. (r, st))" "keeps_input (on_serves f)"
  "keeps_input (root_name E)" "keeps_input (read_clock E)" "keeps_input (say t)" "keeps_input (enqueue nm v now)"
  "keeps_input (preload_writing E)"
  by (auto simp: keeps_input_def ret_def throw_def on_serves_def root_name_def read_clock_def say_def enqueue_def
      preload_writing_def split: prod.split sum.split option.split)

lemma keeps_input_if [input_intros]: "keeps_input f \<Longrightarrow> keeps_input g \<Longrightarrow> keeps_input (if b then f else g)"
  by simp

lemma keeps_input_each [input_intros]: "(\<And>x. keeps_input (f x)) \<Longrightarrow> keeps_input (each f xs)"
  by (induction xs) (simp_all add: keeps_input_basic keeps_input_then)

lemma keeps_input_notify [input_intros]: "keeps_input (notify E nm v)"
  unfolding notify_def by (intro input_intros)

lemma keeps_input_ul_name [input_intros]: "keeps_input (ul_name E)"
proof -
  have "keeps_input (\<lambda>st. notify E n (f st) st)" for n f
    using keeps_input_notify [of E n] by (simp add: keeps_input_def)
  then show ?thesis unfolding ul_name_def by (intro keeps_input_then [OF keeps_input_basic(5)])
qed

lemma keeps_input_observe_here [input_intros]:
  fixes E :: "('e, 'g) pubsub_env"
  shows "keeps_input (observe_here E obj)"
  unfolding keeps_input_def
proof
  fix st :: "('e, 'g) pubsub_context"
  obtain c w r c' w' where o: "pserves st = (c, w)"
    "observe (signals_of E) (big_endian E) (dict E) obj (c, w) = (r, (c', w'))" by (metis surj_pair)
  have "keeps_input (case x of (s, u, v) \<Rightarrow> notify E u v)" for x :: delivery
    by (cases x) (simp add: keeps_input_notify)
  note one = this
  have "keeps_input (st_then (each (\<lambda>(s, u, v). notify E u v) ds) (\<lambda>_ st'. (r, st')))" for ds :: "delivery list"
    by (rule keeps_input_then [OF keeps_input_each [OF one] keeps_input_basic(3)])
  from this [unfolded keeps_input_def, rule_format, of _ "st\<lparr>pserves := (c', w')\<rparr>"]
  show "pinbuf (snd (observe_here E obj st)) = pinbuf st \<and> pwire (snd (observe_here E obj st)) = pwire st"
    unfolding observe_here_def o by (simp add: o)
qed

lemma keeps_input_change_ul [input_intros]: "keeps_input (pubsub_change_ul E tail)"
proof -
  have "keeps_input (\<lambda>st. on_serves (f st) st)" for f :: "_ \<Rightarrow> (_, bool) act"
    by (simp add: keeps_input_def on_serves_def split: prod.split)
  then show ?thesis
    unfolding pubsub_change_ul_def by (cases "read_userlevel tail") (simp, intro input_intros)
qed

lemma keeps_input_run [input_intros]: "keeps_input (run_pubsub E request command nm)"
  unfolding run_pubsub_def Let_def by (intro input_intros)

lemma keeps_input_report [input_intros]: "keeps_input (report_error E nm r)"
  unfolding report_error_def complain_def by (cases r) (auto split: error.split intro!: input_intros)

lemma keeps_input_request: "keeps_input (pubsub_process_request E request)"
proof -
  have two: "keeps_input (\<lambda>st. case f st of (r, st') \<Rightarrow> report_error E nm r st')" if "keeps_input f" for f nm
    using that keeps_input_report [of E nm] unfolding keeps_input_def by (simp split: prod.split) (metis snd_conv)
  show ?thesis
    unfolding pubsub_process_request_def Let_def
    using two [OF keeps_input_change_ul] two [OF keeps_input_run]
    by (cases "read_word (trim_if is_bracket_or_space request)";
        cases "fst (read_word (trim_if is_bracket_or_space request)) = ''change-ul''") simp_all
qed

lemma keeps_input_close [input_intros]: "keeps_input (close E)"
proof -
  have "keeps_input (\<lambda>st. (Inr (), st\<lparr>is_open := False\<rparr>))" by (simp add: keeps_input_def)
  then show ?thesis unfolding close_def by (intro input_intros)
qed

lemma crash_unread [simp]: "pubsub_unread (crash rst) = pubsub_unread (snd rst)"
  by (auto simp: crash_def pubsub_unread_def split: prod.split sum.split)

lemma keeps_input_unread: "keeps_input f \<Longrightarrow> pubsub_unread (snd (f st)) = pubsub_unread st"
  by (simp add: keeps_input_def pubsub_unread_def)

text \<open>Handlers only ever take from the front of what has been sent.\<close>

lemma clisrv_unread_event:
  "suffix (clisrv_unread (clisrv_event E ev st)) (clisrv_unread st @ (case ev of Arrived s \<Rightarrow> s | _ \<Rightarrow> []))"
proof -
  have dis: "clisrv_unread (disconnect_clisrv E x) = clisrv_unread x" for x
    by (auto simp: disconnect_clisrv_def clisrv_unread_def split: prod.split sum.split)
  have rd: "suffix (clisrv_unread (read_handler E err n x)) (clisrv_unread st)" if "clisrv_unread x = clisrv_unread st" for err n x
  proof -
    have "suffix (drop n (clisrv_context.inbuf x) @ clisrv_context.wire x) (clisrv_unread st)"
      unfolding that [symmetric] by (simp add: clisrv_unread_def suffix_drop)
    moreover have "suffix (clisrv_context.inbuf x @ clisrv_context.wire x) (clisrv_unread st)"
      unfolding that [symmetric] by (simp add: clisrv_unread_def)
    moreover have "clisrv_unread (x\<lparr>serves := cw, clisrv_context.outbuf := out, clisrv_context.pending := p\<rparr>) =
        clisrv_context.inbuf x @ clisrv_context.wire x" for cw out p
      by (simp add: clisrv_unread_def)
    ultimately show ?thesis
      using dis [of x] that by (simp add: read_handler_def split: prod.split sum.split) (simp add: clisrv_unread_def)
  qed
  have wr: "clisrv_unread (write_handler E err x) = clisrv_unread x" for err x
    using dis [of x] by (simp add: write_handler_def clisrv_unread_def)
  have "clisrv_unread (st\<lparr>clisrv_context.inbuf := clisrv_context.inbuf st @ take n (clisrv_context.wire st),
      clisrv_context.wire := drop n (clisrv_context.wire st)\<rparr>) = clisrv_unread st" for n
    by (simp add: clisrv_unread_def)
  note rd = rd [OF this]
  show ?thesis
    by (cases ev) (auto simp: wr rd Let_def split: async_op.split, auto simp: clisrv_unread_def)
qed

lemma pubsub_unread_read:
  "suffix (pubsub_unread (snd (pubsub_read_handler E err n st))) (pubsub_unread st)"
proof (cases err)
  case False
  obtain r st' where h: "pubsub_process_request E (take n (pinbuf st)) st = (r, st')" by fastforce
  with keeps_input_request [of E "take n (pinbuf st)"] have "pinbuf st' = pinbuf st" "pwire st' = pwire st"
    unfolding keeps_input_def by (metis snd_conv)+
  then show ?thesis
    using False h by (cases r) (simp_all add: pubsub_read_handler_def pubsub_preload_def st_then_def pubsub_unread_def suffix_drop)
qed (simp add: pubsub_read_handler_def keeps_input_unread [OF keeps_input_close])

lemma pubsub_unread_step:
  assumes "socket_only ev"
  shows "suffix (pubsub_unread (pubsub_step E ev st)) (pubsub_unread st @ (case ev of PArrived s \<Rightarrow> s | _ \<Rightarrow> []))"
proof -
  have "keeps_input (pubsub_write_handler E err)" for err
    using keeps_input_close [of E] keeps_input_basic(9) [of E] by (simp add: keeps_input_def pubsub_write_handler_def)
  note wr = keeps_input_unread [OF this]
  have same: "pubsub_unread (st\<lparr>pinbuf := pinbuf st @ take n (pwire st), pwire := drop n (pwire st)\<rparr>) = pubsub_unread st"
    "pubsub_unread (x\<lparr>reading := b\<rparr>) = pubsub_unread x"
    "pubsub_unread (x\<lparr>psent := s, poutbuf := t, in_flight := n\<rparr>) = pubsub_unread x" for n x b s t
    by (simp_all add: pubsub_unread_def)
  have rd: "suffix (pubsub_unread (snd (pubsub_read_handler E err n x))) (pubsub_unread st)"
    if "pubsub_unread x = pubsub_unread st" for err n x
    using pubsub_unread_read [of E err n x] that by simp
  show ?thesis
    using assms by (cases ev) (auto simp: wr same rd Let_def, auto simp: pubsub_unread_def)
qed


subsection \<open>Whose level it is\<close>

fun unread :: "('e, 'g) peer \<Rightarrow> string" where
  "unread (Clisrv_peer st) = clisrv_unread st"
| "unread (Pubsub_peer st) = pubsub_unread st"
| "unread (Scgi_peer st) = []"

fun type_of_peer :: "('e, 'g) peer \<Rightarrow> context_type" where
  "type_of_peer (Clisrv_peer st) = Clisrv"
| "type_of_peer (Pubsub_peer st) = Pubsub"
| "type_of_peer (Scgi_peer st) = Scgi"

text \<open>What comes over the connections at an address, in a run; nothing comes over a connection that does not exist.\<close>

fun delivered :: "addr \<Rightarrow> ('e, 'g) system_event \<Rightarrow> ('e, 'g) peer option \<Rightarrow> string" where
  "delivered a (Clisrv_socket b (Arrived s)) (Some (Clisrv_peer st)) = (if b = a then s else [])"
| "delivered a (Pubsub_socket b (PArrived s)) (Some (Pubsub_peer st)) = (if b = a then s else [])"
| "delivered a ev p = []"

fun heard :: "('e, 'g) program \<Rightarrow> addr \<Rightarrow> ('e, 'g) system_event list \<Rightarrow> ('e, 'g) system \<Rightarrow> string" where
  "heard P a [] sys = []"
| "heard P a (ev # evs) sys =
     (if failure sys = None then delivered a ev (peers sys a) @ heard P a evs (system_step P ev sys) else [])"

text \<open>A server of the connection's protocol gives its level.\<close>

definition server_gives :: "generic_tcp_server list \<Rightarrow> ('e, 'g) peer \<Rightarrow> bool" where
  "server_gives srvs p \<longleftrightarrow> (\<exists>srv\<in>set srvs. context_type srv = type_of_peer p \<and> server_userlevel srv = cul (client_of p))"

definition entitled :: "('e, 'g) program \<Rightarrow> generic_tcp_server list \<Rightarrow> string \<Rightarrow> ('e, 'g) peer \<Rightarrow> bool" where
  "entitled P srvs text p \<longleftrightarrow> suffix (unread p) text \<and>
     (server_gives srvs p \<or> type_of_peer p \<noteq> Scgi \<and> granted (callbacks (cli P)) text (cul (client_of p)))"

definition levels_ok ::
  "('e, 'g) program \<Rightarrow> generic_tcp_server list \<Rightarrow> (addr \<Rightarrow> string) \<Rightarrow> ('e, 'g) system \<Rightarrow> bool" where
  "levels_ok P srvs text sys \<longleftrightarrow> (\<forall>a p. peers sys a = Some p \<longrightarrow> entitled P srvs (text a) p) \<and>
     (\<forall>srv\<in>set (servers sys). \<exists>srv0\<in>set srvs.
        context_type srv0 = context_type srv \<and> server_userlevel srv0 = server_userlevel srv)"

lemma granted_more: "granted cb s ul \<Longrightarrow> granted cb (s @ t) ul"
  by (erule granted_mono) simp

text \<open>More text can only come to what a connection has not read, in the same order.\<close>

lemma suffix_more: "suffix u t \<Longrightarrow> suffix v (u @ s) \<Longrightarrow> suffix v (t @ s)"
  using suffix_order.trans same_suffix_suffix by blast

lemma entitled_step:
  assumes "entitled P srvs text p" "suffix (unread p') (unread p @ s)" "type_of_peer p' = type_of_peer p"
    and "cul (client_of p') = cul (client_of p) \<or>
      type_of_peer p \<noteq> Scgi \<and> granted (callbacks (cli P)) (unread p) (cul (client_of p'))"
  shows "entitled P srvs (text @ s) p'"
proof -
  have "sublist (unread p) (text @ s)"
    using assms(1) sublist_order.order.trans [OF suffix_imp_sublist sublist_append_rightI] unfolding entitled_def by blast
  then have "granted (callbacks (cli P)) (unread p) ul \<Longrightarrow> granted (callbacks (cli P)) (text @ s) ul" for ul
    using granted_mono by blast
  then show ?thesis
    using assms suffix_more [OF _ assms(2)] granted_more by (auto simp: entitled_def server_gives_def)
qed

text \<open>Notifications change nothing here.\<close>

definition same_rights :: "('e, 'g) peer \<Rightarrow> ('e, 'g) peer \<Rightarrow> bool" where
  "same_rights p p' \<longleftrightarrow> client_of p' = client_of p \<and> unread p' = unread p \<and> type_of_peer p' = type_of_peer p"

lemma rights_refl: "rel_option same_rights x x"
  by (cases x) (simp_all add: same_rights_def)

lemma route_rights: "rel_option same_rights (ps a) (route P w del ps a)"
proof -
  obtain s nm v where del: "del = (s, nm, v)" by (cases del)
  show ?thesis
  proof (cases "\<exists>st. ps s = Some (Pubsub_peer st)")
    case False
    then have "route P w del ps = ps" by (auto simp: route_def del split: option.split peer.split)
    then show ?thesis by (simp add: rights_refl)
  next
    case True
    then obtain st where st: "ps s = Some (Pubsub_peer st)" by blast
    let ?st = "st\<lparr>pserves := (fst (pserves st), w)\<rparr>"
    have "pubsub_unread ?st = pubsub_unread st" by (simp add: pubsub_unread_def)
    then have "same_rights (Pubsub_peer st) (Pubsub_peer (pubsub_step (pubsub_env_at P s) (Notified nm v) ?st))"
      using keeps_input_unread [OF keeps_input_notify, of "pubsub_env_at P s" nm v ?st]
        notify_keeps(1) [of "pubsub_env_at P s" nm v ?st] by (simp add: same_rights_def)
    then show ?thesis using st by (simp add: route_def del rights_refl)
  qed
qed

lemma routes_rights: "rel_option same_rights (ps a) (fold (route P w) dels ps a)"
proof (induction dels arbitrary: ps)
  case (Cons del dels)
  have "rel_option same_rights x y \<Longrightarrow> rel_option same_rights y z \<Longrightarrow> rel_option same_rights x z"
    for x y z :: "('a, 'b) peer option"
    by (cases x; cases y; cases z) (auto simp: same_rights_def)
  with route_rights [of ps a P w del] Cons show ?case by simp
qed (simp add: rights_refl)

lemma entitled_same: "same_rights p p' \<Longrightarrow> entitled P srvs text p' = entitled P srvs text p"
  by (simp add: same_rights_def entitled_def server_gives_def)

lemma levels_publish:
  assumes "levels_ok P srvs text sys"
  shows "levels_ok P srvs text (publish P own w' sys)"
proof -
  have "entitled P srvs (text a) p'"
    if "fold (route P w') (new_deliveries own (world sys) w') (peers sys) a = Some p'" for a p'
    using routes_rights [of "peers sys" a P w' "new_deliveries own (world sys) w'"] that assms
    by (auto simp: levels_ok_def option_rel_Some2 entitled_same)
  then show ?thesis using assms by (simp add: levels_ok_def publish_def)
qed

lemma levels_same [simp]:
  "levels_ok P srvs text (sys\<lparr>executor := x\<rparr>) = levels_ok P srvs text sys"
  "levels_ok P srvs text (sys\<lparr>timer_armed := b\<rparr>) = levels_ok P srvs text sys"
  "levels_ok P srvs text (sys\<lparr>failure := e\<rparr>) = levels_ok P srvs text sys"
  "levels_ok P srvs text (sys\<lparr>world := w\<rparr>) = levels_ok P srvs text sys"
  by (simp_all add: levels_ok_def)

lemma levels_peer:
  assumes "levels_ok P srvs text sys" "peers sys a = Some p" "suffix (unread p') (unread p @ s)"
    and "type_of_peer p' = type_of_peer p"
    and "cul (client_of p') = cul (client_of p) \<or>
      type_of_peer p \<noteq> Scgi \<and> granted (callbacks (cli P)) (unread p) (cul (client_of p'))"
  shows "levels_ok P srvs (text(a := text a @ s)) (run_peer P a p' sys)"
proof -
  have "entitled P srvs (text a @ s) p'"
    using assms(1,2) by (intro entitled_step [OF _ assms(3-5)]) (simp add: levels_ok_def)
  then have "levels_ok P srvs (text(a := text a @ s)) (sys\<lparr>peers := (peers sys)(a \<mapsto> p'), failure := peer_failure p'\<rparr>)"
    using assms(1) by (simp add: levels_ok_def)
  then show ?thesis unfolding run_peer_def by (rule levels_publish)
qed

lemma delivered_other [simp]:
  "b \<noteq> a \<Longrightarrow> delivered b (Clisrv_socket a e) p = []" "b \<noteq> a \<Longrightarrow> delivered b (Pubsub_socket a pe) p = []"
  by (cases e; cases p; simp; cases "the p"; simp) (cases pe; cases p; simp; cases "the p"; simp)

lemma delivered_here:
  "(\<lambda>b. text b @ delivered b (Clisrv_socket a e) (ps b)) = text(a := text a @ delivered a (Clisrv_socket a e) (ps a))"
  "(\<lambda>b. text b @ delivered b (Pubsub_socket a pe) (ps b)) = text(a := text a @ delivered a (Pubsub_socket a pe) (ps a))"
  by (auto simp: fun_eq_iff)

lemma levels_accept:
  assumes "levels_ok P srvs text sys" "new_peer P t a ul n (world sys) = Inr p" "0 < n"
    and "\<exists>srv\<in>set srvs. context_type srv = t \<and> server_userlevel srv = ul"
  shows "levels_ok P srvs text (publish P (Some a) (world_of p) (sys\<lparr>peers := (peers sys)(a \<mapsto> p)\<rparr>))"
proof -
  have "client_of p = new_client a ul" using new_peer_ok [OF assms(2,3)] by blast
  moreover have "type_of_peer p = t \<and> unread p = []"
    using assms(2) by (cases t) (auto simp: new_peer_def new_clisrv_context_def new_pubsub_context_def preload_def
        pubsub_preload_def clisrv_unread_def pubsub_unread_def map_sum_def split: sum.splits prod.splits)
  ultimately have "entitled P srvs (text a) p" using assms(4) by (auto simp: entitled_def server_gives_def new_client_def)
  then show ?thesis using assms(1) by (intro levels_publish) (simp add: levels_ok_def)
qed

lemma levels_servers:
  assumes "levels_ok P srvs text sys" "\<forall>srv\<in>set xs. \<exists>srv0\<in>set srvs. context_type srv0 = context_type srv \<and> server_userlevel srv0 = server_userlevel srv"
  shows "levels_ok P srvs text (sys\<lparr>servers := xs\<rparr>)"
  using assms by (simp add: levels_ok_def)

lemma levels_accepted:
  assumes l: "levels_ok P srvs text sys"
  shows "levels_ok P srvs text (handler_step P (Accepted n error a m) sys)"
proof (cases "n < length (servers sys) \<and> accepting (servers sys ! n) \<and> peers sys a = None \<and> a \<notin> set (own_slots P) \<and> 0 < m")
  case True
  let ?srv = "(servers sys ! n)\<lparr>accepting := False\<rparr>"
  obtain srv sys' where h: "accept_handler P error a m ?srv sys = (srv, sys')" by fastforce
  have "servers sys ! n \<in> set (servers sys)" using True by simp
  then have x: "\<exists>s0\<in>set srvs. context_type s0 = context_type ?srv \<and> server_userlevel s0 = server_userlevel ?srv"
    using l by (auto simp: levels_ok_def)
  have "levels_ok P srvs text sys' \<and> context_type srv = context_type ?srv \<and> server_userlevel srv = server_userlevel ?srv"
    using h l levels_accept [OF l _ _ x] True
    by (auto simp: accept_handler_def async_accept_def split: if_splits option.splits sum.splits)
  moreover have "\<forall>x\<in>set ((servers sys)[n := srv]).
      \<exists>s0\<in>set srvs. context_type s0 = context_type x \<and> server_userlevel s0 = server_userlevel x"
    if "context_type srv = context_type ?srv" "server_userlevel srv = server_userlevel ?srv"
  proof
    fix y
    assume "y \<in> set ((servers sys)[n := srv])"
    then have "y = srv \<or> y \<in> set (servers sys)" using set_update_subset_insert [of "servers sys" n srv] by blast
    then show "\<exists>s0\<in>set srvs. context_type s0 = context_type y \<and> server_userlevel s0 = server_userlevel y"
      using l that x by (auto simp: levels_ok_def)
  qed
  ultimately show ?thesis using True h by (simp add: levels_servers)
qed (use l in auto)

lemma levels_step:
  assumes s: "sound P w0 sys" and P: "one_program P" and l: "levels_ok P srvs text sys"
  shows "levels_ok P srvs (\<lambda>a. text a @ delivered a ev (peers sys a)) (system_step P ev sys)"
proof (cases ev)
  case (Accepted n error a m)
  then show ?thesis using levels_accepted [OF l] by (simp add: system_step_def)
next
  case (Ticked b)
  obtain r w' where "client_tick (signals_of (cli P)) (big_endian (cli P)) (dict (cli P)) (world sys) = (r, w')" by fastforce
  with Ticked l show ?thesis
    by (cases r) (auto simp: system_step_def tick_handler_def preload_timer_def levels_publish)
next
  case (Clisrv_socket a e)
  show ?thesis
  proof (cases "\<exists>st. peers sys a = Some (Clisrv_peer st)")
    case True
    then obtain st where st: "peers sys a = Some (Clisrv_peer st)" by blast
    let ?st = "st\<lparr>serves := (fst (serves st), world sys)\<rparr>" and ?E = "clisrv_env P a"
    have u: "clisrv_unread ?st = clisrv_unread st" by (simp add: clisrv_unread_def)
    have i: "idle (dict ?E) (snd (serves ?st))" using s by (simp add: sound_def)
    have "callbacks ?E = callbacks (cli P)" by (simp add: clisrv_env_def pubsub_env_at_def cli_env.truncate_def)
    then have c: "cul (fst (serves (clisrv_event ?E e ?st))) = cul (fst (serves st)) \<or>
        granted (callbacks (cli P)) (clisrv_unread st) (cul (fst (serves (clisrv_event ?E e ?st))))"
      using session_level [OF session_clisrv_event [of ?E ?st e] i] u by auto
    have d: "delivered a (Clisrv_socket a e) (Some (Clisrv_peer st)) = (case e of Arrived t \<Rightarrow> t | _ \<Rightarrow> [])"
      by (cases e) simp_all
    show ?thesis
      using levels_peer [OF l st, of "Clisrv_peer (clisrv_event ?E e ?st)" "case e of Arrived t \<Rightarrow> t | _ \<Rightarrow> []"]
        clisrv_unread_event [of ?E e ?st] u c
      by (simp add: Clisrv_socket st system_step_def delivered_here d)
  next
    case False
    then have "delivered a (Clisrv_socket a e) (peers sys a) = []"
      by (cases e; cases "peers sys a"; simp; cases "the (peers sys a)"; simp)
    then show ?thesis using l False by (auto simp: Clisrv_socket system_step_def delivered_here split: option.split peer.split)
  qed
next
  case (Pubsub_socket a e)
  show ?thesis
  proof (cases "\<exists>st. peers sys a = Some (Pubsub_peer st) \<and> socket_only e")
    case True
    then obtain st where st: "peers sys a = Some (Pubsub_peer st)" "socket_only e" by blast
    let ?st = "st\<lparr>pserves := (fst (pserves st), world sys)\<rparr>" and ?E = "pubsub_env_at P a"
    have u: "pubsub_unread ?st = pubsub_unread st" by (simp add: pubsub_unread_def)
    have i: "idle (dict ?E) (snd (pserves ?st))" using s by (simp add: sound_def)
    have "callbacks ?E = callbacks (cli P)" by (simp add: pubsub_env_at_def)
    then have c: "cul (fst (pserves (pubsub_step ?E e ?st))) = cul (fst (pserves st)) \<or>
        granted (callbacks (cli P)) (pubsub_unread st) (cul (fst (pserves (pubsub_step ?E e ?st))))"
      using session_level [OF session_pubsub_step [OF st(2), of ?E ?st] i] u by auto
    have d: "delivered a (Pubsub_socket a e) (Some (Pubsub_peer st)) = (case e of PArrived t \<Rightarrow> t | _ \<Rightarrow> [])"
      by (cases e) simp_all
    show ?thesis
      using levels_peer [OF l st(1), of "Pubsub_peer (pubsub_step ?E e ?st)" "case e of PArrived t \<Rightarrow> t | _ \<Rightarrow> []"]
        pubsub_unread_step [OF st(2), of ?E ?st] u c
      by (simp add: Pubsub_socket st system_step_def delivered_here d)
  next
    case False
    then have "delivered a (Pubsub_socket a e) (peers sys a) = []"
      by (cases e; cases "peers sys a"; simp; cases "the (peers sys a)"; simp)
    then show ?thesis using l False by (auto simp: Pubsub_socket system_step_def delivered_here split: option.split peer.split)
  qed
next
  case (Scgi_socket a e)
  show ?thesis
  proof (cases "\<exists>st. peers sys a = Some (Scgi_peer st)")
    case True
    then obtain st where st: "peers sys a = Some (Scgi_peer st)" by blast
    let ?st = "st\<lparr>rq := (rq st)\<lparr>rserves := (fst (rserves (rq st)), world sys)\<rparr>\<rparr>"
    have i: "idle (dictionary (scgi P)) (snd (rserves (rq ?st)))" using s P by (simp add: sound_def one_program_def)
    have "cul (fst (rserves (rq (scgi_event (scgi P) e ?st)))) = cul (fst (rserves (rq st)))"
      using session_level [OF session_scgi_event [of "scgi P" ?st e] i] by simp
    then show ?thesis
      using levels_peer [OF l st, of "Scgi_peer (scgi_event (scgi P) e ?st)" "[]"]
      by (simp add: Scgi_socket st system_step_def)
  qed (use l Scgi_socket in \<open>auto simp: system_step_def split: option.split peer.split\<close>)
next
  case (Released a names)
  then show ?thesis using l by (auto simp: system_step_def release_def levels_ok_def split: option.split)
next
  case (Submitted callable)
  then show ?thesis using l by (simp add: system_step_def)
next
  case Executor_closed
  then show ?thesis using l by (simp add: system_step_def)
next
  case Executed
  then show ?thesis
    using l by (auto simp: system_step_def levels_publish split: list.split prod.split)
qed

lemma levels_run:
  assumes "sound P w0 sys" "one_program P" "levels_ok P srvs before sys"
  shows "levels_ok P srvs (\<lambda>a. before a @ heard P a evs sys) (system_run P evs sys)"
  using assms
proof (induction evs arbitrary: sys before)
  case (Cons ev evs)
  show ?case
  proof (cases "failure sys = None")
    case True
    then have s: "sound P w0 (system_step P ev sys)" using Cons.prems by (intro system_step_sound)
    show ?thesis
      using Cons.IH [OF s Cons.prems(2) levels_step [OF Cons.prems]] True by (simp add: system_run_def)
  next
    case False
    then have "system_run P (ev # evs) sys = sys" by (induction evs) (auto simp: system_run_def)
    moreover have "heard P a (ev # evs) sys = []" for a using False by auto
    ultimately show ?thesis using Cons.prems by simp
  qed
qed (simp add: system_run_def)

text \<open>A connection is entitled to its level.\<close>

lemma entitled_run:
  assumes "starts P w srvs" "one_program P" "peers (system_run P evs (new_system w srvs)) a = Some p"
  shows "entitled P srvs (heard P a evs (new_system w srvs)) p"
proof -
  have "levels_ok P srvs (\<lambda>a. []) (new_system w srvs)"
    by (auto simp: levels_ok_def new_system_def preload_timer_def preload_server_def async_accept_def)
  from levels_run [OF new_system_sound [OF assms(1)] assms(2) this, of evs] show ?thesis
    using assms(3) by (simp add: levels_ok_def)
qed



end
