(* ===== verification/Server_Delivery.thy ===== *)
theory Server_Delivery
  imports Server Cli_Round_Trip
begin

text \<open>
  From one connection to another: what a client of the command line
  (\<open>src/cli/clisrv_context.cpp\<close>) sets, a subscriber (\<open>src/cli/pubsub_context.cpp\<close>) is sent. The signal
  of the parameter joins the two; the system of \<open>Server\<close> passes on what it delivers.
\<close>

subsection \<open>One line\<close>

text \<open>The text of a value has no line end in it, so that a request is one line.\<close>

definition one_line :: "string \<Rightarrow> bool" where
  "one_line s \<longleftrightarrow> CHR 0x0A \<notin> set s"

lemma one_line_simps [simp]:
  "one_line []" "one_line (c # s) \<longleftrightarrow> c \<noteq> CHR 0x0A \<and> one_line s" "one_line (s @ t) \<longleftrightarrow> one_line s \<and> one_line t"
  "one_line (concat (map f xs)) \<longleftrightarrow> (\<forall>x\<in>set xs. one_line (f x))"
  by (auto simp: one_line_def)

lemma one_line_base64: "list_all is_base64 s \<Longrightarrow> one_line s"
  by (auto simp: one_line_def list_all_iff is_base64_def is_digit_def)

lemma one_line_digits: "one_line (digits 10 n)"
  using digits_list_all [of n] by (auto simp: one_line_def list_all_iff is_digit_def)

lemma one_line_escaped: "one_line (escaped c)"
proof -
  have d: "digit_char d \<noteq> CHR 0x0A" if "d < 16" for d
  proof -
    have "(of_char (digit_char d) :: nat) \<noteq> 10" using that by (simp add: digit_char_def of_char_of)
    then show ?thesis by auto
  qed
  have b: "(of_char c :: nat) < 256" by simp
  have "l \<noteq> CHR 0x0A" if "escape_letter c = Some l" for l
    using that by (auto simp: escape_letter_def split: if_splits)
  moreover have "(of_char c :: nat) div 16 < 16" "(of_char c :: nat) mod 16 < 16" using b by arith+
  ultimately show ?thesis
    using d by (auto simp: escaped_def hex2_def is_plain_def split: option.split)
qed

lemma one_line_scalar: "base64_text enc \<Longrightarrow> readable_scalar x \<Longrightarrow> one_line (scalar_text enc x)"
proof (cases x)
  case (Binary_t b)
  assume "base64_text enc"
  then have "one_line (enc b)" by (simp add: base64_text_def one_line_base64)
  then show ?thesis by (simp add: Binary_t base64_encode_def) (simp add: one_line_def)
qed (auto simp: show_int_def one_line_digits one_line_escaped)

lemma one_line_value: "base64_text enc \<Longrightarrow> readable_value v \<Longrightarrow> one_line (value_text enc v)"
proof -
  assume e: "base64_text enc" "readable_value v"
  have "one_line (elements_text enc xs)" if "list_all readable_scalar xs" for xs
    using that by (cases xs) (simp_all add: tail_text_def one_line_scalar [OF e(1)] list_all_iff)
  then show ?thesis
    using e by (cases v) (simp_all add: one_line_scalar list_all_iff)
qed

subsection \<open>Passing notifications on\<close>

lemma fold_route_other:
  assumes "\<And>st. ps a \<noteq> Some (Pubsub_peer st)"
  shows "fold (route P w) dels ps a = ps a"
  using assms
proof (induction dels arbitrary: ps)
  case (Cons del dels)
  have "route P w del ps a = ps a"
    using Cons.prems by (auto simp: route_def split: prod.split option.split peer.split)
  with Cons show ?case by simp
qed simp

definition passed ::
  "('e, 'g) program \<Rightarrow> ('e, 'g) world \<Rightarrow> addr \<Rightarrow> delivery \<Rightarrow> ('e, 'g) pubsub_context \<Rightarrow> ('e, 'g) pubsub_context" where
  "passed P w j del st = (case del of (s, nm, v) \<Rightarrow>
     pubsub_step (pubsub_env_at P j) (Notified nm v) (st\<lparr>pserves := (fst (pserves st), w)\<rparr>))"

lemma fold_route_at:
  assumes "ps j = Some (Pubsub_peer st)"
  shows "fold (route P w) dels ps j = Some (Pubsub_peer (fold (passed P w j) (deliveries_to j dels) st))"
  using assms
proof (induction dels arbitrary: ps st)
  case (Cons del dels)
  obtain s nm v where del: "del = (s, nm, v)" by (cases del)
  show ?case
  proof (cases "s = j")
    case True
    have "route P w del ps j = Some (Pubsub_peer (passed P w j del st))"
      using Cons.prems True by (simp add: route_def del passed_def)
    from Cons.IH [of "route P w del ps", OF this] show ?thesis by (simp add: del True deliveries_to_def)
  next
    case False
    then have "route P w del ps j = Some (Pubsub_peer st)"
      using Cons.prems by (auto simp: route_def del split: option.split peer.split)
    from Cons.IH [of "route P w del ps", OF this] show ?thesis using False by (simp add: del deliveries_to_def)
  qed
qed (simp add: deliveries_to_def)

text \<open>Of the connections to a signal, exactly one calls a client that observes the parameter.\<close>

lemma one_connection:
  assumes "distinct (map fst xs)" "(k, s) \<in> set xs" "\<And>k'. (k', s) \<in> set xs \<Longrightarrow> k' = k"
  shows "filter (\<lambda>p. snd p = s) xs = [(k, s)]"
proof -
  let ?ys = "filter (\<lambda>p. snd p = s) xs"
  have only: "p = (k, s)" if "p \<in> set ?ys" for p
  proof -
    from that have p: "snd p = s" "p \<in> set xs" by simp_all
    then have "(fst p, s) \<in> set xs" by (metis prod.collapse)
    from assms(3) [OF this] p(1) show ?thesis by (simp add: prod_eq_iff)
  qed
  have e: "set ?ys = {(k, s)}"
  proof
    show "set ?ys \<subseteq> {(k, s)}" using only by blast
    show "{(k, s)} \<subseteq> set ?ys" using assms(2) by simp
  qed
  moreover have "distinct ?ys" using assms(1) by (simp add: distinct_map)
  ultimately have "length ?ys = Suc 0" using distinct_card [of ?ys] by simp
  then obtain p where p: "?ys = [p]" by (metis length_0_conv length_Suc_conv)
  with e show ?thesis unfolding p by simp
qed

lemma deliveries_one:
  assumes "sound P w0 sys" "peers sys j = Some p" "observables (client_of p) nm = Some (Some (a, k))"
    and "leaf_at (world sys) a = Some l"
  shows "fq_name (tree (world sys)) a = Some nm"
    and "i \<noteq> j \<Longrightarrow> deliveries_to j (filter (\<lambda>del. Some (fst del) \<noteq> Some i) (notify_slots (signals_of (cli P)) l u g)) = [(j, u, g)]"
proof -
  let ?S = "signals_of (cli P)"
  let ?xs = "sig_slots ?S (value_signal l)"
  have ok: "peer_ok P (world sys) j p" by (rule sound_peer [OF assms(1,2)])
  have xs: "slots_at ?S (tree (world sys)) a = ?xs" by (rule slots_leaf [OF assms(4)])
  from ok assms(3) show f: "fq_name (tree (world sys)) a = Some nm" by (auto simp: peer_ok_def holds_links_def)
  have "(k', j) \<in> set ?xs \<longleftrightarrow> (\<exists>nm'. observables (client_of p) nm' = Some (Some (a, k')))" for k'
    using ok unfolding xs [symmetric] peer_ok_def holds_links_def by blast
  moreover have "fq_name (tree (world sys)) a = Some nm'" if "observables (client_of p) nm' = Some (Some (a, k'))" for nm' k'
    using that ok unfolding peer_ok_def holds_links_def by blast
  then have "nm' = nm" if "observables (client_of p) nm' = Some (Some (a, k'))" for nm' k'
    using that f by fastforce
  ultimately have "(k, j) \<in> set ?xs" "\<And>k'. (k', j) \<in> set ?xs \<Longrightarrow> k' = k" using assms(3) by fastforce+
  moreover have "distinct (map fst ?xs)" using assms(1) unfolding sound_def numbered_def xs [symmetric] by blast
  ultimately have one: "filter (\<lambda>p. snd p = j) ?xs = [(k, j)]" by (intro one_connection)
  assume ne: "i \<noteq> j"
  have "deliveries_to j (filter (\<lambda>del. Some (fst del) \<noteq> Some i) (notify_slots ?S l u g)) =
      map (\<lambda>(c, s). (s, u, g)) (filter (\<lambda>p. snd p = j) ?xs)"
  proof -
    have "(\<lambda>x. snd x \<noteq> i \<and> snd x = j) = (\<lambda>x :: connection \<times> slot. snd x = j)" using ne by auto
    then show ?thesis by (simp add: deliveries_to_def notify_slots_def filter_map comp_def case_prod_beta)
  qed
  with one show "deliveries_to j (filter (\<lambda>del. Some (fst del) \<noteq> Some i) (notify_slots ?S l u g)) = [(j, u, g)]" by simp
qed


subsection \<open>A subscriber at rest\<close>

lemma quiet_notified:
  assumes "writes_on st" "\<not> writing_active st" "tree (snd (pserves st)) (dict E) = Some ob" "decimal_value g"
  shows "let line = update_line E (cut_root (oname ob) nm, g, clock E (readings st))
    in \<exists>c. pubsub_step E (Notified nm g) st = st\<lparr>readings := Suc (readings st), pending_updates := c, poutbuf := line,
      in_flight := length line, writing_active := True\<rparr>"
proof -
  let ?u = "(cut_root (oname ob) nm, g, clock E (readings st))"
  have q: "represents (pending_updates st) []" "poutbuf st = []" "0 < socket_send_buf_size st"
    using assms(1,2) by (simp_all add: writes_on_def queue_intact_def)
  obtain c where c: "push (fst ?u) g (clock E (readings st)) (pending_updates st) = Inr c" "represents c [?u]"
    using uc.rep_pu [OF q(1)] by fastforce
  let ?st = "st\<lparr>readings := Suc (readings st), pending_updates := c\<rparr>"
  have line: "buf (write_update E ?u (new_ostream [])) = update_line E ?u"
    using write_update_line [of "new_ostream []" ?u E] assms(4) by (simp add: new_ostream_def)
  have "taken E (socket_send_buf_size st) [?u] (new_ostream []) = 1" using q(3) by (simp add: new_ostream_def)
  then obtain c' where c': "preload_writing E ?st = (Inr (), ?st\<lparr>pending_updates := c', poutbuf := update_line E ?u,
      in_flight := length (update_line E ?u), writing_active := True\<rparr>)"
    using preload_writing_idle [of ?st "[?u]" E] c(2) assms(2) q(2) line
    by (auto simp: Let_def update_line_def)
  have "notify E nm g st = preload_writing E ?st"
    using c(1) assms(3) by (simp add: notify_def root_name_def read_clock_def enqueue_def deref_def st_then_def)
  with c' show ?thesis by (auto simp: Let_def crash_def)
qed

lemma preload_writing_sent: "psent (snd (preload_writing E st)) = psent st"
  by (auto simp: preload_writing_def split: option.split prod.split sum.split)

lemma crash_sent: "psent (crash rst) = psent (snd rst)"
  by (simp add: crash_def split: prod.split sum.split)

text \<open>The completion of the write.\<close>

lemma written_line:
  assumes "writing_active st" "is_open st" "in_flight st = length (poutbuf st)"
  shows "psent (pubsub_step E PWritten st) = psent st @ poutbuf st" "pserves (pubsub_step E PWritten st) = pserves st"
  using assms by (simp_all add: pubsub_write_handler_def crash_sent preload_writing_sent preload_writing_keeps)

text \<open>One complete request line has arrived at a connection that is reading.\<close>

lemma clisrv_line:
  assumes "clisrv_context.pending st = Read_pending" "clisrv_context.inbuf st = []"
    and "clisrv_context.wire st = s @ [CHR 0x0A]" "one_line s"
    and "process_request E (s @ [CHR 0x0A]) (serves st, clisrv_context.outbuf st) = (Inr (), (cw, out))"
  shows "clisrv_event E (Received (Suc (length s))) st =
    st\<lparr>serves := cw, clisrv_context.inbuf := [], clisrv_context.outbuf := out, clisrv_context.pending := Write_pending,
       clisrv_context.wire := []\<rparr>"
proof -
  have "takeWhile (\<lambda>c. c \<noteq> CHR 0x0A) (s @ [CHR 0x0A]) = s"
    using assms(4) by (subst takeWhile_append2) (auto simp: one_line_def)
  then have "upto_newline (s @ [CHR 0x0A]) = Suc (length s)" by (simp add: upto_newline_def)
  with assms show ?thesis by (simp add: read_handler_def)
qed


subsection \<open>End to end\<close>

lemma written_crashed:
  assumes "queue_intact st" "writing_active st" "is_open st"
  shows "crashed (pubsub_step E PWritten st) = crashed st"
proof -
  let ?st = "st\<lparr>psent := psent st @ take (in_flight st) (poutbuf st), poutbuf := drop (in_flight st) (poutbuf st),
    in_flight := 0, writing_active := False\<rparr>"
  have "queue_intact ?st" by (rule written_intact [OF assms(1)])
  from preload_writing_writes_on [OF this, of E] obtain st' where st': "preload_writing E ?st = (Inr (), st')" by blast
  then have "crashed st' = crashed st" using preload_writing_keeps(2) [of E ?st] by simp
  with st' show ?thesis using assms(2,3) by (simp add: pubsub_write_handler_def crash_def)
qed

lemma no_new_deliveries [simp]: "new_deliveries own w w = []"
  by (simp add: new_deliveries_def)

text \<open>What a set request does to the system: the answer is waiting, the subscriber is writing its line.\<close>

lemma set_step:
  assumes sound: "sound P w0 sys"
    and peers: "peers sys i = Some (Clisrv_peer ci)" "peers sys j = Some (Pubsub_peer cj)"
    and set: "process_request (clisrv_env P i) (r @ [CHR 0x0A]) ((fst (serves ci), world sys), []) =
      (Inr (), ((fst (serves ci), written (signals_of (cli P)) a l v f s fqn g (world sys)), reply))"
    and reading: "clisrv_context.pending ci = Read_pending" "clisrv_context.inbuf ci = []"
      "clisrv_context.outbuf ci = []" "clisrv_context.wire ci = r @ [CHR 0x0A]" "one_line r"
    and quiet: "\<not> writing_active cj" "observables (fst (pserves cj)) fqn = Some (Some (a, k))" "decimal_value g"
    and tree: "leaf_at (world sys) a = Some l" "tree (world sys) (dict (cli P)) = Some root"
  shows "\<exists>ci1 cj1. let sys1 = handler_step P (Clisrv_socket i (Received (Suc (length r)))) sys in
    failure sys1 = None \<and> peers sys1 i = Some (Clisrv_peer ci1) \<and> peers sys1 j = Some (Pubsub_peer cj1) \<and>
    clisrv_context.pending ci1 = Write_pending \<and> clisrv_context.outbuf ci1 = reply \<and>
    clisrv_context.sent ci1 = clisrv_context.sent ci \<and>
    poutbuf cj1 = update_line (pubsub_env_at P j) (cut_root (oname root) fqn, g, clock (pubsub_env_at P j) (readings cj)) \<and>
    in_flight cj1 = length (poutbuf cj1) \<and> writing_active cj1 \<and> is_open cj1 = is_open cj \<and> psent cj1 = psent cj"
proof -
  let ?w = "world sys" and ?w1 = "written (signals_of (cli P)) a l v f s fqn g (world sys)"
  let ?d = "dict (cli P)" and ?F = "pubsub_env_at P j"
  let ?ci = "ci\<lparr>serves := (fst (serves ci), ?w)\<rparr>"
  let ?ci1 = "?ci\<lparr>serves := (fst (serves ci), ?w1), clisrv_context.inbuf := [], clisrv_context.outbuf := reply,
    clisrv_context.pending := Write_pending, clisrv_context.wire := []\<rparr>"
  let ?sys1 = "handler_step P (Clisrv_socket i (Received (Suc (length r)))) sys"
  have ij: "i \<noteq> j" using peers by auto
  have ev: "clisrv_event (clisrv_env P i) (Received (Suc (length r))) ?ci = ?ci1"
    using clisrv_line [of ?ci r "clisrv_env P i" "(fst (serves ci), ?w1)" reply] set reading by simp
  have sys1: "?sys1 = publish P (Some i) ?w1 (sys\<lparr>peers := (peers sys)(i \<mapsto> Clisrv_peer ?ci1), failure := None\<rparr>)"
    by (simp add: peers(1) ev run_peer_def del: clisrv_event.simps)
  have del: "new_deliveries (Some i) ?w ?w1 = filter (\<lambda>del. Some (fst del) \<noteq> Some i) (notify_slots (signals_of (cli P)) l fqn g)"
    by (simp add: new_deliveries_def written_def)
  have "observables (client_of (Pubsub_peer cj)) fqn = Some (Some (a, k))" using quiet(2) by simp
  from deliveries_one(2) [OF sound peers(2) this tree(1) ij]
  have one: "deliveries_to j (new_deliveries (Some i) ?w ?w1) = [(j, fqn, g)]" unfolding del .
  let ?cj = "cj\<lparr>pserves := (fst (pserves cj), ?w1)\<rparr>"
  have idle: "idle ?d ?w" using sound by (simp add: sound_def)
  have "?d \<noteq> a" using idle_leaf [OF idle tree(1)] by blast
  then have root: "tree (snd (pserves ?cj)) (dict ?F) = Some root"
    using tree(2) by (simp add: written_def set_leaf_def)
  have "writes_on ?cj" using sound_peer [OF sound peers(2)] by (simp add: peer_ok_def)
  from quiet_notified [OF this _ root quiet(3), of fqn] quiet(1) obtain q where
    cj1: "pubsub_step ?F (Notified fqn g) ?cj = ?cj\<lparr>readings := Suc (readings cj), pending_updates := q,
      poutbuf := update_line ?F (cut_root (oname root) fqn, g, clock ?F (readings cj)),
      in_flight := length (update_line ?F (cut_root (oname root) fqn, g, clock ?F (readings cj))), writing_active := True\<rparr>"
    by (auto simp: Let_def)
  let ?cj1 = "?cj\<lparr>readings := Suc (readings cj), pending_updates := q,
      poutbuf := update_line ?F (cut_root (oname root) fqn, g, clock ?F (readings cj)),
      in_flight := length (update_line ?F (cut_root (oname root) fqn, g, clock ?F (readings cj))), writing_active := True\<rparr>"
  let ?ps = "(peers sys)(i \<mapsto> Clisrv_peer ?ci1)"
  have "fold (route P ?w1) (new_deliveries (Some i) ?w ?w1) ?ps j = Some (Pubsub_peer ?cj1)"
    using fold_route_at [of ?ps j cj P ?w1 "new_deliveries (Some i) ?w ?w1"] peers(2) ij
    by (simp add: one passed_def cj1 del: pubsub_step.simps)
  moreover have "fold (route P ?w1) (new_deliveries (Some i) ?w ?w1) ?ps i = Some (Clisrv_peer ?ci1)"
    using fold_route_other [of ?ps i P ?w1 "new_deliveries (Some i) ?w ?w1"] by simp
  ultimately have "peers ?sys1 i = Some (Clisrv_peer ?ci1)" "peers ?sys1 j = Some (Pubsub_peer ?cj1)" "failure ?sys1 = None"
    unfolding sys1 by (simp_all add: publish_def)
  then show ?thesis
    unfolding Let_def by (intro exI [of _ ?ci1] exI [of _ ?cj1]) simp
qed


lemma written_step:
  assumes "peers sys j = Some (Pubsub_peer cj)" "queue_intact cj" "writing_active cj" "is_open cj"
    "in_flight cj = length (poutbuf cj)" "crashed cj = None"
  shows "\<exists>cj'. let sys' = handler_step P (Pubsub_socket j PWritten) sys in
    peers sys' = (peers sys)(j \<mapsto> Pubsub_peer cj') \<and> psent cj' = psent cj @ poutbuf cj \<and> failure sys' = None"
proof -
  let ?cj = "cj\<lparr>pserves := (fst (pserves cj), world sys)\<rparr>"
  let ?cj' = "pubsub_step (pubsub_env_at P j) PWritten ?cj"
  have "queue_intact ?cj" using assms(2) by (simp add: queue_intact_def)
  then have c: "crashed ?cj' = None" using written_crashed [of ?cj "pubsub_env_at P j"] assms(3,4,6) by simp
  have w: "psent ?cj' = psent cj @ poutbuf cj" "pserves ?cj' = (fst (pserves cj), world sys)"
    using written_line [of ?cj "pubsub_env_at P j"] assms(3-5) by simp_all
  have "handler_step P (Pubsub_socket j PWritten) sys = run_peer P j (Pubsub_peer ?cj') sys"
    using assms(1) by (simp del: pubsub_step.simps)
  then show ?thesis
    using w c by (intro exI [of _ ?cj']) (simp add: run_peer_def publish_def Let_def del: pubsub_step.simps)
qed

lemma answered_step:
  assumes "peers sys i = Some (Clisrv_peer ci)" "clisrv_context.pending ci = Write_pending"
  shows "\<exists>ci'. let sys' = handler_step P (Clisrv_socket i Written) sys in
    peers sys' = (peers sys)(i \<mapsto> Clisrv_peer ci') \<and>
    clisrv_context.sent ci' = clisrv_context.sent ci @ clisrv_context.outbuf ci"
  using assms by (auto simp: run_peer_def publish_def write_handler_def Let_def)

text \<open>
  C6. End to end, between connections: a client of the command line sends the line that sets a
  managed parameter, and some other client, whose connection is open and idle, observes that
  parameter. Then the first is sent the answer \<open>0\<close>, and the other exactly one line with the
  parameter's name, the new value and the time.
\<close>

theorem set_reaches_subscriber:
  assumes "sound P w0 sys" and "failure sys = None"
    and "peers sys i = Some (Clisrv_peer ci)" and "clisrv_context.pending ci = Read_pending"
    and "clisrv_context.inbuf ci = []" and "clisrv_context.outbuf ci = []"
    and "clisrv_context.wire ci = ''set '' @ nm @ '' '' @ value_text (b64_enc_it (cli P)) g @ [CHR 0x0A]"
    and "peers sys j = Some (Pubsub_peer cj)" and "is_open cj" and "\<not> writing_active cj"
    and "observables (fst (pserves cj)) fqn = Some (Some (a, k))"
    and "w = world sys" and "tree w (dict (cli P)) = Some root"
    and "may_write (dict (cli P)) (fst (serves ci)) a w" and "leaf_at w a = Some l" and "kind l = Managed_readwrite old f"
    and "find_descendant_object (tree w) (dict (cli P)) nm CHR '':'' = Inr (Some a)"
    and "from_generic (big_endian (cli P)) (lhint l) (ltype l) g = Inr v"
    and "to_generic (big_endian (cli P)) (lhint l) (ltype l) v = Inr g"
    and "\<not> cpp_eq old v" and "run_verify f v (app w) = (Inr (), s)"
    and "uri_ok nm" and "request_cb (callbacks (cli P)) = None"
    and "base64_iterators (b64_enc_it (cli P)) (b64_dec_it (cli P))" and "base64_text (b64_enc_it (cli P))"
    and "readable_value g" and "decimal_value g" and "one_program P"
  shows "\<exists>ci' cj'. let sys' = system_run P [Clisrv_socket i (Received (length (clisrv_context.wire ci))),
      Pubsub_socket j PWritten, Clisrv_socket i Written] sys in
    peers sys' i = Some (Clisrv_peer ci') \<and> clisrv_context.sent ci' = clisrv_context.sent ci @ ''0'' @ [CHR 0x0A] @ prompt \<and>
    peers sys' j = Some (Pubsub_peer cj') \<and>
    psent cj' = psent cj @ update_line (pubsub_env_at P j) (cut_root (oname root) fqn, g, clock (cli P) (readings cj))"
proof -
  let ?r = "''set '' @ nm @ '' '' @ value_text (b64_enc_it (cli P)) g"
  let ?E = "clisrv_env P i" and ?w1 = "written (signals_of (cli P)) a l v f s fqn g w"
  have E: "callbacks ?E = callbacks (cli P)" "b64_enc_it ?E = b64_enc_it (cli P)" "b64_dec_it ?E = b64_dec_it (cli P)"
    "clock (pubsub_env_at P j) = clock (cli P)"
    by (simp_all add: clisrv_env_def pubsub_env_at_def cli_env.truncate_def)
  have obs: "observables (client_of (Pubsub_peer cj)) fqn = Some (Some (a, k))" using assms(11) by simp
  have "fq_name (tree w) a = Some fqn" using deliveries_one(1) [OF assms(1,8) obs] assms(12,15) by simp
  from managed_write_at(4) [OF assms(14-16) this assms(18,20,21,19)]
  have "set_parameter (signals_of ?E) (big_endian ?E) (dict ?E) (fst (serves ci)) (Some a) g w = (Inr (), ?w1)"
    by (simp add: written_def)
  then have req: "process_request ?E (?r @ [CHR 0x0A]) ((fst (serves ci), world sys), []) =
      (Inr (), ((fst (serves ci), written (signals_of (cli P)) a l v f s fqn g (world sys)), ''0'' @ [CHR 0x0A] @ prompt))"
    using set_request [of nm ?E w "Some a" g "fst (serves ci)" ?w1 "[]"] assms(12,17,22-26) E by simp
  have "one_line nm" using assms(22) by (auto simp: uri_ok_def one_line_def list_all_iff is_bracket_or_space_def is_space_def)
  then have line: "one_line ?r" using one_line_value [OF assms(25,26)] by simp
  have wire: "clisrv_context.wire ci = ?r @ [CHR 0x0A]" using assms(7) by simp
  let ?e1 = "Clisrv_socket i (Received (Suc (length ?r)))"
  obtain ci1 cj1 where 1: "failure (handler_step P ?e1 sys) = None"
    "peers (handler_step P ?e1 sys) i = Some (Clisrv_peer ci1)" "peers (handler_step P ?e1 sys) j = Some (Pubsub_peer cj1)"
    "clisrv_context.pending ci1 = Write_pending" "clisrv_context.outbuf ci1 = ''0'' @ [CHR 0x0A] @ prompt"
    "clisrv_context.sent ci1 = clisrv_context.sent ci"
    "poutbuf cj1 = update_line (pubsub_env_at P j) (cut_root (oname root) fqn, g, clock (cli P) (readings cj))"
    "in_flight cj1 = length (poutbuf cj1)" "writing_active cj1" "is_open cj1" "psent cj1 = psent cj"
    using set_step [OF assms(1,3,8) req assms(4-6) wire line assms(10,11,27)] assms(9,12,13,15) E(4)
    unfolding Let_def by auto
  let ?sys1 = "handler_step P ?e1 sys"
  have sound1: "sound P w0 ?sys1" by (rule handler_step_sound [OF assms(1,28,2)])
  have "queue_intact cj1" using sound_peer [OF sound1 1(3)] writes_on_intact by (auto simp: peer_ok_def)
  moreover have "crashed cj1 = None" using sound1 1(1,3) unfolding sound_def by fastforce
  ultimately obtain cj2 where 2: "peers (handler_step P (Pubsub_socket j PWritten) ?sys1) = (peers ?sys1)(j \<mapsto> Pubsub_peer cj2)"
    "psent cj2 = psent cj1 @ poutbuf cj1" "failure (handler_step P (Pubsub_socket j PWritten) ?sys1) = None"
    using written_step [OF 1(3) _ 1(9,10,8)] unfolding Let_def by blast
  let ?sys2 = "handler_step P (Pubsub_socket j PWritten) ?sys1"
  have ij: "i \<noteq> j" using assms(3,8) by auto
  have "peers ?sys2 i = Some (Clisrv_peer ci1)" using 1(2) ij unfolding 2(1) by simp
  from answered_step [OF this 1(4), of P] obtain ci2 where 3:
    "peers (handler_step P (Clisrv_socket i Written) ?sys2) = (peers ?sys2)(i \<mapsto> Clisrv_peer ci2)"
    "clisrv_context.sent ci2 = clisrv_context.sent ci1 @ clisrv_context.outbuf ci1"
    unfolding Let_def by blast
  have run: "system_run P [Clisrv_socket i (Received (length (clisrv_context.wire ci))), Pubsub_socket j PWritten, Clisrv_socket i Written] sys =
      handler_step P (Clisrv_socket i Written) ?sys2"
    using assms(2) 1(1) 2(3) wire by (simp add: system_run_def system_step_def del: handler_step.simps)
  show ?thesis
    unfolding run Let_def 3(1) 2(1)
    by (intro exI [of _ ci2] exI [of _ cj2]) (use ij 1 2 3 in simp)
qed


text \<open>A client that is about to set a parameter, and one that observes it.\<close>

definition observed_world :: "(nat, (connection \<times> slot) list) world" where
  "observed_world = set_leaf 1 ((sample_param (Managed_readwrite (VInt 3) None))\<lparr>value_signal := [(0, 7), (1, 21)]\<rparr>)
     (sample_world (Managed_readwrite (VInt 3) None))"

definition setting_client :: "(nat, (connection \<times> slot) list) clisrv_context" where
  "setting_client = \<lparr>serves = (new_client 20 Maintenance, observed_world), inbuf = [], outbuf = [], pending = Read_pending,
     wire = ''set p 5'' @ [CHR 0x0A], sent = []\<rparr>"

definition observing_client :: "(nat, (connection \<times> slot) list) pubsub_context" where
  "observing_client = \<lparr>pserves = ((new_client 21 Normal)\<lparr>observables := [''root:p'' \<mapsto> Some (1, 1)]\<rparr>, observed_world),
     pinbuf = [], poutbuf = [], socket_send_buf_size = 100, pending_updates = new_container, writing_active = False,
     readings = 1, in_flight = 0, reading = True, is_open = True, crashed = None, pwire = [], psent = []\<rparr>"

definition two_clients :: "(nat, (connection \<times> slot) list) system" where
  "two_clients = (new_system observed_world sample_servers)
     \<lparr>peers := [20 \<mapsto> Clisrv_peer setting_client, 21 \<mapsto> Pubsub_peer observing_client]\<rparr>"

lemma observed_facts:
  "idle 0 observed_world" "leaf_at observed_world 1 =
     Some ((sample_param (Managed_readwrite (VInt 3) None))\<lparr>value_signal := [(0, 7), (1, 21)]\<rparr>)"
  "fq_name (tree observed_world) 1 = Some ''root:p''" "may_write 0 (new_client 20 Maintenance) 1 observed_world"
  "slots_at list_signals (tree observed_world) b = (if b = 1 then [(0, 7), (1, 21)] else [])"
  "find_descendant_object (tree observed_world) 0 ''p'' CHR '':'' = Inr (Some 1)"
proof -
  let ?l = "(sample_param (Managed_readwrite (VInt 3) None))\<lparr>value_signal := [(0, 7), (1, 21)]\<rparr>"
  have o: "outline (tree observed_world) = outline (tree (sample_world (Managed_readwrite (VInt 3) None)))"
    unfolding observed_world_def
    using set_leaf_outline [OF sample_facts(2) [of "Managed_readwrite (VInt 3) None"], of ?l] by (simp add: leaf_sig_def)
  show i: "idle 0 observed_world"
    using sample_facts(1) by (simp add: observed_world_def idle_set_leaf)
  show "leaf_at observed_world 1 = Some ?l"
    by (simp add: observed_world_def leaf_at_def set_leaf_def sample_world_def)
  show "fq_name (tree observed_world) 1 = Some ''root:p''" using outline_fq_name [OF o] sample_facts(3) by simp
  show "may_write 0 (new_client 20 Maintenance) 1 observed_world"
    using i by (simp add: may_write_def observed_world_def set_leaf_def sample_world_def new_client_def userlevel_defs)
  show "slots_at list_signals (tree observed_world) b = (if b = 1 then [(0, 7), (1, 21)] else [])"
    by (simp add: slots_at_def observed_world_def set_leaf_def sample_world_def list_signals_def)
  show "find_descendant_object (tree observed_world) 0 ''p'' CHR '':'' = Inr (Some 1)"
    unfolding outline_find_descendant [OF o]
    by (simp add: find_descendant_object.simps find_child_def children_of_def sample_world_def)
qed

lemma two_clients_sound: "sound sample_program observed_world two_clients"
proof -
  have P: "signals_of (cli sample_program) = list_signals" "dict (cli sample_program) = 0" "own_slots sample_program = [7]"
    by (simp_all add: sample_program_def sample_pubsub_env_def)
  have e: "represents new_container []" by (rule uc.rep_emp)
  show ?thesis
    unfolding sound_def P
    using observed_facts(1,3,5) e
    by (auto simp: two_clients_def new_system_def preload_timer_def numbered_def peer_ok_def holds_links_def P
        setting_client_def observing_client_def new_client_def legal_def userlevel_defs writes_on_def queue_intact_def
        sample_servers_def preload_server_def async_accept_def split: if_splits)
qed


theorem set_reaches_subscriber_witness:
  "\<exists>ci' cj'. let sys' = system_run sample_program [Clisrv_socket 20 (Received 8), Pubsub_socket 21 PWritten,
        Clisrv_socket 20 Written] two_clients in
      peers sys' 20 = Some (Clisrv_peer ci') \<and> clisrv_context.sent ci' = ''0'' @ [CHR 0x0A] @ ''> '' \<and>
      peers sys' 21 = Some (Pubsub_peer cj') \<and> psent cj' = ''(1 '' @ [CHR 0x27] @ ''p 5)'' @ [CHR 0x0A]"
proof -
  let ?g = "Scalar_t (Integer_t 5)"
  let ?l = "(sample_param (Managed_readwrite (VInt 3) None))\<lparr>value_signal := [(0, 7), (1, 21)]\<rparr> :: sample_leaf"
  have P: "signals_of (cli sample_program) = list_signals" "dict (cli sample_program) = 0"
    "big_endian (cli sample_program) = False" "b64_enc_it (cli sample_program) = b64_enc"
    "b64_dec_it (cli sample_program) = b64_dec" "callbacks (cli sample_program) = initial_callbacks"
    "clock (cli sample_program) = int" "put_time (pubsub_env_at sample_program 21) = show_int"
    "b64_enc_it (pubsub_env_at sample_program 21) = b64_enc"
    by (simp_all add: sample_program_def sample_pubsub_env_def pubsub_env_at_def)
  have v: "from_generic False none (CInt True 32) ?g = Inr (VInt 5)" "to_generic False none (CInt True 32) (VInt 5) = Inr ?g"
    by (simp_all add: from_generic_def plain_from_generic_def scalar_from_generic_def integral_from_generic_def
        to_generic_def scalar_to_generic_def convert_lossless_integer_def int_min_def int_max_def)
  have t: "value_text b64_enc ?g = ''5''" by code_simp
  have line: "update_line (pubsub_env_at sample_program 21) (cut_root ''root'' ''root:p'', ?g, 1) = ''(1 '' @ [CHR 0x27] @ ''p 5)'' @ [CHR 0x0A]"
  proof -
    have "show_int 1 = ''1''" "show_int 5 = ''5''" "cut_root ''root'' ''root:p'' = ''p''" by code_simp+
    then show ?thesis by (simp add: update_line_def P t)
  qed
  obtain root where root: "tree observed_world 0 = Some root" "oname root = ''root''"
    by (simp add: observed_world_def set_leaf_def sample_world_def)
  have r: "\<exists>ci' cj'. let sys' = system_run sample_program [Clisrv_socket 20 (Received (length (clisrv_context.wire setting_client))),
      Pubsub_socket 21 PWritten, Clisrv_socket 20 Written] two_clients in
    peers sys' 20 = Some (Clisrv_peer ci') \<and> clisrv_context.sent ci' = clisrv_context.sent setting_client @ ''0'' @ [CHR 0x0A] @ prompt \<and>
    peers sys' 21 = Some (Pubsub_peer cj') \<and>
    psent cj' = psent observing_client @ update_line (pubsub_env_at sample_program 21)
      (cut_root (oname root) ''root:p'', ?g, clock (cli sample_program) (readings observing_client))"
    by (rule set_reaches_subscriber [OF two_clients_sound, where nm = "''p''" and a = 1 and k = 1 and l = ?l and old = "VInt 3"
          and f = None and v = "VInt 5" and s = 0 and w = observed_world])
      (use observed_facts root v t b64_iterators b64_enc_text sample_starts(2) in
        \<open>simp_all add: P two_clients_def new_system_def preload_timer_def setting_client_def observing_client_def
          sample_param_def run_verify_def uri_ok_def is_bracket_or_space_def is_space_def initial_callbacks_def
          new_client_def sample_world_def observed_world_def set_leaf_def\<close>)
  have n: "length (clisrv_context.wire setting_client) = 8" by (simp add: setting_client_def)
  from r [unfolded n] show ?thesis
    by (simp add: setting_client_def observing_client_def root(2) P line prompt_def)
qed

end
