(* ===== verification/Composite.thy ===== *)
theory Composite
  imports Client_Context
begin

text \<open>
  The example's node with a sum (\<open>example/composite.cpp\<close>, \<open>example/composite.h\<close>): its constructor, the
  handlers of its two parameters, and the invariant they keep.
\<close>

subsection \<open>The node that keeps a sum\<close>

text \<open>
  \<open>composite\<close>: a node with two integers clients may set and a third, their sum. The handlers of the
  two set the third, so they work on the tree and not on the state of the program only:
  \<open>set_verified\<close> is \<open>managed_readwrite_parameter::value\<close> with such a handler.
\<close>

record composite =
  composite_node :: addr
  summand1 :: addr
  summand2 :: addr
  sum_param :: addr

definition new_composite :: "'g signals \<Rightarrow> composite \<Rightarrow> string \<Rightarrow> addr option \<Rightarrow> (('e, 'g) world, unit) act" where
  "new_composite S c nm parent =
     st_then (new_node (composite_node c) nm parent Normal) (\<lambda>_.
     st_then (new_managed_readwrite S (summand1 c) ''summand1'' (Some (composite_node c)) (CInt True 32) none Normal Normal (VInt 0)) (\<lambda>_.
     st_then (new_managed_readwrite S (summand2 c) ''summand2'' (Some (composite_node c)) (CInt True 32) none Normal Normal (VInt 0)) (\<lambda>_.
     new_managed_readonly S (sum_param c) ''sum'' (Some (composite_node c)) (CInt True 32) none Normal (VInt 0))))"

text \<open>The sum of two \<open>int\<close>s; an overflow is undefined.\<close>

definition add_int :: "cval \<Rightarrow> cval \<Rightarrow> error + cval" where
  "add_int x y = (case (x, y) of
     (VInt i, VInt j) \<Rightarrow> if int_min True 32 \<le> i + j \<and> i + j \<le> int_max True 32 then Inr (VInt (i + j)) else Inl Undefined
   | _ \<Rightarrow> Inl Undefined)"

definition set_sum :: "'g signals \<Rightarrow> bool \<Rightarrow> composite \<Rightarrow> cval \<Rightarrow> cval \<Rightarrow> (('e, 'g) world, unit) act" where
  "set_sum S big c x y = (case add_int x y of Inl e \<Rightarrow> throw e | Inr s \<Rightarrow> managed_readonly_set S big (sum_param c) s)"

definition summand1_changing :: "'g signals \<Rightarrow> bool \<Rightarrow> composite \<Rightarrow> cval \<Rightarrow> (('e, 'g) world, unit) act" where
  "summand1_changing S big c v = st_then (param_value (summand2 c)) (\<lambda>y. set_sum S big c v y)"

definition summand2_changing :: "'g signals \<Rightarrow> bool \<Rightarrow> composite \<Rightarrow> cval \<Rightarrow> (('e, 'g) world, unit) act" where
  "summand2_changing S big c v = st_then (param_value (summand1 c)) (\<lambda>x. set_sum S big c x v)"

definition set_verified ::
  "'g signals \<Rightarrow> bool \<Rightarrow> addr \<Rightarrow> (cval \<Rightarrow> (('e, 'g) world, unit) act) \<Rightarrow> value_t \<Rightarrow> (('e, 'g) world, unit) act" where
  "set_verified S big a check g = st_then (get_leaf a) (\<lambda>l.
     case from_generic big (lhint l) (ltype l) g of
       Inl e \<Rightarrow> throw e
     | Inr v \<Rightarrow>
         (case kind l of
            Managed_readwrite old f \<Rightarrow>
              if cpp_eq old v then ret ()
              else st_then (check v) (\<lambda>_. st_then (upd_kind a (store_value v)) (\<lambda>_. emit S big a v))
          | _ \<Rightarrow> throw Undefined))"

text \<open>With a handler that works on the program's state it is the setter of the library.\<close>

lemma set_verified_library:
  assumes "leaf_at w a = Some l" "kind l = Managed_readwrite old f"
  shows "set_verified S big a (verify f) g w = set_generic_value S big a g w"
  using assms by (simp add: set_verified_def set_generic_value_def managed_readwrite_set_def get_leaf_at split: sum.split)

text \<open>A client sets one of the summands.\<close>

definition set_summand :: "'g signals \<Rightarrow> bool \<Rightarrow> composite \<Rightarrow> bool \<Rightarrow> value_t \<Rightarrow> (('e, 'g) world, unit) act" where
  "set_summand S big c first g =
     (if first then set_verified S big (summand1 c) (summand1_changing S big c) g
      else set_verified S big (summand2 c) (summand2_changing S big c) g)"

definition int_leaf :: "('e, 'g) world \<Rightarrow> addr \<Rightarrow> 'e kind \<Rightarrow> bool" where
  "int_leaf w a k \<longleftrightarrow> (\<exists>g. leaf_at w a = Some \<lparr>ltype = CInt True 32, lhint = none, kind = k, value_signal = g\<rparr>) \<and>
     fq_name (tree w) a \<noteq> None"

text \<open>Its three parameters exist, and the third is the sum of the others.\<close>

definition holds_sum :: "composite \<Rightarrow> ('e, 'g) world \<Rightarrow> bool" where
  "holds_sum c w \<longleftrightarrow> distinct [summand1 c, summand2 c, sum_param c] \<and>
     (\<exists>x y. int_leaf w (summand1 c) (Managed_readwrite (VInt x) None) \<and>
       int_leaf w (summand2 c) (Managed_readwrite (VInt y) None) \<and>
       int_leaf w (sum_param c) (Managed_readonly (VInt (x + y))) \<and>
       int_min True 32 \<le> x + y \<and> x + y \<le> int_max True 32)"

lemma int_to_generic:
  "int_min True 32 \<le> i \<Longrightarrow> i \<le> int_max True 32 \<Longrightarrow>
    to_generic big none (CInt True 32) (VInt i) = Inr (Scalar_t (Integer_t (word_of_int i)))"
  by (simp add: to_generic_def scalar_to_generic_def convert_lossless_integer_def int_min_def int_max_def)

lemma int_from_generic:
  "from_generic big none (CInt True 32) g = Inr v \<Longrightarrow> \<exists>i. v = VInt i \<and> int_min True 32 \<le> i \<and> i \<le> int_max True 32"
  using plain_value_type [of "CInt True 32" big g v]
  by (auto simp: from_generic_def width_ok_def split: cval.splits)

text \<open>Storing a number in one of the parameters and telling its subscribers.\<close>

lemma int_leaf_stored:
  assumes "int_leaf w a k" "int_min True 32 \<le> i" "i \<le> int_max True 32" "leaf_sig \<lparr>ltype = CInt True 32, lhint = none, kind = store_value (VInt i) k, value_signal = g0\<rparr> = leaf_sig \<lparr>ltype = CInt True 32, lhint = none, kind = k, value_signal = g0\<rparr>"
  shows "\<exists>w'. st_then (upd_kind a (store_value (VInt i))) (\<lambda>_. emit S big a (VInt i)) w = (Inr (), w') \<and>
    int_leaf w' a (store_value (VInt i) k) \<and> (\<forall>b k'. b \<noteq> a \<longrightarrow> int_leaf w b k' \<longrightarrow> int_leaf w' b k')"
proof -
  let ?l = "\<lambda>k g. \<lparr>ltype = CInt True 32, lhint = none, kind = k, value_signal = g\<rparr>"
  obtain g uri where l: "leaf_at w a = Some (?l k g)" and uri: "fq_name (tree w) a = Some uri"
    using assms(1) by (auto simp: int_leaf_def)
  let ?w = "set_leaf a (?l (store_value (VInt i) k) g) w"
  have o: "outline (tree ?w) = outline (tree w)"
    using assms(4) by (intro set_leaf_outline [OF l]) (simp add: leaf_sig_def)
  have n: "fq_name (tree ?w) b = fq_name (tree w) b" for b by (rule outline_fq_name [OF o])
  have l': "leaf_at ?w a = Some (?l (store_value (VInt i) k) g)" using l by (auto simp: leaf_at_Some)
  have u: "upd_kind a (store_value (VInt i)) w = (Inr (), ?w)" using upd_kind_at [OF l, of "store_value (VInt i)"] by simp
  obtain ds where e: "emit S big a (VInt i) ?w = (Inr (), ?w\<lparr>deliveries := ds\<rparr>)"
    using emit_at [OF l', of uri S big "VInt i"] n uri int_to_generic [OF assms(2,3)] by simp
  have "int_leaf (?w\<lparr>deliveries := ds\<rparr>) a (store_value (VInt i) k)" using l' n uri by (simp add: int_leaf_def)
  moreover have "int_leaf (?w\<lparr>deliveries := ds\<rparr>) b k'" if "b \<noteq> a" "int_leaf w b k'" for b k'
    using that n by (simp add: int_leaf_def)
  ultimately show ?thesis using u e by (auto simp: st_then_def)
qed

lemma set_sum_stored:
  assumes "int_leaf w (sum_param c) (Managed_readonly (VInt s))"
  shows "\<exists>r w'. set_sum S big c (VInt x) (VInt y) w = (r, w') \<and>
    (\<forall>b k. b \<noteq> sum_param c \<longrightarrow> int_leaf w b k \<longrightarrow> int_leaf w' b k) \<and>
    (if int_min True 32 \<le> x + y \<and> x + y \<le> int_max True 32
     then r = Inr () \<and> int_leaf w' (sum_param c) (Managed_readonly (VInt (x + y))) else r = Inl Undefined \<and> w' = w)"
proof (cases "int_min True 32 \<le> x + y \<and> x + y \<le> int_max True 32")
  case True
  obtain g where l: "leaf_at w (sum_param c) =
      Some \<lparr>ltype = CInt True 32, lhint = none, kind = Managed_readonly (VInt s), value_signal = g\<rparr>"
    using assms by (auto simp: int_leaf_def)
  show ?thesis
  proof (cases "s = x + y")
    case eq: True
    then show ?thesis using True l assms by (simp add: set_sum_def add_int_def managed_readonly_set_def get_leaf_at ret_def)
  next
    case False
    have "leaf_sig \<lparr>ltype = CInt True 32, lhint = none, kind = store_value (VInt (x + y)) (Managed_readonly (VInt s)), value_signal = g\<rparr> =
        leaf_sig \<lparr>ltype = CInt True 32, lhint = none, kind = Managed_readonly (VInt s), value_signal = g\<rparr>"
      by (simp add: leaf_sig_def)
    from int_leaf_stored [OF assms conjunct1 [OF True] conjunct2 [OF True] this, of S big] show ?thesis
      using True False l by (auto simp: set_sum_def add_int_def managed_readonly_set_def get_leaf_at)
  qed
qed (auto simp: set_sum_def add_int_def throw_def)


lemma int_leaf_value:
  assumes "int_leaf w a k"
  shows "\<exists>g. get_leaf a w = (Inr \<lparr>ltype = CInt True 32, lhint = none, kind = k, value_signal = g\<rparr>, w)"
  using assms get_leaf_at by (fastforce simp: int_leaf_def)

lemma set_verified_sum:
  assumes a: "int_leaf w a (Managed_readwrite (VInt x) None)" and b: "int_leaf w b (Managed_readwrite (VInt y) None)"
    and c: "int_leaf w (sum_param c) (Managed_readonly (VInt s))" and ab: "a \<noteq> b" "a \<noteq> sum_param c" "b \<noteq> sum_param c"
    and s: "s = x + y" "int_min True 32 \<le> x + y" "x + y \<le> int_max True 32"
    and check: "\<And>i. check (VInt i) w = set_sum S big c (VInt (p i)) (VInt (q i)) w" "\<And>i. p i + q i = i + y"
    and run: "set_verified S big a check g w = (r, w')"
  shows "\<exists>x'. int_leaf w' a (Managed_readwrite (VInt x') None) \<and> int_leaf w' b (Managed_readwrite (VInt y) None) \<and>
    int_leaf w' (sum_param c) (Managed_readonly (VInt (x' + y))) \<and> int_min True 32 \<le> x' + y \<and> x' + y \<le> int_max True 32 \<and>
    (r = Inr () \<longrightarrow> from_generic big none (CInt True 32) g = Inr (VInt x'))"
proof -
  obtain sg where l: "get_leaf a w = (Inr \<lparr>ltype = CInt True 32, lhint = none, kind = Managed_readwrite (VInt x) None, value_signal = sg\<rparr>, w)"
    using int_leaf_value [OF a] by blast
  show ?thesis
  proof (cases "from_generic big none (CInt True 32) g")
    case (Inl e)
    then show ?thesis using run l a b c s by (auto simp: set_verified_def throw_def)
  next
    case (Inr v)
    obtain i where v: "v = VInt i" "int_min True 32 \<le> i" "i \<le> int_max True 32" using int_from_generic [OF Inr] by blast
    show ?thesis
    proof (cases "i = x")
      case True
      then show ?thesis using run l a b c s Inr v by (auto simp: set_verified_def ret_def)
    next
      case False
      obtain r1 w1 where 1: "check (VInt i) w = (r1, w1)" "\<And>d k. d \<noteq> sum_param c \<Longrightarrow> int_leaf w d k \<Longrightarrow> int_leaf w1 d k"
        "if int_min True 32 \<le> i + y \<and> i + y \<le> int_max True 32
         then r1 = Inr () \<and> int_leaf w1 (sum_param c) (Managed_readonly (VInt (i + y))) else r1 = Inl Undefined \<and> w1 = w"
        using set_sum_stored [OF c, of S big "p i" "q i"] unfolding check(2) check(1) [symmetric] by blast
      have run1: "set_verified S big a check g w =
          st_then (check (VInt i)) (\<lambda>_. st_then (upd_kind a (store_value (VInt i))) (\<lambda>_. emit S big a (VInt i))) w"
        using l Inr v False by (simp add: set_verified_def)
      show ?thesis
      proof (cases "int_min True 32 \<le> i + y \<and> i + y \<le> int_max True 32")
        case True
        then have r1: "r1 = Inr ()" "int_leaf w1 (sum_param c) (Managed_readonly (VInt (i + y)))" using 1(3) by simp_all
        have "int_leaf w1 a (Managed_readwrite (VInt x) None)" "int_leaf w1 b (Managed_readwrite (VInt y) None)"
          using 1(2) a b ab by simp_all
        moreover from int_leaf_stored [OF this(1) v(2,3), of sg S big] obtain w2 where
          2: "st_then (upd_kind a (store_value (VInt i))) (\<lambda>_. emit S big a (VInt i)) w1 = (Inr (), w2)"
            "int_leaf w2 a (Managed_readwrite (VInt i) None)" "\<And>d k. d \<noteq> a \<Longrightarrow> int_leaf w1 d k \<Longrightarrow> int_leaf w2 d k"
          by (auto simp: leaf_sig_def)
        moreover have "w' = w2" using run run1 1(1) r1(1) 2(1) by simp
        ultimately show ?thesis using True Inr v(1) r1(2) ab by (intro exI [of _ i]) auto
      next
        case False
        then have "r = Inl Undefined" "w' = w" using run run1 1 by auto
        then show ?thesis using a b c s by auto
      qed
    qed
  qed
qed



definition sample_composite :: composite where
  "sample_composite = \<lparr>composite_node = 10, summand1 = 11, summand2 = 12, sum_param = 13\<rparr>"

definition sample_int :: "string \<Rightarrow> userlevel \<Rightarrow> nat kind \<Rightarrow> (nat, (connection \<times> slot) list) leaf object" where
  "sample_int nm wl k = \<lparr>oname = nm, oparent = Some 10, oreadlevel = Normal, owritelevel = wl,
     klass = Leaf_k \<lparr>ltype = CInt True 32, lhint = none, kind = k, value_signal = []\<rparr>\<rparr>"

definition composite_world :: "(nat, (connection \<times> slot) list) world" where
  "composite_world = (sample_world (Event None))\<lparr>tree := (tree (sample_world (Event None)))
     (0 \<mapsto> \<lparr>oname = ''root'', oparent = None, oreadlevel = Normal, owritelevel = Forbidden,
              klass = Dictionary_k [1, 10] None []\<rparr>,
      10 \<mapsto> \<lparr>oname = ''composite'', oparent = Some 0, oreadlevel = Normal, owritelevel = Forbidden,
              klass = Node_k [11, 12, 13]\<rparr>,
      11 \<mapsto> sample_int ''summand1'' Normal (Managed_readwrite (VInt 0) None),
      12 \<mapsto> sample_int ''summand2'' Normal (Managed_readwrite (VInt 0) None),
      13 \<mapsto> sample_int ''sum'' Forbidden (Managed_readonly (VInt 0)))\<rparr>"

text \<open>The constructor establishes the invariant.\<close>

lemma sample_composite_built:
  "new_composite list_signals sample_composite ''composite'' (Some 0) (sample_world (Event None)) = (Inr (), composite_world)"
  by (simp add: new_composite_def new_node_def new_managed_readwrite_def new_managed_readonly_def new_parameter_def on_tree_def
      new_object_def add_child_def sample_world_def sample_composite_def deref_def composite_world_def sample_int_def
      userlevel_defs children_of_def set_children_def set_parent_def modify_def list_signals_def remove_child_def fun_upd_twist)

lemma sample_composite_sum: "holds_sum sample_composite composite_world"
  by (simp add: holds_sum_def sample_composite_def composite_world_def int_leaf_def leaf_at_def sample_int_def sample_world_def
      fq_name.simps int_min_def int_max_def)


end
