(* ===== verification/Application.thy ===== *)
theory Application
  imports Server_Levels Server_Delivery Composite
begin

text \<open>
  The example program (\<open>example/application.cpp\<close>): the callback that grants userlevels, the servers
  it runs, and its dictionary. What holds for every program is stated for this one: who gets which
  userlevel, and that it starts in a state for which the guarantees about the servers hold.
\<close>

subsection \<open>Userlevels and servers\<close>

text \<open>The callback installed by \<open>application::run\<close>.\<close>

definition application_userlevel :: "client \<Rightarrow> userlevel \<Rightarrow> string \<Rightarrow> ('e, bool) handler" where
  "application_userlevel context level passwd e =
     (Inr (if level = Normal \<or> level = Readonly then True
           else if level = Maintenance \<and> passwd = ''maintenance'' then True
           else if level = Service \<and> passwd = ''service'' then True
           else if level = Internal \<and> passwd = ''internal'' then True
           else False), e)"

text \<open>
  \<open>application::run\<close>: the callback is installed, three servers with the default level and the
  polling timer are started, and the event loop runs.
\<close>

definition application :: "('e, 'g) program \<Rightarrow> ('e, 'g) program" where
  "application P = P\<lparr>cli := (cli P)\<lparr>callbacks := install_userlevel_callback application_userlevel (callbacks (cli P))\<rparr>\<rparr>"

definition new_server :: "context_type \<Rightarrow> userlevel \<Rightarrow> generic_tcp_server" where
  "new_server t ul = \<lparr>context_type = t, server_userlevel = ul, acceptor_open = True, accepting = False\<rparr>"

definition application_servers :: "generic_tcp_server list" where
  "application_servers = [new_server Clisrv Normal, new_server Pubsub Normal, new_server Scgi Normal]"

definition application_run ::
  "('e, 'g) program \<Rightarrow> ('e, 'g) system_event list \<Rightarrow> ('e, 'g) world \<Rightarrow> ('e, 'g) system" where
  "application_run P evs w = system_run (application P) evs (new_system w application_servers)"

text \<open>\<open>text\<close> is what has been sent; the level comes from the server, is open to everybody, or its password was sent.\<close>

definition may_have :: "userlevel \<Rightarrow> string \<Rightarrow> bool" where
  "may_have level heard_text \<longleftrightarrow> level = Normal \<or> level = Readonly \<or>
     level = Maintenance \<and> sublist ''maintenance'' heard_text \<or>
     level = Service \<and> sublist ''service'' heard_text \<or>
     level = Internal \<and> sublist ''internal'' heard_text"

lemma granted_may_have:
  "granted (install_userlevel_callback application_userlevel cb) heard_text level \<Longrightarrow> may_have level heard_text"
  by (auto simp: granted_def install_userlevel_callback_def application_userlevel_def may_have_def split: if_splits)

text \<open>
  C5. In the example program nobody has a privileged userlevel without its password: whatever the
  clients send and whatever else happens, a connection whose level is Maintenance, Service or
  Internal is one of the command line protocols and has sent \<open>maintenance\<close>, \<open>service\<close> or
  \<open>internal\<close> respectively.
\<close>

theorem application_privileges:
  assumes "starts (application P) w application_servers" and "one_program (application P)"
    and "peers (application_run P evs w) a = Some p"
  shows "may_have (cul (client_of p)) (heard (application P) a evs (new_system w application_servers)) \<and>
    (type_of_peer p = Scgi \<longrightarrow> cul (client_of p) = Normal)"
proof -
  have "callbacks (cli (application P)) = install_userlevel_callback application_userlevel (callbacks (cli P))"
    by (simp add: application_def)
  moreover have "server_gives application_servers q \<Longrightarrow> cul (client_of q) = Normal" for q :: "('a, 'b) peer"
    by (auto simp: server_gives_def application_servers_def new_server_def)
  ultimately show ?thesis
    using entitled_run [OF assms(1,2) assms(3) [unfolded application_run_def]] granted_may_have
    by (auto simp: entitled_def may_have_def)
qed

text \<open>A connection to the command line that asks for the level Service with its password.\<close>

definition service_events :: "(nat, (connection \<times> slot) list) system_event list" where
  "service_events = [Accepted 0 None 20 100, Clisrv_socket 20 Written,
     Clisrv_socket 20 (Arrived (''exec change-ul 1 service'' @ [CHR 0x0A])), Clisrv_socket 20 (Received 99)]"

lemma application_starts: "starts (application sample_program) (sample_world k) application_servers" "one_program (application sample_program)"
  using sample_starts(1) [of k] sample_starts(2)
  by (simp_all add: starts_def one_program_def application_def application_servers_def new_server_def sample_servers_def)


lemma service_request:
  "read_word (trim_if is_bracket_or_space (''exec change-ul 1 service'' @ [CHR 0x0A])) = (''exec'', '' change-ul 1 service'')"
  "read_word '' change-ul 1 service'' = (''change-ul'', '' 1 service'')"
  "read_userlevel '' 1 service'' = (1, ''service'')"
  by (simp_all add: read_word_def trim_if_def is_space_def is_bracket_or_space_def Let_def read_userlevel_def read_int_def is_digit_def read_digits_def digit_value_def INT_MAX_def INT_MIN_def)


lemma change_ul_granted:
  assumes "userlevel_cb (callbacks E) (fst cw) ul pw (app (snd cw)) = (Inr True, e)" "read_userlevel tail = (ul, pw)"
    "Minimum \<le> ul" "ul \<le> Maximum"
  shows "\<exists>out'. change_ul E tail (cw, out) = (Inr (), (((fst cw)\<lparr>cul := ul\<rparr>, (snd cw)\<lparr>app := e\<rparr>), out'))"
  using assms by (cases cw) (simp add: change_ul_def with_client_def on_fst_def on_world_def run_handler_def on_client_def
      set_userlevel_def print_userlevel_def write_out_def userlevel_defs split: prod.split)

lemma service_granted:
  fixes E :: "('e, 'g) cli_env"
  assumes "userlevel_cb (callbacks E) = application_userlevel"
  shows "\<exists>out'. process_request E (''exec change-ul 1 service'' @ [CHR 0x0A]) ((c, w), out) = (Inr (), ((c\<lparr>cul := Service\<rparr>, w), out'))"
proof -
  let ?t = "trim_if is_bracket_or_space (''exec change-ul 1 service'' @ [CHR 0x0A])"
  have "userlevel_cb (callbacks E) c 1 ''service'' (app w) = (Inr True, app w)"
    by (simp add: assms application_userlevel_def userlevel_defs)
  then obtain o1 where c: "change_ul E '' 1 service'' ((c, w), new_ostream out) = (Inr (), ((c\<lparr>cul := 1\<rparr>, w), o1))"
    using change_ul_granted [of E "(c, w)" 1 "''service''" "app w" "'' 1 service''" "new_ostream out"] service_request(3)
    by (auto simp: userlevel_defs)
  have "run_request E r ?t ((c, w), new_ostream out) = (Inr (), ((c\<lparr>cul := 1\<rparr>, w), o1))" for r
    unfolding run_request_def Let_def service_request prod.case by (simp add: to_lower_def strip_quote_def c)
  moreover have "?t \<noteq> []" by (simp add: trim_if_def is_bracket_or_space_def is_space_def)
  ultimately show ?thesis
    unfolding process_request_def Let_def by (simp add: report_def write_out_def userlevel_defs)
qed


text \<open>A handler that leaves the world alone changes only its connection.\<close>

lemma quiet_step:
  assumes "peers sys a = Some (Clisrv_peer st)" "failure sys = None"
    and "clisrv_event (clisrv_env P a) ev (st\<lparr>serves := (fst (serves st), world sys)\<rparr>) = st'"
    and "snd (serves st') = world sys" "peer_failure (Clisrv_peer st') = None"
  shows "system_step P (Clisrv_socket a ev) sys = sys\<lparr>peers := (peers sys)(a \<mapsto> Clisrv_peer st')\<rparr>"
  using assms by (simp add: system_step_def run_peer_def publish_def)

lemma service_run:
  "\<exists>st. peers (application_run sample_program service_events (sample_world (Event None))) 20 = Some (Clisrv_peer st) \<and>
    cul (fst (serves st)) = Service"
proof -
  let ?P = "application sample_program" and ?w = "sample_world (Event None) :: (nat, (connection \<times> slot) list) world"
  let ?E = "clisrv_env ?P 20" and ?s = "''exec change-ul 1 service''"
  let ?sys0 = "new_system ?w application_servers"
  let ?st = "\<lambda>out p wr sn. \<lparr>serves = (new_client 20 Normal, ?w), clisrv_context.inbuf = [], clisrv_context.outbuf = out,
      clisrv_context.pending = p, clisrv_context.wire = wr, clisrv_context.sent = sn\<rparr>"
  have cb: "connect_event_cb (callbacks ?E) = None" "userlevel_cb (callbacks ?E) = application_userlevel"
    by (simp_all add: clisrv_env_def pubsub_env_at_def application_def sample_program_def sample_pubsub_env_def
        cli_env.truncate_def install_userlevel_callback_def initial_callbacks_def)
  then have new: "new_peer ?P Clisrv 20 Normal 100 ?w = Inr (Clisrv_peer (?st banner Write_pending [] []))"
    by (simp add: new_peer_def new_clisrv_context_def tell_connection_def ret_def preload_def)
  have "\<exists>s. system_step ?P (Accepted 0 None 20 100) ?sys0 = s\<lparr>peers := [20 \<mapsto> Clisrv_peer (?st banner Write_pending [] [])]\<rparr> \<and>
      failure s = None \<and> world s = ?w"
    by (rule exI [of _ "system_step ?P (Accepted 0 None 20 100) ?sys0"])
      (use new in \<open>simp add: system_step_def new_system_def preload_timer_def preload_server_def async_accept_def
        application_servers_def new_server_def accept_handler_def publish_def sample_program_def application_def\<close>)
  then obtain s where 1: "system_step ?P (Accepted 0 None 20 100) ?sys0 = s\<lparr>peers := [20 \<mapsto> Clisrv_peer (?st banner Write_pending [] [])]\<rparr>"
    "failure s = None" "world s = ?w" by blast
  let ?sys1 = "\<lambda>st. s\<lparr>peers := [20 \<mapsto> Clisrv_peer st]\<rparr>"
  have w1: "clisrv_event E Written (?st b Write_pending [] []) = ?st [] Read_pending [] b" for E b
    by (simp add: write_handler_def)
  have w2: "clisrv_event E (Arrived t) (?st [] Read_pending [] b) = ?st [] Read_pending t b" for E t b
    by simp
  note w = w1 w2
  have 2: "system_step ?P (Clisrv_socket 20 Written) (?sys1 (?st banner Write_pending [] [])) = ?sys1 (?st [] Read_pending [] banner)"
    by (rule quiet_step [where st = "?st banner Write_pending [] []", THEN trans]) (simp_all add: 1(2,3) w del: clisrv_event.simps)
  have 3: "system_step ?P (Clisrv_socket 20 (Arrived (?s @ [CHR 0x0A]))) (?sys1 (?st [] Read_pending [] banner)) =
      ?sys1 (?st [] Read_pending (?s @ [CHR 0x0A]) banner)"
    by (rule quiet_step [where st = "?st [] Read_pending [] banner", THEN trans]) (simp_all add: 1(2,3) w del: clisrv_event.simps)
  obtain out where out: "process_request ?E (?s @ [CHR 0x0A]) ((new_client 20 Normal, ?w), []) =
      (Inr (), (((new_client 20 Normal)\<lparr>cul := Service\<rparr>, ?w), out))"
    using service_granted [OF cb(2)] by blast
  have 4: "clisrv_event ?E (Received 99) (?st [] Read_pending (?s @ [CHR 0x0A]) banner) =
      (?st out Write_pending [] banner)\<lparr>serves := ((new_client 20 Normal)\<lparr>cul := Service\<rparr>, ?w)\<rparr>"
    using out by (simp add: upto_newline_def read_handler_def)
  have 5: "system_step ?P (Clisrv_socket 20 (Received 99)) (?sys1 (?st [] Read_pending (?s @ [CHR 0x0A]) banner)) =
      ?sys1 ((?st out Write_pending [] banner)\<lparr>serves := ((new_client 20 Normal)\<lparr>cul := Service\<rparr>, ?w)\<rparr>)"
    by (rule quiet_step [where st = "?st [] Read_pending (?s @ [CHR 0x0A]) banner", THEN trans]) (simp_all add: 1(2,3) 4 [unfolded append.simps] del: clisrv_event.simps)
  have 0: "failure ?sys0 = None" by (simp add: new_system_def preload_timer_def)
  show ?thesis
    by (simp add: 1(2) application_run_def service_events_def system_run_def 0 1(1) 2 3 [unfolded append.simps] 5 [unfolded append.simps])
qed

theorem application_privileges_witness:
  "\<exists>st. peers (application_run sample_program service_events (sample_world (Event None))) 20 = Some (Clisrv_peer st) \<and>
    cul (fst (serves st)) = Service \<and>
    may_have Service (heard (application sample_program) 20 service_events (new_system (sample_world (Event None)) application_servers))"
proof -
  from service_run obtain st where st: "peers (application_run sample_program service_events (sample_world (Event None))) 20 = Some (Clisrv_peer st)"
    "cul (fst (serves st)) = Service" by blast
  from application_privileges [OF application_starts st(1)] st show ?thesis by auto
qed


subsection \<open>The object dictionary\<close>

text \<open>
  What the handlers of the example's parameters use of the platform: the standard output, the state
  of the event loop, a file that may not be writable, and the time as \<open>strftime\<close> writes it.
\<close>

record platform =
  cout :: string
  io_stopped :: bool
  data_file :: string
  data_writable :: bool
  local_time :: string

definition print_line :: "string \<Rightarrow> platform \<Rightarrow> platform" where
  "print_line s p = p\<lparr>cout := cout p @ s @ [CHR 0x0A]\<rparr>"

definition enabled_verify :: "cval \<Rightarrow> (platform, unit) handler" where
  "enabled_verify v p = (case v of
     VString s \<Rightarrow>
       if s \<noteq> ''true'' \<and> s \<noteq> ''false'' then (Inl (Runtime invalid_value_error), p)
       else (Inr (), print_line (''my_managed_readwrite_parameter was changed to '' @ s) p)
   | _ \<Rightarrow> (Inl Undefined, p))"

definition time_value :: "(platform, cval) handler" where
  "time_value p = (Inr (VString (local_time p)), p)"

definition exit_signal :: "(platform, unit) handler" where
  "exit_signal p = (Inr (), p\<lparr>io_stopped := True\<rparr>)"

definition cout_value :: "cval \<Rightarrow> (platform, unit) handler" where
  "cout_value v p = (case v of VString s \<Rightarrow> (Inr (), print_line s p) | _ \<Rightarrow> (Inl Undefined, p))"

definition cout_tuple_value :: "cval \<Rightarrow> (platform, unit) handler" where
  "cout_tuple_value v p = (case v of
     VList [VBool b, VInt i, VFloat r, VString s] \<Rightarrow>
       (Inr (), print_line (''String value: '' @ s) (print_line (''Real value: '' @ show_double 6 (double_of_float r))
         (print_line (''Integer value: '' @ show_int i) (print_line (''Boolean value: '' @ (if b then ''1'' else ''0'')) p))))
   | _ \<Rightarrow> (Inl Undefined, p))"

definition ip_address_set :: "cval \<Rightarrow> (platform, bool) handler" where
  "ip_address_set v p = (case v of
     VString s \<Rightarrow> if \<not> data_writable p then (Inr False, p) else (Inr True, p\<lparr>data_file := s\<rparr>)
   | _ \<Rightarrow> (Inl Undefined, p))"

definition ip_address_get :: "(platform, cval) handler" where
  "ip_address_get p = (Inr (VString (takeWhile (\<lambda>c. c \<noteq> CHR 0x0A) (data_file p))), p)"

text \<open>
  The objects in the order of their definitions, at the addresses 0 to 31. Handlers work on the
  platform only, so two of them are arguments: what the parameter \<open>endpoint\<close> shows, as it asks the
  dictionary for its current context, and what the event of the background worker starts.
\<close>

definition with_handler :: "(('e, 'g) world, unit) act \<Rightarrow> addr \<Rightarrow> ('e kind \<Rightarrow> 'e kind) \<Rightarrow> (('e, 'g) world, unit) act" where
  "with_handler create a f = st_then create (\<lambda>_. set_handlers a f)"

definition int_type :: ctype where "int_type = CInt True 32"

definition comp_node :: composite where
  "comp_node = \<lparr>composite_node = 25, summand1 = 26, summand2 = 27, sum_param = 28\<rparr>"

definition background_worker :: "'g signals \<Rightarrow> addr \<Rightarrow> addr \<Rightarrow> addr \<Rightarrow> string \<Rightarrow> addr option \<Rightarrow> ('e, unit) handler \<Rightarrow> (('e, 'g) world, unit) act" where
  "background_worker S worker ev rdy nm parent start =
     st_then (new_node worker nm parent Normal) (\<lambda>_.
     st_then (new_event S ev ''start'' (Some worker) Normal (Some start)) (\<lambda>_.
     new_managed_readonly S rdy ''ready'' (Some worker) CBool none Normal (VBool False)))"

definition obj_dict ::
  "'g signals \<Rightarrow> (platform, cval) handler \<Rightarrow> (platform, unit) handler \<Rightarrow> ((platform, 'g) world, unit) act" where
  "obj_dict S endpoint start = each (\<lambda>create. create)
     [on_tree (new_dictionary 0 ''example''),
      with_handler (new_managed_readwrite S 1 ''enabled'' (Some 0) CString none Normal Normal (VString ''false''))
        1 (verify_handler (Some enabled_verify)),
      new_managed_readonly S 2 ''spin-count'' (Some 0) (CInt True 64) none Normal (VInt 0),
      new_node 3 ''current-context'' (Some 0) Normal,
      with_handler (new_external_readonly S 4 ''endpoint'' (Some 3) CString none Normal) 4 (external_value_handler (Some endpoint)),
      new_node 5 ''subnode'' (Some 0) Normal,
      with_handler (new_external_readonly S 6 ''time'' (Some 5) CString none Normal) 6 (external_value_handler (Some time_value)),
      new_managed_readwrite S 7 ''leaf2'' (Some 5) (CSequence CString) none Normal Normal
        (VList [VString ''value1'', VString ''value2'', VString ''value3'']),
      with_handler (with_handler (new_external_readwrite S 8 ''ip-address'' (Some 5) CString none Normal Normal)
        8 (external_value_set_handler (Some ip_address_set))) 8 (external_value_get_handler (Some ip_address_get)),
      new_managed_readwrite S 9 ''boolean'' (Some 5) CBool none Normal Normal (VBool False),
      new_managed_readwrite S 10 ''integer'' (Some 5) (CInt False 16) none Normal Normal (VInt 0),
      new_managed_readwrite S 11 ''real'' (Some 5) CFloat none Normal Normal (VFloat 0),
      new_managed_readwrite S 12 ''string'' (Some 5) CString none Normal Normal (VString []),
      new_managed_readwrite S 13 ''binary'' (Some 5) CString binary Normal Normal (VString []),
      new_managed_readwrite S 14 ''boolean_seq'' (Some 5) (CSequence CBool) none Normal Normal (VList []),
      new_managed_readwrite S 15 ''integer_seq'' (Some 5) (CSequence int_type) none Normal Normal (VList []),
      new_managed_readwrite S 16 ''real_seq'' (Some 5) (CSequence CFloat) none Normal Normal (VList []),
      new_managed_readwrite S 17 ''string_seq'' (Some 5) (CSequence CString) none Normal Normal (VList []),
      new_node 18 ''tuples'' (Some 0) Normal,
      new_managed_readwrite S 19 ''scalar_tuple'' (Some 18) (CTuple [CBool, int_type, CFloat, CString]) none Normal Normal
        (VList [VBool False, VInt 0, VFloat 0, VString []]),
      new_node 20 ''events'' (Some 0) Normal,
      new_event S 21 ''exit'' (Some 20) Normal (Some exit_signal),
      new_node 22 ''writeonly'' (Some 0) Normal,
      with_handler (new_writeonly S 23 ''string'' (Some 22) CString none Normal) 23 (value_handler (Some cout_value)),
      with_handler (new_writeonly S 24 ''tuple'' (Some 22) (CTuple [CBool, int_type, CFloat, CString]) none Normal)
        24 (value_handler (Some cout_tuple_value)),
      new_composite S comp_node ''composite'' (Some 0),
      background_worker S 29 30 31 ''background_work'' (Some 0) start]"

definition empty_world :: "'e \<Rightarrow> ('e, 'g) world" where
  "empty_world e = \<lparr>tree = Map.empty, app = e, deliveries = []\<rparr>"

text \<open>Creating an object changes no other but for its list of children, and gives the new one its class.\<close>

lemma modify_frame:
  assumes "modify a f h = Inr h'"
    and "\<And>ob. (f ob)\<lparr>oparent := None, klass := with_children [] (klass (f ob))\<rparr> = ob\<lparr>oparent := None, klass := with_children [] (klass ob)\<rparr>"
  shows "frame h' = frame h"
proof -
  obtain ob where "h a = Some ob" "h' = h(a \<mapsto> f ob)" using assms(1) by (auto simp: modify_def split: option.splits)
  then show ?thesis by (simp add: frame_def fun_eq_iff assms(2))
qed

lemma links_frame: "set_parent c q h = Inr h' \<Longrightarrow> frame h' = frame h" "set_children p cs h = Inr h' \<Longrightarrow> frame h' = frame h"
  unfolding set_parent_def set_children_def by (erule modify_frame; simp)+

lemma remove_child_frame: "remove_child p c h = Inr h' \<Longrightarrow> frame h' = frame h"
  by (auto simp: remove_child_def and_then_eq_Inr split: option.splits if_splits dest!: links_frame)

lemma add_child_frame: "add_child p c h = Inr h' \<Longrightarrow> frame h' = frame h"
  by (auto simp: add_child_def and_then_eq_Inr split: option.splits dest!: links_frame remove_child_frame)

lemma new_object_frame:
  assumes "new_object a nm parent rl wl k h = Inr h'"
  shows "frame h' a = Some \<lparr>oname = nm, oparent = None, oreadlevel = rl, owritelevel = wl, klass = with_children [] k\<rparr>"
proof -
  let ?h = "h(a \<mapsto> \<lparr>oname = nm, oparent = parent, oreadlevel = rl, owritelevel = wl, klass = k\<rparr>)"
  have "frame h' = frame ?h"
    using assms add_child_frame by (auto simp: new_object_def Let_def split: if_splits option.splits)
  then show ?thesis by (simp add: frame_def)
qed

text \<open>A tree in the making: which objects there are, which of them are nodes, and no signal connected.\<close>

definition stage :: "'g signals \<Rightarrow> addr set \<Rightarrow> addr set \<Rightarrow> ('e, 'g) world \<Rightarrow> bool" where
  "stage S D N w \<longleftrightarrow> tree_ok (tree w) \<and> dom (tree w) = D \<and> (\<forall>a. is_node (tree w) a \<longleftrightarrow> a \<in> N) \<and> idle 0 w \<and>
     (\<forall>a. slots_at S (tree w) a = [])"

definition makes ::
  "'g signals \<Rightarrow> (('e, 'g) world, unit) act \<Rightarrow> addr set \<Rightarrow> addr set \<Rightarrow> addr set \<Rightarrow> addr set \<Rightarrow> bool" where
  "makes S f D N D' N' \<longleftrightarrow> (\<forall>w. stage S D N w \<longrightarrow> (\<exists>w'. f w = (Inr (), w') \<and> stage S D' N' w'))"

named_theorems makes_intros \<open>how the constructors extend the tree\<close>

text \<open>What the frame of an object tells.\<close>

lemma frame_node: "is_node h a \<longleftrightarrow> (\<exists>ob. frame h a = Some ob \<and> klass_children (klass ob) \<noteq> None)"
proof (cases "h a")
  case (Some ob)
  then show ?thesis by (cases "klass ob") (simp_all add: is_node_def children_of_def frame_def)
qed (simp add: is_node_def children_of_def frame_def)

lemma frame_slots: "slots_at S h a = (case frame h a of None \<Rightarrow> [] | Some ob \<Rightarrow>
    (case klass ob of Leaf_k l \<Rightarrow> sig_slots S (value_signal l) | _ \<Rightarrow> []))"
proof (cases "h a")
  case (Some ob)
  then show ?thesis by (cases "klass ob") (simp_all add: slots_at_def frame_def)
qed (simp add: slots_at_def frame_def)

lemma frame_idle: "idle d w \<longleftrightarrow> (\<exists>ob ts. frame (tree w) d = Some ob \<and> klass ob = Dictionary_k [] None ts)"
proof (cases "tree w d")
  case (Some ob)
  then show ?thesis by (cases "klass ob") (auto simp: idle_def frame_def)
qed (simp add: idle_def frame_def)

lemma stage_object:
  assumes "stage S D N w" "a \<notin> D" "p \<in> N" "rl \<noteq> Readonly" "wl \<noteq> Readonly"
    and "k = Node_k [] \<and> N' = insert a N \<or> (\<exists>l. k = Leaf_k l \<and> sig_slots S (value_signal l) = []) \<and> N' = N"
  shows "\<exists>w'. on_tree (new_object a nm (Some p) rl wl k) w = (Inr (), w') \<and> stage S (insert a D) N' w'"
proof -
  have w: "tree_ok (tree w)" "tree w a = None" "\<exists>cs. children_of (tree w) p = Some cs"
    using assms(1-3) by (auto simp: stage_def is_node_def domIff)
  have k: "klass_children k = None \<or> klass_children k = Some []" using assms(6) by auto
  obtain h where h: "new_object a nm (Some p) rl wl k (tree w) = Inr h" "tree_ok h" "dom h = insert a (dom (tree w))"
    "\<And>x. x \<noteq> a \<Longrightarrow> frame h x = frame (tree w) x"
    using new_object_tree_ok [OF w(1,2) assms(4,5) k, of "Some p" nm] w(3) by auto
  note a = new_object_frame [OF h(1)]
  have nodes: "is_node h x \<longleftrightarrow> x \<in> N'" for x
    using assms(1,2,6) a h(4) [of x] frame_node [of h x] frame_node [of "tree w" x]
    by (cases "x = a") (auto simp: stage_def is_node_def dest: children_of_dom)
  have "0 \<noteq> a" using assms(1,2) by (auto simp: stage_def idle_def)
  then have "idle 0 (w\<lparr>tree := h\<rparr>)" using assms(1) h(4) [of 0] by (simp add: stage_def frame_idle)
  moreover have "slots_at S h x = []" for x
    using assms(1,6) a h(4) [of x] frame_slots [of S h x] frame_slots [of S "tree w" x]
    by (cases "x = a") (auto simp: stage_def)
  ultimately have "stage S (insert a D) N' (w\<lparr>tree := h\<rparr>)"
    using h assms(1) nodes by (simp add: stage_def)
  then show ?thesis using h(1) by (simp add: on_tree_def)
qed

lemma makes_node [makes_intros]:
  "a \<notin> D \<Longrightarrow> p \<in> N \<Longrightarrow> makes S (new_node a nm (Some p) Normal) D N (insert a D) (insert a N)"
  unfolding makes_def new_node_def by (intro allI impI stage_object) (simp_all add: userlevel_defs)

lemma makes_parameter:
  assumes "signals_ok S" "a \<notin> D" "p \<in> N" "rl \<noteq> Readonly" "wl \<noteq> Readonly"
  shows "makes S (new_parameter S a nm (Some p) t hint rl wl k) D N (insert a D) N"
  using assms unfolding makes_def new_parameter_def by (intro allI impI stage_object) (auto simp: signals_ok_def)

lemma makes_parameters [makes_intros]:
  assumes "signals_ok S" "a \<notin> D" "p \<in> N"
  shows "makes S (new_managed_readonly S a nm (Some p) t hint Normal v) D N (insert a D) N"
    "makes S (new_managed_readwrite S a nm (Some p) t hint Normal Normal v) D N (insert a D) N"
    "makes S (new_external_readonly S a nm (Some p) t hint Normal) D N (insert a D) N"
    "makes S (new_external_readwrite S a nm (Some p) t hint Normal Normal) D N (insert a D) N"
    "makes S (new_writeonly S a nm (Some p) t hint Normal) D N (insert a D) N"
    "makes S (new_event S a nm (Some p) Normal f) D N (insert a D) N"
  unfolding new_managed_readonly_def new_managed_readwrite_def new_external_readonly_def new_external_readwrite_def
    new_writeonly_def new_event_def
  by (intro makes_parameter assms; simp add: userlevel_defs)+

lemma makes_handler [makes_intros]:
  fixes create :: "(('e, 'g) world, unit) act"
  assumes "makes S create D N D' N'" "b \<in> D'"
  shows "makes S (with_handler create b f) D N D' N'"
  unfolding makes_def
proof (intro allI impI)
  fix w :: "('e, 'g) world"
  assume "stage S D N w"
  then obtain w1 where 1: "create w = (Inr (), w1)" "stage S D' N' w1" using assms(1) by (auto simp: makes_def)
  obtain w2 where 2: "set_handlers b f w1 = (Inr (), w2)"
    using 1(2) assms(2) by (auto simp: set_handlers_def upd_kind_def upd_leaf_def on_tree_def modify_def stage_def)
  obtain h where h: "modify b (\<lambda>ob. case klass ob of Leaf_k l \<Rightarrow> ob\<lparr>klass := Leaf_k (l\<lparr>kind := f (kind l)\<rparr>)\<rparr> | _ \<Rightarrow> ob) (tree w1) = Inr h"
    "w2 = w1\<lparr>tree := h\<rparr>"
    using 2 by (auto simp: set_handlers_def upd_kind_def upd_leaf_def on_tree_def split: sum.splits)
  have "parent_of h = parent_of (tree w1) \<and> children_of h = children_of (tree w1) \<and> dom h = dom (tree w1)"
    by (rule modify_links [OF h(1)]) (auto split: klass.split)
  then have links: "tree_ok h = tree_ok (tree w1)" "dom h = dom (tree w1)" "is_node h = is_node (tree w1)"
    using tree_ok_cong by (auto simp: is_node_def fun_eq_iff)
  have "slots_at S (tree w2) = slots_at S (tree w1)"
    using keeps_slots_kind [of S b f] 2 by (auto simp: keeps_slots_def set_handlers_def) (metis snd_conv)
  moreover have "idle 0 w1 \<Longrightarrow> idle 0 w2"
    using keeps_dict_upd_kind [of b f, unfolded keeps_dict_def, rule_format, of 0 w1] 2 by (simp add: set_handlers_def)
  ultimately have "stage S D' N' w2" using 1(2) links h(2) by (simp add: stage_def)
  then show "\<exists>w'. with_handler create b f w = (Inr (), w') \<and> stage S D' N' w'"
    using 1 2 by (simp add: with_handler_def)
qed

lemma makes_Nil: "makes S (each (\<lambda>create. create) []) D N D N"
  by (simp add: makes_def ret_def)

lemma makes_Cons:
  assumes "makes S f D N D1 N1" "makes S (each (\<lambda>create. create) fs) D1 N1 D2 N2"
  shows "makes S (each (\<lambda>create. create) (f # fs)) D N D2 N2"
  using assms unfolding makes_def by fastforce

lemma makes_then:
  assumes "makes S f D N D1 N1" "makes S g D1 N1 D2 N2"
  shows "makes S (st_then f (\<lambda>_. g)) D N D2 N2"
  using assms unfolding makes_def by fastforce

lemma dictionary_stage: "\<exists>d. on_tree (new_dictionary 0 nm) (empty_world e) = (Inr (), d) \<and> stage S {0} {0} d"
proof -
  let ?h = "[0 \<mapsto> \<lparr>oname = nm, oparent = None, oreadlevel = Normal, owritelevel = Forbidden, klass = Dictionary_k [] None []\<rparr>]"
  have d: "new_dictionary 0 nm (\<lambda>x. None) = Inr ?h" by (simp add: new_dictionary_def new_object_def userlevel_defs)
  have "tree_ok ?h"
    by (rule tree_okI) (auto simp: children_of_def parent_of_def intro: rooted.root split: if_splits)
  then show ?thesis
    by (simp add: on_tree_def empty_world_def d stage_def is_node_def children_of_def idle_def slots_at_def)
qed

lemma obj_dict_stage:
  fixes S :: "'g signals"
  assumes "signals_ok S"
  shows "\<exists>w. obj_dict S endpoint start (empty_world e) = (Inr (), w) \<and> stage S (set [0..<32]) {0, 3, 5, 18, 20, 22, 25, 29} w"
proof -
  have makes: "\<exists>w. each (\<lambda>create. create) fs (empty_world e) = (Inr (), w) \<and> stage S (set [0..<32]) {0, 3, 5, 18, 20, 22, 25, 29} w"
    if m: "makes S (each (\<lambda>create. create) (tl fs)) {0} {0} (set [0..<32]) {0, 3, 5, 18, 20, 22, 25, 29}"
      and fs: "fs \<noteq> []" "hd fs = on_tree (new_dictionary 0 nm)"
    for fs :: "((platform, 'g) world, unit) act list" and nm
  proof -
    obtain d :: "(platform, 'g) world" where d: "on_tree (new_dictionary 0 nm) (empty_world e) = (Inr (), d)" "stage S {0} {0} d"
      using dictionary_stage [of nm e S] by blast
    then show ?thesis using m fs by (cases fs) (auto simp: makes_def)
  qed
  have sets: "set [0..<32] = {31, 30, 29, 28, 27, 26, 25, 24, 23, 22, 21, 20, 19, 18, 17, 16, 15, 14, 13, 12, 11, 10, 9, 8, 7, 6, 5, 4, 3, 2, 1, 0::nat}"
    "{0, 3, 5, 18, 20, 22, 25, 29} = {29, 25, 22, 20, 18, 5, 3, 0::nat}"
    by (simp add: set_eq_iff; presburger)+
  show ?thesis
    unfolding obj_dict_def new_composite_def background_worker_def comp_node_def
    by (rule makes [rotated 2], rule list.sel, simp_all only: list.sel list.distinct not_False_eq_True sets)
      (rule makes_Cons makes_Nil makes_then makes_intros assms | simp only: composite.select_convs | simp)+
qed


text \<open>
  C23. The example's dictionary can be served: its constructors succeed one after the other, each
  finding its parent a node and its name free of dots; they leave exactly these objects, linked both ways in a tree, with
  no client being served and nobody subscribed. So the program starts where every guarantee about
  the running servers starts.
\<close>

theorem obj_dict_served:
  fixes P :: "(platform, 'g) program"
  assumes "signals_ok (signals_of (cli P))" and "dict (cli P) = 0"
  shows "\<exists>w. obj_dict (signals_of (cli P)) endpoint start (empty_world e) = (Inr (), w) \<and> dom (tree w) = {0..31} \<and>
    tree_ok (tree w) \<and> starts (application P) w application_servers"
proof -
  obtain w where w: "obj_dict (signals_of (cli P)) endpoint start (empty_world e) = (Inr (), w)"
    "stage (signals_of (cli P)) (set [0..<32]) {0, 3, 5, 18, 20, 22, 25, 29} w"
    using obj_dict_stage [OF assms(1)] by blast
  then have "starts (application P) w application_servers"
    using assms(2) by (auto simp: starts_def stage_def numbered_def application_def application_servers_def new_server_def legal_def userlevel_defs)
  moreover have "set [0..<32] = {0..31::nat}" by auto
  ultimately show ?thesis using w by (auto simp: stage_def)
qed

text \<open>With the containers and the two handlers chosen.\<close>

definition platform_program :: "(platform, (connection \<times> slot) list) program" where
  "platform_program =
     \<lparr>cli = \<lparr>signals_of = list_signals, big_endian = False, dict = 0, callbacks = initial_callbacks, b64_enc_it = b64_enc,
        b64_dec_it = b64_dec, remote_endpoint = ''peer'', stack_depth = 9, clock = int, put_time = show_int\<rparr>,
      scgi = \<lparr>slots_of = list_signals, host_big = False, dictionary = 0, browse_depth = 9,
        cast_size = cast_size sample_scgi, cast_integer = cast_integer sample_scgi, cast_real = cast_real sample_scgi,
        split_type = (\<lambda>s. [s]), pointer_text = (\<lambda>a. ''0''), moved_from = (\<lambda>s. []), uninitialised = 7\<rparr>,
      peer_name = (\<lambda>a. ''peer''), own_slots = []\<rparr>"

theorem obj_dict_served_witness:
  "\<exists>w. obj_dict list_signals time_value exit_signal (empty_world \<lparr>cout = [], io_stopped = False, data_file = [],
      data_writable = True, local_time = ''now''\<rparr>) = (Inr (), w) \<and> dom (tree w) = {0..31} \<and>
    tree_ok (tree w) \<and> starts (application platform_program) w application_servers"
  using obj_dict_served [of platform_program time_value exit_signal] list_signals_ok by (simp add: platform_program_def)


subsection \<open>Whom the parameter endpoint shows\<close>

text \<open>
  \<open>current_context_endpoint_parameter::external_value\<close>; what a client context says of its connection
  is an argument.
\<close>

definition endpoint_value :: "addr \<Rightarrow> (addr \<Rightarrow> string) \<Rightarrow> (addr \<Rightarrow> string) \<Rightarrow> (('e, 'g) world, cval) act" where
  "endpoint_value a connection_type remote w =
     (case get_object_dictionary (tree w) a of
        Inr (Some d) \<Rightarrow>
          (case current_context (tree w) d of
             Some cc \<Rightarrow> (Inr (VString (connection_type cc @ ''://'' @ remote cc)), w)
           | None \<Rightarrow> (Inr (VString ''Unknown''), w))
      | Inr None \<Rightarrow> (Inl Undefined, w)
      | Inl e \<Rightarrow> (Inl e, w))"

text \<open>
  A client that reads it sees itself, in any world between two handlers, and nobody is left behind;
  whoever reads it outside of a client's request sees \<open>Unknown\<close>.
\<close>

theorem endpoint_shows_reader:
  assumes "idle d w" and "get_object_dictionary (tree w) a = Inr (Some d)"
  shows "with_context d c (endpoint_value a ty remote) w = (Inr (VString (ty (cid c) @ ''://'' @ remote (cid c))), w) \<and>
    endpoint_value a ty remote w = (Inr (VString ''Unknown''), w)"
proof
  have k: "keeps (endpoint_value a ty remote)"
    by (auto simp: keeps_def endpoint_value_def split: sum.split option.split)
  have "get_object_dictionary (tree (serving d c w)) a = Inr (Some d)"
    using assms(2) outline_dictionary [OF serving_outline, of d c w a] by simp
  moreover have "current_context (tree (serving d c w)) d = Some (cid c)"
    using assms(1) by (auto simp: idle_def current_context_def serving_def)
  ultimately show "with_context d c (endpoint_value a ty remote) w = (Inr (VString (ty (cid c) @ ''://'' @ remote (cid c))), w)"
    unfolding with_context_keeps [OF k idle_dom [OF assms(1)]]
    using served_serving [OF assms(1)] by (simp add: endpoint_value_def)
  show "endpoint_value a ty remote w = (Inr (VString ''Unknown''), w)"
    using assms by (auto simp: endpoint_value_def idle_def current_context_def)
qed

end
