(* ===== verification/Views.thy ===== *)
theory Views
  imports Scgi_Context
begin

text \<open>
  The two adaptors the rest of the model leaves out: \<open>transform_iterator\<close>
  (\<open>include/decof/transform_iterator.h\<close>), with which \<open>conversion.h\<close> converts the elements of a
  sequence, and \<open>array_view\<close> (\<open>src/scgi/array_view.h\<close>), through which a PUT request reads the numbers
  of its body in place. Both are input iterators; the loops over them compute what \<open>map_result\<close> and
  \<open>chunks\<close> stand for elsewhere.
\<close>

subsection \<open>Input iterators\<close>

text \<open>
  The loop of a range \<open>for\<close> or of a container's constructor from two iterators: it ends at the
  iterator \<open>finish\<close>, and nowhere else, or when a dereference throws.
\<close>

partial_function (option) collect ::
  "('i \<Rightarrow> error + 'a) \<Rightarrow> ('i \<Rightarrow> 'i) \<Rightarrow> 'i \<Rightarrow> 'i \<Rightarrow> (error + 'a list) option" where
  "collect star step finish i =
     (if i = finish then Some (Inr [])
      else case star i of
             Inl e \<Rightarrow> Some (Inl e)
           | Inr x \<Rightarrow> Option.bind (collect star step finish (step i)) (\<lambda>r. Some (and_then r (\<lambda>xs. Inr (x # xs)))))"

text \<open>
  What such a loop needs: \<open>items i\<close> are the results of dereferencing from \<open>i\<close> on, up to \<open>finish\<close>;
  they are the remaining part of a container, of memory, or of another range.
\<close>

locale input_iterator =
  fixes valid :: "'i \<Rightarrow> bool" and items :: "'i \<Rightarrow> (error + 'a) list"
    and star :: "'i \<Rightarrow> error + 'a" and step :: "'i \<Rightarrow> 'i" and finish :: 'i
  assumes at_end: "valid i \<Longrightarrow> items i = [] \<longleftrightarrow> i = finish"
    and at_item: "valid i \<Longrightarrow> items i = x # xs \<Longrightarrow> star i = x \<and> valid (step i) \<and> items (step i) = xs"
begin

lemma collect_items: "valid i \<Longrightarrow> collect star step finish i = Some (map_result (\<lambda>x. x) (items i))"
proof (induction "items i" arbitrary: i)
  case Nil
  then show ?case using at_end [of i] by (simp add: collect.simps)
next
  case (Cons x xs)
  then have s: "star i = x" "valid (step i)" "items (step i) = xs" using at_item by metis+
  have "i \<noteq> finish" using Cons at_end by force
  moreover have "collect star step finish (step i) = Some (map_result (\<lambda>x. x) xs)" using Cons.hyps(1) s by metis
  ultimately show ?case
    unfolding Cons.hyps(2) [symmetric] by (subst collect.simps) (simp add: s(1) split: sum.split)
qed

lemma collect_returns: "valid i \<Longrightarrow> \<exists>r. collect star step finish i = Some r"
  using collect_items by blast

end

subsection \<open>Containers\<close>

text \<open>A constant iterator of a vector is a position in it.\<close>

definition const_items :: "'a list \<Rightarrow> nat \<Rightarrow> (error + 'a) list" where
  "const_items xs k = map Inr (drop k xs)"

definition const_star :: "'a list \<Rightarrow> nat \<Rightarrow> error + 'a" where
  "const_star xs k = (if k < length xs then Inr (xs ! k) else Inl Undefined)"

interpretation vector: input_iterator "\<lambda>k. k \<le> length xs" "const_items xs" "const_star xs" Suc "length xs"
  for xs :: "'a list"
proof
  show "const_items xs i = [] \<longleftrightarrow> i = length xs" if "i \<le> length xs" for i
    using that by (auto simp: const_items_def)
  show "const_star xs i = x \<and> Suc i \<le> length xs \<and> const_items xs (Suc i) = ys"
    if "const_items xs i = x # ys" for i x ys
  proof -
    have i: "i < length xs" using that by (auto simp: const_items_def intro: ccontr)
    then show ?thesis using that by (simp add: const_items_def const_star_def flip: Cons_nth_drop_Suc)
  qed
qed

subsection \<open>transform_iterator\<close>

record ('i, 'f) transform_iterator =
  iter :: 'i
  func :: 'f

definition new_transform_iterator :: "'i \<Rightarrow> 'f \<Rightarrow> ('i, 'f) transform_iterator" where
  "new_transform_iterator it g = \<lparr>iter = it, func = g\<rparr>"

definition transform_swap ::
  "('i, 'f) transform_iterator \<Rightarrow> ('i, 'f) transform_iterator \<Rightarrow> ('i, 'f) transform_iterator \<times> ('i, 'f) transform_iterator" where
  "transform_swap t other = (t\<lparr>iter := iter other, func := func other\<rparr>, other\<lparr>iter := iter t, func := func t\<rparr>)"

text \<open>\<open>operator*\<close>, the two \<open>operator++\<close> and the comparisons; \<open>call\<close> calls the function that \<open>func\<close> points to.\<close>

definition transform_star ::
  "('i \<Rightarrow> error + 'a) \<Rightarrow> ('f \<Rightarrow> 'a \<Rightarrow> error + 'b) \<Rightarrow> ('i, 'f) transform_iterator \<Rightarrow> error + 'b" where
  "transform_star star call t = and_then (star (iter t)) (call (func t))"

definition transform_step :: "('i \<Rightarrow> 'i) \<Rightarrow> ('i, 'f) transform_iterator \<Rightarrow> ('i, 'f) transform_iterator" where
  "transform_step step t = t\<lparr>iter := step (iter t)\<rparr>"

definition transform_post_step ::
  "('i \<Rightarrow> 'i) \<Rightarrow> ('i, 'f) transform_iterator \<Rightarrow> ('i, 'f) transform_iterator \<times> ('i, 'f) transform_iterator" where
  "transform_post_step step t = (t, t\<lparr>iter := step (iter t)\<rparr>)"

definition transform_eq :: "('i, 'f) transform_iterator \<Rightarrow> ('i, 'f) transform_iterator \<Rightarrow> bool" where
  "transform_eq t rhs \<longleftrightarrow> iter t = iter rhs \<and> func t = func rhs"

definition transform_neq :: "('i, 'f) transform_iterator \<Rightarrow> ('i, 'f) transform_iterator \<Rightarrow> bool" where
  "transform_neq t rhs \<longleftrightarrow> \<not> transform_eq t rhs"

lemma transform_eq_iff: "transform_eq t rhs \<longleftrightarrow> t = rhs" "transform_neq t rhs \<longleftrightarrow> t \<noteq> rhs"
  by (cases t; cases rhs; simp add: transform_eq_def transform_neq_def)+

lemma transform_swap_swap: "transform_swap (fst (transform_swap t u)) (snd (transform_swap t u)) = (t, u)"
  by (simp add: transform_swap_def)

text \<open>An iterator on the transformed range, whatever the underlying iterator is.\<close>

locale transformed = input_iterator valid items star step finish
  for valid :: "'i \<Rightarrow> bool" and items :: "'i \<Rightarrow> (error + 'a) list" and star step finish +
  fixes call :: "'f \<Rightarrow> 'a \<Rightarrow> error + 'b" and g :: 'f

sublocale transformed \<subseteq> image: input_iterator
  "\<lambda>t. valid (iter t) \<and> func t = g" "\<lambda>t. map (\<lambda>x. and_then x (call g)) (items (iter t))"
  "transform_star star call" "transform_step step" "new_transform_iterator finish g"
proof
  fix t :: "('i, 'f) transform_iterator" and x ys
  assume t: "valid (iter t) \<and> func t = g"
  show "map (\<lambda>x. and_then x (call g)) (items (iter t)) = [] \<longleftrightarrow> t = new_transform_iterator finish g"
    using t at_end [of "iter t"] by (cases t) (simp add: new_transform_iterator_def)
  assume "map (\<lambda>x. and_then x (call g)) (items (iter t)) = x # ys"
  then obtain y zs where y: "items (iter t) = y # zs" "x = and_then y (call g)" "ys = map (\<lambda>x. and_then x (call g)) zs" by auto
  with at_item [of "iter t" y zs] t show "transform_star star call t = x \<and>
      (valid (iter (transform_step step t)) \<and> func (transform_step step t) = g) \<and>
      map (\<lambda>x. and_then x (call g)) (items (iter (transform_step step t))) = ys"
    by (simp add: transform_star_def transform_step_def)
qed

interpretation transformed_vector: transformed "\<lambda>k. k \<le> length xs" "const_items xs" "const_star xs" Suc "length xs" call g
  for xs :: "'a list" and call :: "'f \<Rightarrow> 'a \<Rightarrow> error + 'b" and g :: 'f
  by unfold_locales

lemma map_result_identity: "map_result (\<lambda>x. x) (map f xs) = map_result f xs"
  by (induction xs) simp_all

text \<open>\<open>T(transform_iterator(src.cbegin(), transform), transform_iterator(src.cend(), transform))\<close>\<close>

definition transform_range :: "('f \<Rightarrow> 'a \<Rightarrow> error + 'b) \<Rightarrow> 'f \<Rightarrow> 'a list \<Rightarrow> (error + 'b list) option" where
  "transform_range call transform src =
     collect (transform_star (const_star src) call) (transform_step Suc)
       (new_transform_iterator (length src) transform) (new_transform_iterator 0 transform)"

lemma transform_range_map: "transform_range call f xs = Some (map_result (call f) xs)"
  unfolding transform_range_def
  using transformed_vector.image.collect_items [of "new_transform_iterator 0 f" xs f call]
  by (simp add: new_transform_iterator_def const_items_def comp_def map_result_identity)

subsection \<open>array_view\<close>

text \<open>
  Memory is a string of bytes, a pointer a position in it; reading an object of \<open>width\<close> bytes needs
  all of them to be there.
\<close>

record 'a object_type =
  width :: nat
  decoded :: "string \<Rightarrow> 'a"

definition load :: "'a object_type \<Rightarrow> string \<Rightarrow> nat \<Rightarrow> error + 'a" where
  "load T mem p =
     (if p + width T \<le> length mem then Inr (decoded T (take (width T) (drop p mem))) else Inl Undefined)"

record array_view =
  ptr :: nat
  extent :: "64 word"

definition new_array_view :: "nat \<Rightarrow> 64 word \<Rightarrow> array_view" where
  "new_array_view p n = \<lparr>ptr = p, extent = n\<rparr>"

definition array_view_between :: "'a object_type \<Rightarrow> nat \<Rightarrow> nat \<Rightarrow> error + array_view" where
  "array_view_between T p q =
     (if p \<le> q then Inr \<lparr>ptr = p, extent = word_of_nat ((q - p) div width T)\<rparr> else Inl Assertion_failed)"

definition view_at :: "'a object_type \<Rightarrow> string \<Rightarrow> array_view \<Rightarrow> 64 word \<Rightarrow> error + 'a" where
  "view_at T mem v pos =
     (if extent v \<le> pos then Inl (Foreign ''array_view: out of range access'')
      else load T mem (ptr v + unat pos * width T))"

definition view_front :: "'a object_type \<Rightarrow> string \<Rightarrow> array_view \<Rightarrow> error + 'a" where
  "view_front T mem v = load T mem (ptr v)"

definition view_back :: "'a object_type \<Rightarrow> string \<Rightarrow> array_view \<Rightarrow> error + 'a" where
  "view_back T mem v = load T mem (ptr v + unat (extent v - 1) * width T)"

definition view_data :: "array_view \<Rightarrow> nat" where
  "view_data v = ptr v"

definition view_begin :: "array_view \<Rightarrow> nat" where
  "view_begin v = ptr v"

definition view_end :: "'a object_type \<Rightarrow> array_view \<Rightarrow> nat" where
  "view_end T v = ptr v + unat (extent v) * width T"

definition view_size :: "array_view \<Rightarrow> 64 word" where
  "view_size v = extent v"

text \<open>\<open>for (auto elem : view)\<close>\<close>

definition view_for :: "'a object_type \<Rightarrow> string \<Rightarrow> array_view \<Rightarrow> (error + 'a list) option" where
  "view_for T mem v = collect (load T mem) (\<lambda>p. p + width T) (view_end T v) (view_begin v)"

text \<open>A view within the memory is an input iterator.\<close>

definition view_position :: "'a object_type \<Rightarrow> string \<Rightarrow> array_view \<Rightarrow> nat \<Rightarrow> bool" where
  "view_position T mem v p \<longleftrightarrow> 0 < width T \<and> view_end T v \<le> length mem \<and>
     (\<exists>k \<le> unat (extent v). p = ptr v + k * width T)"

definition view_items :: "'a object_type \<Rightarrow> string \<Rightarrow> array_view \<Rightarrow> nat \<Rightarrow> (error + 'a) list" where
  "view_items T mem v p = map (\<lambda>s. Inr (decoded T s)) (chunks (width T) (take (view_end T v - p) (drop p mem)))"

interpretation view: input_iterator "view_position T mem v" "view_items T mem v" "load T mem" "\<lambda>p. p + width T" "view_end T v"
  for T :: "'a object_type" and mem v
proof
  fix p
  assume p: "view_position T mem v p"
  then obtain k where k: "k \<le> unat (extent v)" "p = ptr v + k * width T" "0 < width T" "view_end T v \<le> length mem"
    by (auto simp: view_position_def)
  have rest: "view_end T v - p = (unat (extent v) - k) * width T" using k by (simp add: view_end_def diff_mult_distrib)
  have le: "p \<le> view_end T v" using k by (simp add: view_end_def mult_le_mono1)
  show nil: "view_items T mem v p = [] \<longleftrightarrow> p = view_end T v"
  proof
    assume "view_items T mem v p = []"
    then have "take (view_end T v - p) (drop p mem) = []"
      using k(3) by (subst (asm) view_items_def) (simp add: chunks.simps [of "width T"] split: if_splits)
    then show "p = view_end T v" using le k(4) by (cases "drop p mem = []") auto
  qed (simp add: view_items_def chunks.simps)
  show "load T mem p = x \<and> view_position T mem v (p + width T) \<and> view_items T mem v (p + width T) = xs"
    if x: "view_items T mem v p = x # xs" for x xs
  proof -
    have "p \<noteq> view_end T v" using x nil by simp
    then have lt: "k < unat (extent v)" using k(1,2) by (cases "k = unat (extent v)") (simp_all add: view_end_def)
    then have "Suc k \<le> unat (extent v)" by simp
    then have "Suc k * width T \<le> unat (extent v) * width T" by (rule mult_le_mono1)
    then have nx: "p + width T \<le> view_end T v" using k(2) by (simp add: view_end_def)
    let ?s = "take (view_end T v - p) (drop p mem)"
    have "?s \<noteq> []" using x by (auto simp: view_items_def chunks.simps)
    then have "chunks (width T) ?s = take (width T) ?s # chunks (width T) (drop (width T) ?s)"
      using k(3) by (subst chunks.simps) simp
    moreover have "take (width T) ?s = take (width T) (drop p mem)" using nx by (simp add: min_def)
    moreover have "drop (width T) ?s = take (view_end T v - (p + width T)) (drop (p + width T) mem)"
      by (simp add: drop_take add.commute)
    ultimately have "x = Inr (decoded T (take (width T) (drop p mem)))" "xs = view_items T mem v (p + width T)"
      using x by (simp_all add: view_items_def)
    moreover have "load T mem p = Inr (decoded T (take (width T) (drop p mem)))" using nx k(4) by (simp add: load_def)
    moreover have "view_position T mem v (p + width T)"
      using k lt by (auto simp: view_position_def intro!: exI [of _ "Suc k"])
    ultimately show ?thesis by simp
  qed
qed

text \<open>The loop reads the bytes of the view in pieces.\<close>

lemma view_for_chunks:
  assumes "0 < width T" "view_end T v \<le> length mem"
  shows "view_for T mem v = Some (Inr (map (decoded T) (chunks (width T) (take (unat (extent v) * width T) (drop (ptr v) mem)))))"
proof -
  have "view_position T mem v (view_begin v)"
    using assms by (auto simp: view_position_def view_begin_def)
  moreover have "map_result (\<lambda>x. x) (map (\<lambda>s. Inr (decoded T s)) cs) = Inr (map (decoded T) cs)" for cs
    by (induction cs) simp_all
  ultimately show ?thesis
    using view.collect_items [of T mem v]
    by (simp add: view_for_def view_items_def view_begin_def view_end_def)
qed

text \<open>The checked access.\<close>

lemma view_at_item:
  assumes "0 < width T" "view_end T v \<le> length mem"
  shows "view_at T mem v pos =
    (if pos < extent v then Inr (decoded T (take (width T) (drop (ptr v + unat pos * width T) mem)))
     else Inl (Foreign ''array_view: out of range access''))"
proof (cases "pos < extent v")
  case True
  then have "Suc (unat pos) \<le> unat (extent v)" by (simp add: word_less_nat_alt)
  then have "Suc (unat pos) * width T \<le> unat (extent v) * width T" by (rule mult_le_mono1)
  then show ?thesis using True assms by (simp add: view_at_def load_def view_end_def not_less)
qed (simp add: view_at_def not_less)

subsection \<open>The sequences of a PUT request\<close>

text \<open>\<open>handle_put_request\<close>: the numbers of the body, read in place.\<close>

definition number_type :: "('e, 'g) scgi_env \<Rightarrow> (64 word) object_type" where
  "number_type E = \<lparr>width = 8, decoded = read_word64 E\<rparr>"

definition body_numbers :: "('e, 'g) scgi_env \<Rightarrow> (64 word \<Rightarrow> scalar_t) \<Rightarrow> string \<Rightarrow> (error + value_t) option" where
  "body_numbers E elem b =
     (if length b mod 8 \<noteq> 0 then Some (Inl (Runtime invalid_value_error))
      else Option.bind (view_for (number_type E) b (new_array_view 0 (word_of_nat (length b div 8))))
        (\<lambda>r. Some (and_then r (\<lambda>xs. Inr (Sequence_t (map elem xs))))))"

text \<open>
  C27. Reading the numbers of a PUT body through pointers into it is safe and right: for every body
  that fits into memory the loop over the \<open>array_view\<close> ends, reads no byte outside the body, and
  gives the sequence of its 8 byte pieces that the model of the request computes.
\<close>

theorem body_numbers_read:
  assumes "length b < 2 ^ 64"
  shows "body_numbers E Integer_t b = Some (put_value E (content ''integer_seq'') b) \<and>
    body_numbers E Real_t b = Some (put_value E (content ''real_seq'') b)"
proof -
  have "body_numbers E elem b = Some (if length b mod 8 \<noteq> 0 then Inl (Runtime invalid_value_error)
      else Inr (Sequence_t (map (\<lambda>s. elem (read_word64 E s)) (chunks 8 b))))" for elem
  proof (cases "length b mod 8 = 0")
    case True
    let ?v = "new_array_view 0 (word_of_nat (length b div 8))"
    have n: "unat (extent ?v) = length b div 8"
      using assms by (simp add: new_array_view_def unat_of_nat take_bit_nat_eq_self)
    then have l: "unat (extent ?v) * 8 = length b" "ptr ?v = 0" using True by (auto simp: new_array_view_def)
    then have "view_for (number_type E) b ?v = Some (Inr (map (read_word64 E) (chunks 8 b)))"
      using view_for_chunks [of "number_type E" ?v b] by (simp add: number_type_def view_end_def)
    then show ?thesis using True by (simp add: body_numbers_def)
  qed (simp add: body_numbers_def)
  then show ?thesis by (simp add: put_value_def content_def)
qed

theorem body_numbers_read_witness:
  "body_numbers sample_scgi Integer_t (''12345678'' @ ''abcdefgh'') = Some (put_value sample_scgi (content ''integer_seq'') ''12345678abcdefgh'')"
  using body_numbers_read [of "''12345678'' @ ''abcdefgh''" sample_scgi] by simp

subsection \<open>The sequences of conversion.h\<close>

text \<open>
  Converting a sequence element by element with a pair of \<open>transform_iterator\<close>s always ends, calls
  the conversion of every element once and in order, stops at the first element that is refused, and
  gives what the model of the conversion gives, in both directions.
\<close>

theorem sequence_conversion_iterates:
  "map_option (map_sum id VList) (transform_range (\<lambda>f. f) (scalar_from_generic big none t) xs) =
      Some (from_generic big none (CSequence t) (Sequence_t xs)) \<and>
    map_option (map_sum id Sequence_t) (transform_range (\<lambda>f. f) (scalar_to_generic big none t) vs) =
      Some (to_generic big none (CSequence t) (VList vs))"
  by (simp add: transform_range_map from_generic_def sequence_from_generic_def as_sequence_def to_generic_def)

end
