(* ===== verification/Scanner_Streams.thy ===== *)
theory Scanner_Streams
  imports Lexical
begin

text \<open>
  The rest of the scanner's interface (\<open>src/cli/lex.cpp\<close>, \<open>scannerbase.h\<close>): what the actions of a
  rule may do with the matched text, and the stack of input streams. The rules of this scanner use
  none of it; it is part of the class all the same.
\<close>

subsection \<open>The matched text\<close>

definition accept_chars :: "nat \<Rightarrow> scanner \<Rightarrow> scanner" where
  "accept_chars nChars s =
     (if nChars < length (d_matched s)
      then s\<lparr>d_input := reRead_string (d_matched s) nChars (d_input s), d_matched := take nChars (d_matched s)\<rparr>
      else s)"

definition redo :: "nat \<Rightarrow> scanner \<Rightarrow> scanner" where
  "redo nChars s =
     (let fm = (if length (d_matched s) \<le> nChars then 0 else length (d_matched s) - nChars)
      in s\<lparr>d_input := reRead_string (d_matched s) fm (d_input s), d_matched := take fm (d_matched s)\<rparr>)"

definition more_matched :: "scanner \<Rightarrow> scanner" where
  "more_matched s = s\<lparr>d_more := True\<rparr>"

definition push_ch :: "char \<Rightarrow> scanner \<Rightarrow> scanner" where
  "push_ch ch s = s\<lparr>d_input := reRead ch (d_input s)\<rparr>"

definition push_text :: "string \<Rightarrow> scanner \<Rightarrow> scanner" where
  "push_text str s = s\<lparr>d_input := reRead_string str 0 (d_input s)\<rparr>"

definition setMatched :: "string \<Rightarrow> scanner \<Rightarrow> scanner" where
  "setMatched t s = s\<lparr>d_matched := t\<rparr>"

definition echo :: "scanner \<Rightarrow> scanner" where
  "echo s = s\<lparr>d_out := d_out s @ d_matched s\<rparr>"

definition lineNr :: "scanner \<Rightarrow> 64 word" where
  "lineNr s = d_lineNr (d_input s)"

text \<open>What is still to be scanned, the matched text first.\<close>

definition whole :: "scanner \<Rightarrow> string" where
  "whole s = d_matched s @ rest (d_input s)"

text \<open>Giving text back and matching more of it never loses or doubles a character below 0x80, nor a line.\<close>

definition lines :: "string \<Rightarrow> nat" where
  "lines t = length (filter (\<lambda>c. c = CHR 0x0A) t)"

lemma reRead_string_lines:
  "\<forall>c \<in> set (drop fm str). \<not> is_negative c \<Longrightarrow>
    d_lineNr (reRead_string str fm i) = d_lineNr i - word_of_nat (lines (drop fm str))"
proof -
  have "\<forall>c \<in> set t. \<not> is_negative c \<Longrightarrow>
      d_lineNr (foldr (\<lambda>ch i. if is_negative ch then i else reRead ch i) t i) = d_lineNr i - word_of_nat (lines t)" for t
    by (induction t) (simp_all add: reRead_def lines_def algebra_simps)
  then show "\<forall>c \<in> set (drop fm str). \<not> is_negative c \<Longrightarrow> ?thesis" by (simp add: reRead_string_def)
qed

lemma given_back:
  assumes "\<forall>c \<in> set (d_matched s). \<not> is_negative c"
  shows "whole (accept_chars n s) = whole s" "whole (redo n s) = whole s" "whole (push_ch c s) = d_matched s @ c # rest (d_input s)"
proof -
  have b: "whole (s\<lparr>d_input := reRead_string (d_matched s) k (d_input s), d_matched := take k (d_matched s)\<rparr>) = whole s" for k
    using assms in_set_dropD [of _ k "d_matched s"] kept_ascii [of "drop k (d_matched s)"]
    by (auto simp: whole_def)
  then show "whole (accept_chars n s) = whole s" "whole (redo n s) = whole s"
    by (simp_all add: accept_chars_def redo_def Let_def)
qed (simp add: whole_def push_ch_def)

subsection \<open>Streams\<close>

text \<open>
  The names belong to the streams: \<open>d_filename\<close> to the current one, \<open>pushedName\<close> to those on the
  stack. \<open>open_file\<close> is the file system; a file that cannot be opened reads as empty.
\<close>

record stream_scanner =
  lexer :: scanner
  d_filename :: string
  pushedNames :: "string list"

definition s_maxSizeofStreamStack :: nat where "s_maxSizeofStreamStack = 10"

definition new_stream_scanner :: "string \<Rightarrow> stream_scanner" where
  "new_stream_scanner s = \<lparr>lexer = new_scanner s, d_filename = ''-'', pushedNames = []\<rparr>"

definition new_file_scanner :: "(string \<Rightarrow> string option) \<Rightarrow> string \<Rightarrow> stream_scanner" where
  "new_file_scanner open_file infilename =
     \<lparr>lexer = new_scanner (case open_file infilename of None \<Rightarrow> [] | Some s \<Rightarrow> s), d_filename = infilename, pushedNames = []\<rparr>"

definition setFilename :: "string \<Rightarrow> stream_scanner \<Rightarrow> stream_scanner" where
  "setFilename nm ss = ss\<lparr>d_filename := nm\<rparr>"

definition switchStream :: "string \<Rightarrow> 64 word \<Rightarrow> stream_scanner \<Rightarrow> stream_scanner" where
  "switchStream s n ss = ss\<lparr>lexer := (lexer ss)\<lparr>d_input := (new_input s)\<lparr>d_lineNr := n\<rparr>\<rparr>\<rparr>"

definition switchIstream :: "(string \<Rightarrow> string option) \<Rightarrow> string \<Rightarrow> stream_scanner \<Rightarrow> stream_scanner" where
  "switchIstream open_file infilename ss =
     ss\<lparr>d_filename := infilename,
        lexer := (lexer ss)\<lparr>d_input := new_input (case open_file infilename of None \<Rightarrow> [] | Some s \<Rightarrow> s), d_atBOL := True\<rparr>\<rparr>"

definition p_pushStream :: "string \<Rightarrow> string \<Rightarrow> stream_scanner \<Rightarrow> (error + unit) \<times> stream_scanner" where
  "p_pushStream nm s ss =
     (if length (d_streamStack (lexer ss)) = s_maxSizeofStreamStack
      then (Inl (Foreign ''Max stream stack size exceeded''), ss)
      else (Inr (), ss\<lparr>pushedNames := d_filename ss # pushedNames ss, d_filename := nm,
              lexer := (lexer ss)\<lparr>d_streamStack := d_input (lexer ss) # d_streamStack (lexer ss),
                d_input := new_input s, d_atBOL := True\<rparr>\<rparr>))"

definition pushStream :: "string \<Rightarrow> stream_scanner \<Rightarrow> (error + unit) \<times> stream_scanner" where
  "pushStream s = p_pushStream ''(istream)'' s"

definition pushStream_file ::
  "(string \<Rightarrow> string option) \<Rightarrow> string \<Rightarrow> stream_scanner \<Rightarrow> (error + unit) \<times> stream_scanner" where
  "pushStream_file open_file nm ss =
     (case open_file nm of
        None \<Rightarrow> (Inl (Foreign (''Cannot read '' @ nm)), ss)
      | Some s \<Rightarrow> p_pushStream nm s ss)"

text \<open>\<open>popStream\<close> with the names; the stack never holds one without the other.\<close>

definition popStream_named :: "stream_scanner \<Rightarrow> bool \<times> stream_scanner" where
  "popStream_named ss =
     (case popStream (lexer ss) of
        (False, s) \<Rightarrow> (False, ss\<lparr>lexer := s\<rparr>)
      | (True, s) \<Rightarrow> (True, ss\<lparr>lexer := s, d_filename := hd (pushedNames ss), pushedNames := tl (pushedNames ss)\<rparr>))"

definition streams_ok :: "stream_scanner \<Rightarrow> bool" where
  "streams_ok ss \<longleftrightarrow> length (pushedNames ss) = length (d_streamStack (lexer ss)) \<and>
     length (d_streamStack (lexer ss)) \<le> s_maxSizeofStreamStack"

lemma streams_ok_kept:
  assumes "streams_ok ss"
  shows "streams_ok (snd (p_pushStream nm s ss))" "streams_ok (snd (popStream_named ss))" "streams_ok (switchStream s n ss)"
    "streams_ok (switchIstream f nm ss)" "streams_ok (setFilename nm ss)"
  using assms by (auto simp: streams_ok_def p_pushStream_def popStream_named_def popStream_def switchStream_def
      switchIstream_def setFilename_def split: list.splits)

text \<open>
  The stack of input streams is sound: it holds at most ten streams, each with its name; a push
  beyond that, or of a file that cannot be read, is refused and changes nothing; and popping after a
  push restores the input, where it was, with its line number, its name and the streams below it.
\<close>

theorem pushed_streams_restore:
  assumes "streams_ok ss" and "pushStream_file open_file nm ss = (r, ss')"
  shows "case r of
      Inl e \<Rightarrow> ss' = ss \<and> (open_file nm = None \<or> length (d_streamStack (lexer ss)) = s_maxSizeofStreamStack)
    | Inr u \<Rightarrow> streams_ok ss' \<and> d_filename ss' = nm \<and> open_file nm = Some (rest (d_input (lexer ss'))) \<and>
        (case popStream_named ss' of (again, ss2) \<Rightarrow>
           again \<and> ss2 = ss\<lparr>lexer := (lexer ss)\<lparr>d_atBOL := True\<rparr>\<rparr>)"
  using assms streams_ok_kept(1) [OF assms(1)]
  by (auto simp: pushStream_file_def p_pushStream_def popStream_named_def popStream_def new_input_def rest_def streams_ok_def
      split: option.splits if_splits)

theorem pushed_streams_restore_witness:
  "fst (popStream_named (snd (pushStream_file (\<lambda>nm. Some ''1'') ''f'' (new_stream_scanner ''2''))))"
proof -
  have ok: "streams_ok (new_stream_scanner ''2'')" by (simp add: streams_ok_def new_stream_scanner_def new_scanner_def s_maxSizeofStreamStack_def)
  have "pushStream_file (\<lambda>nm. Some ''1'') ''f'' (new_stream_scanner ''2'') =
      (Inr (), snd (pushStream_file (\<lambda>nm. Some ''1'') ''f'' (new_stream_scanner ''2'')))"
    by (simp add: pushStream_file_def p_pushStream_def new_stream_scanner_def new_scanner_def s_maxSizeofStreamStack_def)
  from pushed_streams_restore [OF ok this] show ?thesis by (simp split: prod.splits)
qed

end
